(* ===== verification/Go_Prelude.thy ===== *)
theory Go_Prelude
  imports Main "HOL-Library.Word" "HOL-Library.Code_Target_Numeral" "HOL-Library.Char_ord" "HOL-Library.List_Lexorder" "HOL-Library.Sublist"
begin

text \<open>
  Shared ground of the development: the Go types every component uses (byte strings,
  two's-complement integers with their wrap-around, errors as values of a sum type,
  built-in maps), reachability of a step relation with the locale that turns a
  one-step invariant into an invariant of all reachable states, and the lemma
  collections the component theories extend.
\<close>

named_theorems go_num "arithmetic of the fixed-width integers"
named_theorems go_str "the string functions of the Go standard library"

section \<open>Byte strings, errors and integers\<close>

text \<open>A Go \<open>string\<close> and a Go \<open>[]byte\<close> are both byte sequences; a \<open>char\<close> of HOL is one byte.\<close>

type_synonym bytes = string

text \<open>A function returning \<open>(T, error)\<close> yields \<open>Inl e\<close> for a non-nil error and \<open>Inr v\<close> otherwise.\<close>

type_synonym ('e, 'a) result = "'e + 'a"

definition is_ok :: "('e, 'a) result \<Rightarrow> bool" where
  "is_ok r = (case r of Inl _ \<Rightarrow> False | Inr _ \<Rightarrow> True)"

lemma is_ok_simps [simp]: "\<not> is_ok (Inl e)" "is_ok (Inr v)"
  by (simp_all add: is_ok_def)

lemma is_ok_iff: "is_ok r \<longleftrightarrow> (\<exists>v. r = Inr v)"
  by (cases r) simp_all

text \<open>
  \<open>int\<close> and \<open>int64\<close> are 64 bits wide and \<open>int32\<close> is 32 bits wide. Values are kept as
  mathematical integers; every operation of the code that can leave the range is followed
  by the wrap-around of its type.
\<close>

definition wrap :: "nat \<Rightarrow> int \<Rightarrow> int" where
  "wrap w x = (x + 2 ^ (w - 1)) mod 2 ^ w - 2 ^ (w - 1)"

abbreviation wrap64 :: "int \<Rightarrow> int" where
  "wrap64 \<equiv> wrap 64"

abbreviation wrap32 :: "int \<Rightarrow> int" where
  "wrap32 \<equiv> wrap 32"

definition in_range :: "nat \<Rightarrow> int \<Rightarrow> bool" where
  "in_range w x \<longleftrightarrow> - (2 ^ (w - 1)) \<le> x \<and> x < 2 ^ (w - 1)"

abbreviation in_int64 :: "int \<Rightarrow> bool" where
  "in_int64 \<equiv> in_range 64"

lemma wrap_in_range [go_num]: "0 < w \<Longrightarrow> in_range w (wrap w x)"
proof -
  assume "0 < w"
  then have two: "(2::int) ^ w = 2 * 2 ^ (w - 1)"
    by (cases w) simp_all
  have "0 \<le> (x + 2 ^ (w - 1)) mod 2 ^ w" and "(x + 2 ^ (w - 1)) mod 2 ^ w < (2::int) ^ w"
    by simp_all
  then show ?thesis
    using two unfolding wrap_def in_range_def by linarith
qed

lemma wrap_id [go_num]: "0 < w \<Longrightarrow> in_range w x \<Longrightarrow> wrap w x = x"
proof -
  assume "0 < w" and r: "in_range w x"
  then have "(2::int) ^ w = 2 * 2 ^ (w - 1)"
    by (cases w) simp_all
  with r have "0 \<le> x + 2 ^ (w - 1)" and "x + 2 ^ (w - 1) < (2::int) ^ w"
    unfolding in_range_def by linarith+
  then show ?thesis by (simp add: wrap_def)
qed

lemma wrap_cong [go_num]: "0 < w \<Longrightarrow> wrap w x mod 2 ^ w = x mod 2 ^ w"
  by (simp add: wrap_def mod_diff_left_eq)

lemma wrap_eqI [go_num]: "0 < w \<Longrightarrow> x mod 2 ^ w = y mod 2 ^ w \<Longrightarrow> wrap w x = wrap w y"
  unfolding wrap_def by (metis mod_add_left_eq)

section \<open>Strings package: prefixes\<close>

definition HasPrefix :: "bytes \<Rightarrow> bytes \<Rightarrow> bool" where
  "HasPrefix s p \<longleftrightarrow> take (length p) s = p"

definition TrimPrefix :: "bytes \<Rightarrow> bytes \<Rightarrow> bytes" where
  "TrimPrefix s p = (if HasPrefix s p then drop (length p) s else s)"

lemma HasPrefix_iff_prefix [go_str]: "HasPrefix s p \<longleftrightarrow> prefix p s"
  unfolding HasPrefix_def prefix_def by (metis append_eq_conv_conj)

lemma HasPrefix_append [simp]: "HasPrefix (p @ s) p"
  by (simp add: HasPrefix_def)

lemma TrimPrefix_append [simp]: "TrimPrefix (p @ s) p = s"
  by (simp add: TrimPrefix_def)

lemma HasPrefix_split: "HasPrefix s p \<Longrightarrow> s = p @ TrimPrefix s p"
  unfolding TrimPrefix_def HasPrefix_def by (metis append_take_drop_id)

section \<open>Reachable states of a step relation\<close>

inductive reach :: "('s \<Rightarrow> bool) \<Rightarrow> ('s \<Rightarrow> 's \<Rightarrow> bool) \<Rightarrow> 's \<Rightarrow> bool"
  for start :: "'s \<Rightarrow> bool" and step :: "'s \<Rightarrow> 's \<Rightarrow> bool"
where
  reach_start: "start s \<Longrightarrow> reach start step s"
| reach_step: "reach start step s \<Longrightarrow> step s t \<Longrightarrow> reach start step t"

lemma reach_steps:
  assumes "reach start step s" and "rtranclp step s t"
  shows "reach start step t"
  using assms(2,1) by (induction rule: rtranclp_induct) (auto intro: reach_step)

locale inductive_invariant =
  fixes start :: "'s \<Rightarrow> bool" and step :: "'s \<Rightarrow> 's \<Rightarrow> bool" and inv :: "'s \<Rightarrow> bool"
  assumes inv_start: "start s \<Longrightarrow> inv s"
    and inv_step: "step s t \<Longrightarrow> inv s \<Longrightarrow> inv t"
begin

lemma inv_reach: "reach start step s \<Longrightarrow> inv s"
  by (induction rule: reach.induct) (auto intro: inv_start inv_step)

lemma inv_steps: "rtranclp step s t \<Longrightarrow> inv s \<Longrightarrow> inv t"
  by (induction rule: rtranclp_induct) (auto intro: inv_step)

end

section \<open>Simulation of event sequences\<close>

fun events_ok :: "('e \<Rightarrow> 'a \<Rightarrow> 'a) \<Rightarrow> ('a \<Rightarrow> 'e \<Rightarrow> bool) \<Rightarrow> 'e list \<Rightarrow> 'a \<Rightarrow> bool" where
  "events_ok astep ok [] a = True"
| "events_ok astep ok (e # es) a = (ok a e \<and> events_ok astep ok es (astep e a))"

lemma events_ok_append:
  "events_ok astep ok (xs @ ys) a \<longleftrightarrow> events_ok astep ok xs a \<and> events_ok astep ok ys (fold astep xs a)"
  by (induction xs arbitrary: a) auto

text \<open>
  A component that follows another by applying its events: if one acceptable event keeps the
  representation relation, so does every sequence of them.
\<close>

locale event_simulation =
  fixes rep :: "'a \<Rightarrow> 'c \<Rightarrow> bool" and ok :: "'a \<Rightarrow> 'e \<Rightarrow> bool"
    and astep :: "'e \<Rightarrow> 'a \<Rightarrow> 'a" and cstep :: "'e \<Rightarrow> 'c \<Rightarrow> 'c"
  assumes sim_step: "rep a c \<Longrightarrow> ok a e \<Longrightarrow> rep (astep e a) (cstep e c)"
begin

lemma sim_run: "rep a c \<Longrightarrow> events_ok astep ok es a \<Longrightarrow> rep (fold astep es a) (fold cstep es c)"
  by (induction es arbitrary: a c) (auto intro: sim_step)

end

section \<open>Folding a fallible step over a list\<close>

fun fold_result :: "('a \<Rightarrow> 's \<Rightarrow> ('e, 's) result) \<Rightarrow> 'a list \<Rightarrow> 's \<Rightarrow> ('e, 's) result" where
  "fold_result f [] s = Inr s"
| "fold_result f (x # xs) s = (case f x s of Inl e \<Rightarrow> Inl e | Inr s' \<Rightarrow> fold_result f xs s')"

lemma fold_result_append:
  "fold_result f (xs @ ys) s = (case fold_result f xs s of Inl e \<Rightarrow> Inl e | Inr s' \<Rightarrow> fold_result f ys s')"
  by (induction xs arbitrary: s) (auto split: sum.splits)

lemma fold_result_inv:
  assumes "\<And>x s s'. f x s = Inr s' \<Longrightarrow> P s \<Longrightarrow> P s'"
  shows "fold_result f xs s = Inr s' \<Longrightarrow> P s \<Longrightarrow> P s'"
  using assms by (induction xs arbitrary: s) (auto split: sum.splits)

end
