(* ===== verification/Go_Fmt.thy ===== *)
theory Go_Fmt
  imports Go_Strconv
begin

text \<open>
  Values of type \<open>any\<close> as \<open>encoding/json\<close> produces them, and their default format \<open>%v\<close>.
  A JSON number decodes to a \<open>float64\<close>: the conversion from decimal text is the correctly
  rounded one of \<open>strconv.ParseFloat\<close>, and \<open>%v\<close> prints the shortest decimal that reads
  back as the same value, in exponent form below \<open>1e-4\<close> and from \<open>1e+06\<close> on (Go's
  \<open>%g\<close> decides with precision 6 when the precision is the shortest possible).
\<close>

section \<open>Finite 64-bit floats\<close>

text \<open>\<open>F64 neg m e\<close> is \<open>\<plusminus>m * 2 ^ e\<close>. The canonical form has \<open>m < 2 ^ 53\<close>, \<open>e \<ge> -1074\<close>
  and \<open>m \<ge> 2 ^ 52\<close> unless \<open>e = -1074\<close>.\<close>

datatype float64 = F64 bool nat int

fun canonical :: "float64 \<Rightarrow> bool" where
  "canonical (F64 neg m e) \<longleftrightarrow> m < 2 ^ 53 \<and> -1074 \<le> e \<and> e \<le> 971 \<and> (2 ^ 52 \<le> m \<or> e = -1074)"

fun bit_len :: "nat \<Rightarrow> nat" where
  "bit_len n = (if n = 0 then 0 else Suc (bit_len (n div 2)))"

declare bit_len.simps [simp del]

text \<open>The rational \<open>num / den\<close>, divided by \<open>2 ^ e\<close> and rounded to an integer, ties to even.\<close>

definition scale2 :: "nat \<Rightarrow> nat \<Rightarrow> int \<Rightarrow> nat \<times> nat" where
  "scale2 num den e = (if 0 \<le> e then (num, den * 2 ^ nat e) else (num * 2 ^ nat (- e), den))"

definition round_even :: "nat \<Rightarrow> nat \<Rightarrow> nat" where
  "round_even num den = (let q = num div den; r = num mod den in
     if den < 2 * r \<or> (2 * r = den \<and> odd q) then q + 1 else q)"

definition bin_exp :: "nat \<Rightarrow> nat \<Rightarrow> int" where
  "bin_exp num den = (let e = int (bit_len num) - int (bit_len den) - 53; (n, d) = scale2 num den e
     in max (-1074) (if 2 ^ 53 * d \<le> n then e + 1 else e))"

definition round_rat :: "nat \<Rightarrow> nat \<Rightarrow> (nat \<times> int) option" where
  "round_rat num den = (if num = 0 then Some (0, -1074) else
     let e = bin_exp num den; (n, d) = scale2 num den e; m = round_even n d;
         (m', e') = (if m = 2 ^ 53 then (2 ^ 52, e + 1) else (m, e))
     in if 971 < e' then None else Some (m', e'))"

text \<open>\<open>d * 10 ^ k\<close> as a fraction.\<close>

definition dec_frac :: "nat \<Rightarrow> int \<Rightarrow> nat \<times> nat" where
  "dec_frac d k = (if 0 \<le> k then (d * 10 ^ nat k, 1) else (d, 10 ^ nat (- k)))"

definition round_dec :: "nat \<Rightarrow> int \<Rightarrow> (nat \<times> int) option" where
  "round_dec d k = (case dec_frac d k of (n, m) \<Rightarrow> round_rat n m)"

section \<open>Shortest decimal\<close>

definition num_digits :: "nat \<Rightarrow> nat" where
  "num_digits n = (if n = 0 then 0 else length (fmt_nat n))"

text \<open>The exponent \<open>x\<close> with \<open>10 ^ x \<le> num / den < 10 ^ (x + 1)\<close>, for \<open>num > 0\<close>.\<close>

definition dec_exp :: "nat \<Rightarrow> nat \<Rightarrow> int" where
  "dec_exp num den = (if den \<le> num then int (num_digits (num div den)) - 1
     else - int (num_digits ((den - 1) div num)))"

text \<open>
  In units of \<open>10 ^ p\<close> the candidates are the two neighbours \<open>lo\<close> and \<open>lo + 1\<close> of the
  value; a candidate is good if it reads back as \<open>m * 2 ^ e\<close>. If both
  are, the closer one is taken, the even one on a tie.
\<close>

definition float_frac :: "nat \<Rightarrow> int \<Rightarrow> nat \<times> nat" where
  "float_frac m e = scale2 m 1 (- e)"

definition dec_scale :: "nat \<times> nat \<Rightarrow> int \<Rightarrow> nat \<times> nat" where
  "dec_scale f p = (case f of (n, d) \<Rightarrow>
     if 0 \<le> p then (n, d * 10 ^ nat p) else (n * 10 ^ nat (- p), d))"

definition shortest_at :: "nat \<Rightarrow> int \<Rightarrow> int \<Rightarrow> (nat \<times> int) option" where
  "shortest_at m e p =
     (case dec_scale (float_frac m e) p of (n, d) \<Rightarrow>
        let lo = n div d;
            okLo = (round_dec lo p = Some (m, e));
            okHi = (round_dec (lo + 1) p = Some (m, e))
        in if okLo \<and> okHi then Some (round_even n d, p)
           else if okLo then Some (lo, p) else if okHi then Some (lo + 1, p) else None)"

text \<open>Digit counts are tried in order; 17 digits always identify a \<open>float64\<close>.\<close>

fun shortest_from :: "nat \<Rightarrow> int \<Rightarrow> int \<Rightarrow> nat list \<Rightarrow> nat \<times> int" where
  "shortest_from m e x [] = (case dec_scale (float_frac m e) (x - 16) of (n, d) \<Rightarrow> (round_even n d, x - 16))"
| "shortest_from m e x (nd # nds) =
     (case shortest_at m e (x - int nd + 1) of Some dp \<Rightarrow> dp | None \<Rightarrow> shortest_from m e x nds)"

definition shortest :: "nat \<Rightarrow> int \<Rightarrow> nat \<times> int" where
  "shortest m e = (case float_frac m e of (n, d) \<Rightarrow>
     shortest_from m e (dec_exp n d) [1, 2, 3, 4, 5, 6, 7, 8, 9, 10, 11, 12, 13, 14, 15, 16])"

section \<open>The verb \<open>%v\<close> of a float\<close>

definition strip_zeros :: "bytes \<Rightarrow> bytes" where
  "strip_zeros ds = rev (dropWhile (\<lambda>c. c = CHR ''0'') (rev ds))"

definition zeros :: "nat \<Rightarrow> bytes" where
  "zeros n = replicate n CHR ''0''"

text \<open>\<open>fmtE\<close>: one digit, the rest after a point, an exponent of at least two digits.\<close>

definition fmtE :: "bytes \<Rightarrow> int \<Rightarrow> bytes" where
  "fmtE ds x = (case ds of [] \<Rightarrow> [] | d # rest \<Rightarrow>
     d # (if rest = [] then [] else CHR ''.'' # rest) @ ''e'' @
     (if x < 0 then ''-'' else ''+'') @
     (let es = fmt_nat (nat \<bar>x\<bar>) in if length es < 2 then CHR ''0'' # es else es))"

text \<open>\<open>fmtF\<close>: \<open>dp\<close> digits before the point.\<close>

definition fmtF :: "bytes \<Rightarrow> int \<Rightarrow> bytes" where
  "fmtF ds dp = (if dp \<le> 0
     then ''0'' @ (if ds = [] then [] else ''.'' @ zeros (nat (- dp)) @ ds)
     else if length ds \<le> nat dp then ds @ zeros (nat dp - length ds)
     else take (nat dp) ds @ ''.'' @ drop (nat dp) ds)"

fun fmt_float :: "float64 \<Rightarrow> bytes" where
  "fmt_float (F64 neg m e) = (if neg then ''-'' else []) @
     (if m = 0 then fmtF [] 0 else
      case shortest m e of (dv, p) \<Rightarrow>
        let all = fmt_nat dv; ds = strip_zeros all; dp = int (length all) + p; x = dp - 1
        in if x < -4 \<or> 6 \<le> x then fmtE ds x else fmtF ds dp)"

section \<open>Values of type any\<close>

datatype any = AnyNil | AnyBool bool | AnyInt int | AnyFloat float64 | AnyString bytes
  | AnySlice "any list" | AnyMap "(bytes \<times> any) list"

definition join :: "bytes \<Rightarrow> bytes list \<Rightarrow> bytes" where
  "join sep xs = (case xs of [] \<Rightarrow> [] | x # rest \<Rightarrow> x @ concat (map (\<lambda>y. sep @ y) rest))"

text \<open>Maps print their keys in byte order.\<close>

fun fmt_v :: "any \<Rightarrow> bytes" where
  "fmt_v AnyNil = ''<nil>''"
| "fmt_v (AnyBool b) = (if b then ''true'' else ''false'')"
| "fmt_v (AnyInt i) = fmt_int i"
| "fmt_v (AnyFloat f) = fmt_float f"
| "fmt_v (AnyString s) = s"
| "fmt_v (AnySlice xs) = ''['' @ join '' '' (map fmt_v xs) @ '']''"
| "fmt_v (AnyMap kvs) = ''map['' @
     join '' '' (map (\<lambda>(k, s). k @ '':'' @ s) (sort_key fst (map (\<lambda>(k, v). (k, fmt_v v)) kvs))) @ '']''"

definition float_of_int :: "int \<Rightarrow> float64 option" where
  "float_of_int i = map_option (\<lambda>(m, e). F64 (i < 0) m e) (round_dec (nat \<bar>i\<bar>) 0)"

end
