(* ===== verification/Sha256.thy ===== *)
theory Sha256
  imports Go_Prelude
begin

text \<open>
  \<open>crypto/sha256.Sum256\<close> and \<open>encoding/binary.BigEndian.Uint64\<close> on 32-bit and 64-bit
  machine words, in the shape of the portable implementation of the standard library: pad
  the message, then for each 64-byte block expand the schedule and run the 64 rounds.
\<close>

unbundle bit_operations_syntax

type_synonym u32 = "32 word"
type_synonym u64 = "64 word"

section \<open>Round functions\<close>

text \<open>\<open>bits.RotateLeft32(x, -n)\<close>.\<close>

definition rotr32 :: "nat \<Rightarrow> u32 \<Rightarrow> u32" where
  "rotr32 n x = drop_bit n x OR push_bit (32 - n) x"

definition big_sigma0 :: "u32 \<Rightarrow> u32" where
  "big_sigma0 a = rotr32 2 a XOR rotr32 13 a XOR rotr32 22 a"

definition big_sigma1 :: "u32 \<Rightarrow> u32" where
  "big_sigma1 e = rotr32 6 e XOR rotr32 11 e XOR rotr32 25 e"

definition small_sigma0 :: "u32 \<Rightarrow> u32" where
  "small_sigma0 v = rotr32 7 v XOR rotr32 18 v XOR drop_bit 3 v"

definition small_sigma1 :: "u32 \<Rightarrow> u32" where
  "small_sigma1 v = rotr32 17 v XOR rotr32 19 v XOR drop_bit 10 v"

definition choose32 :: "u32 \<Rightarrow> u32 \<Rightarrow> u32 \<Rightarrow> u32" where
  "choose32 e f g = (e AND f) XOR (NOT e AND g)"

definition majority32 :: "u32 \<Rightarrow> u32 \<Rightarrow> u32 \<Rightarrow> u32" where
  "majority32 a b c = (a AND b) XOR (a AND c) XOR (b AND c)"

datatype 'w sha_state = Sha 'w 'w 'w 'w 'w 'w 'w 'w

fun sha_round :: "u32 \<Rightarrow> u32 \<Rightarrow> u32 sha_state \<Rightarrow> u32 sha_state" where
  "sha_round k w (Sha a b c d e f g h) =
     (let t1 = h + big_sigma1 e + choose32 e f g + k + w;
          t2 = big_sigma0 a + majority32 a b c
      in Sha (t1 + t2) a b c (d + t1) e f g)"

section \<open>Constants\<close>

definition sha_K :: "nat list" where
  "sha_K =
    [1116352408, 1899447441, 3049323471, 3921009573, 961987163, 1508970993, 2453635748,
     2870763221, 3624381080, 310598401, 607225278, 1426881987, 1925078388, 2162078206,
     2614888103, 3248222580, 3835390401, 4022224774, 264347078, 604807628, 770255983,
     1249150122, 1555081692, 1996064986, 2554220882, 2821834349, 2952996808, 3210313671,
     3336571891, 3584528711, 113926993, 338241895, 666307205, 773529912, 1294757372,
     1396182291, 1695183700, 1986661051, 2177026350, 2456956037, 2730485921, 2820302411,
     3259730800, 3345764771, 3516065817, 3600352804, 4094571909, 275423344, 430227734,
     506948616, 659060556, 883997877, 958139571, 1322822218, 1537002063, 1747873779,
     1955562222, 2024104815, 2227730452, 2361852424, 2428436474, 2756734187, 3204031479,
     3329325298]"

definition sha_H0 :: "nat sha_state" where
  "sha_H0 = Sha 1779033703 3144134277 1013904242 2773480762 1359893119 2600822924 528734635 1541459225"

lemma length_sha_K [simp]: "length sha_K = 64"
  by (simp add: sha_K_def)

section \<open>Message schedule, blocks, padding\<close>

text \<open>
  The schedule is kept newest word first, so \<open>w[i-2]\<close>, \<open>w[i-7]\<close>, \<open>w[i-15]\<close> and
  \<open>w[i-16]\<close> are the entries 1, 6, 14 and 15.
\<close>

primrec expand :: "nat \<Rightarrow> u32 list \<Rightarrow> u32 list" where
  "expand 0 ws = ws"
| "expand (Suc n) ws =
     expand n ((small_sigma1 (ws ! 1) + ws ! 6 + small_sigma0 (ws ! 14) + ws ! 15) # ws)"

definition schedule :: "u32 list \<Rightarrow> u32 list" where
  "schedule block = rev (expand 48 (rev block))"

fun sha_rounds :: "u32 list \<Rightarrow> u32 list \<Rightarrow> u32 sha_state \<Rightarrow> u32 sha_state" where
  "sha_rounds (k # ks) (w # ws) s = sha_rounds ks ws (sha_round k w s)"
| "sha_rounds _ _ s = s"

fun sha_add :: "u32 sha_state \<Rightarrow> u32 sha_state \<Rightarrow> u32 sha_state" where
  "sha_add (Sha a b c d e f g h) (Sha a' b' c' d' e' f' g' h') =
     Sha (a + a') (b + b') (c + c') (d + d') (e + e') (f + f') (g + g') (h + h')"

definition sha_block :: "u32 list \<Rightarrow> u32 sha_state \<Rightarrow> u32 sha_state" where
  "sha_block block s = sha_add s (sha_rounds (map of_nat sha_K) (schedule block) s)"

function sha_blocks :: "u32 list \<Rightarrow> u32 sha_state \<Rightarrow> u32 sha_state" where
  "sha_blocks ws s = (if length ws < 16 then s else sha_blocks (drop 16 ws) (sha_block (take 16 ws) s))"
  by pat_completeness auto
termination
  by (relation "measure (\<lambda>(ws, s). length ws)") auto

declare sha_blocks.simps [simp del]

text \<open>\<open>0x80\<close>, zeros up to 56 modulo 64, and the bit length as 8 big-endian bytes.\<close>

definition be_bytes :: "nat \<Rightarrow> nat \<Rightarrow> bytes" where
  "be_bytes k n = map (\<lambda>i. char_of (n div 256 ^ (k - 1 - i))) [0..<k]"

definition sha_pad :: "bytes \<Rightarrow> bytes" where
  "sha_pad msg = msg @ CHR 0x80 # replicate ((119 - length msg mod 64) mod 64) CHR 0x00 @
     be_bytes 8 (8 * length msg mod 2 ^ 64)"

definition be_val :: "bytes \<Rightarrow> nat" where
  "be_val bs = foldl (\<lambda>n c. 256 * n + of_char c) 0 bs"

fun be_words :: "bytes \<Rightarrow> u32 list" where
  "be_words (a # b # c # d # rest) = of_nat (be_val [a, b, c, d]) # be_words rest"
| "be_words _ = []"

fun sha_words :: "'w sha_state \<Rightarrow> 'w list" where
  "sha_words (Sha a b c d e f g h) = [a, b, c, d, e, f, g, h]"

definition Sum256 :: "bytes \<Rightarrow> bytes" where
  "Sum256 msg = concat (map (\<lambda>w. be_bytes 4 (unat w))
     (sha_words (sha_blocks (be_words (sha_pad msg)) (map_sha_state of_nat sha_H0))))"

definition BigEndian_Uint64 :: "bytes \<Rightarrow> u64" where
  "BigEndian_Uint64 bs = of_nat (be_val (take 8 bs))"

section \<open>Sizes\<close>

lemma length_be_bytes [simp]: "length (be_bytes k n) = k"
  by (simp add: be_bytes_def)

lemma length_sha_words [simp]: "length (sha_words s) = 8"
  by (cases s) simp

lemma length_Sum256: "length (Sum256 msg) = 32"
  by (cases "sha_blocks (be_words (sha_pad msg)) (map_sha_state of_nat sha_H0)") (simp add: Sum256_def)

lemma length_sha_pad: "length (sha_pad msg) mod 64 = 0"
proof -
  have "(l + 9 + (119 - l mod 64) mod 64) mod 64 = 0" for l :: nat
  proof -
    define q r where "q = l div 64" and "r = l mod 64"
    have l: "l = 64 * q + r" and r: "r < 64" by (simp_all add: q_def r_def)
    have "(119 - r) mod 64 = (if r < 56 then 55 - r else 119 - r)"
      using r by (simp add: mod_if)
    then have "l + 9 + (119 - r) mod 64 = (if r < 56 then 64 * (q + 1) else 64 * (q + 2))"
      using l r by simp
    then have "(l + 9 + (119 - r) mod 64) mod 64 = 0"
      by simp
    then show ?thesis by (simp add: r_def)
  qed
  from this [of "length msg"] show ?thesis
    by (simp add: sha_pad_def ac_simps)
qed

lemma be_val_append: "be_val (xs @ [c]) = 256 * be_val xs + of_char c"
  by (simp add: be_val_def)

lemma be_val_append_list: "be_val (xs @ ys) = 256 ^ length ys * be_val xs + be_val ys"
proof (induction ys rule: rev_induct)
  case (snoc c ys)
  have "be_val (xs @ ys @ [c]) = 256 * be_val (xs @ ys) + of_char c"
    using be_val_append [of "xs @ ys" c] by simp
  with snoc show ?case
    by (simp add: be_val_append algebra_simps)
qed (simp add: be_val_def)

lemma be_val_lt: "be_val bs < 256 ^ length bs"
proof (induction bs rule: rev_induct)
  case (snoc c bs)
  define p :: nat where "p = 256 ^ length bs"
  have c: "(of_char c :: nat) < 256" by (rule nat_of_char_less_256)
  have "be_val bs < p" using snoc by (simp add: p_def)
  with c have "256 * be_val bs + of_char c < 256 * p" by linarith
  then show ?case by (simp add: be_val_append p_def)
qed (simp add: be_val_def)

lemma be_bytes_Suc: "be_bytes (Suc k) n = be_bytes k (n div 256) @ [char_of n]"
proof -
  have "n div 256 ^ (k - i) = n div 256 div 256 ^ (k - 1 - i)" if "i < k" for i
  proof -
    from that have "k - i = Suc (k - 1 - i)" by simp
    then show ?thesis by (simp add: div_mult2_eq)
  qed
  then show ?thesis by (simp add: be_bytes_def)
qed

lemma be_val_be_bytes: "n < 256 ^ k \<Longrightarrow> be_val (be_bytes k n) = n"
proof (induction k arbitrary: n)
  case 0
  then show ?case by (simp add: be_val_def be_bytes_def)
next
  case (Suc k)
  then have "n div 256 < 256 ^ k" by (simp add: div_less_iff_less_mult mult.commute)
  with Suc.IH show ?case by (simp add: be_bytes_Suc be_val_append)
qed

end
