(* ===== verification/Sha256_Eval.thy ===== *)
theory Sha256_Eval
  imports Sha256
begin

text \<open>
  SHA-256 over lists of bits, least significant bit first: an implementation the
  simplifier evaluates in the kernel, proved equal to the word-level definition. It is
  what lets the golden vectors of the repository be checked as theorems.
\<close>

type_synonym bits = "bool list"

definition nval :: "bits \<Rightarrow> nat" where
  "nval bs = horner_sum of_bool 2 bs"

definition wd :: "bits \<Rightarrow> u32" where
  "wd bs = of_nat (nval bs)"

abbreviation w32 :: "bits \<Rightarrow> bool" where
  "w32 bs \<equiv> length bs = 32"

lemma nval_simps [simp]: "nval [] = 0" "nval (b # bs) = of_bool b + 2 * nval bs"
  by (simp_all add: nval_def)

lemma nval_lt: "nval bs < 2 ^ length bs"
  unfolding nval_def by (rule horner_sum_of_bool_2_less)

lemma bit_wd: "bit (wd bs) n \<longleftrightarrow> n < 32 \<and> n < length bs \<and> bs ! n"
  by (auto simp: wd_def nval_def bit_of_nat_iff bit_horner_sum_bit_iff)

lemma unat_wd: "w32 bs \<Longrightarrow> unat (wd bs) = nval bs"
  using nval_lt [of bs] by (simp add: wd_def unat_of_nat)

section \<open>Bitwise operations\<close>

fun bxor3 :: "bits \<Rightarrow> bits \<Rightarrow> bits \<Rightarrow> bits" where
  "bxor3 (x # xs) (y # ys) (z # zs) = ((x \<noteq> y) \<noteq> z) # bxor3 xs ys zs"
| "bxor3 _ _ _ = []"

fun bch :: "bits \<Rightarrow> bits \<Rightarrow> bits \<Rightarrow> bits" where
  "bch (x # xs) (y # ys) (z # zs) = (if x then y else z) # bch xs ys zs"
| "bch _ _ _ = []"

fun bmaj :: "bits \<Rightarrow> bits \<Rightarrow> bits \<Rightarrow> bits" where
  "bmaj (x # xs) (y # ys) (z # zs) = (if x then y \<or> z else y \<and> z) # bmaj xs ys zs"
| "bmaj _ _ _ = []"

fun badd :: "bool \<Rightarrow> bits \<Rightarrow> bits \<Rightarrow> bits" where
  "badd c (x # xs) (y # ys) = ((x \<noteq> y) \<noteq> c) # badd (if c then x \<or> y else x \<and> y) xs ys"
| "badd _ _ _ = []"

definition brot :: "nat \<Rightarrow> bits \<Rightarrow> bits" where
  "brot n xs = drop n xs @ take n xs"

definition bshr :: "nat \<Rightarrow> bits \<Rightarrow> bits" where
  "bshr n xs = drop n xs @ replicate n False"

lemma length_bxor3 [simp]: "length (bxor3 xs ys zs) = min (length xs) (min (length ys) (length zs))"
  by (induction xs ys zs rule: bxor3.induct) auto

lemma length_bch [simp]: "length (bch xs ys zs) = min (length xs) (min (length ys) (length zs))"
  by (induction xs ys zs rule: bch.induct) auto

lemma length_bmaj [simp]: "length (bmaj xs ys zs) = min (length xs) (min (length ys) (length zs))"
  by (induction xs ys zs rule: bmaj.induct) auto

lemma length_badd [simp]: "length (badd c xs ys) = min (length xs) (length ys)"
  by (induction c xs ys rule: badd.induct) auto

lemma length_brot [simp]: "length (brot n xs) = length xs"
  by (simp add: brot_def)

lemma length_bshr: "n \<le> length xs \<Longrightarrow> length (bshr n xs) = length xs"
  by (simp add: bshr_def)

lemma nth_bxor3: "n < length (bxor3 xs ys zs) \<Longrightarrow> bxor3 xs ys zs ! n = ((xs ! n \<noteq> ys ! n) \<noteq> zs ! n)"
  by (induction xs ys zs arbitrary: n rule: bxor3.induct) (auto simp: nth_Cons split: nat.split)

lemma nth_bch: "n < length (bch xs ys zs) \<Longrightarrow> bch xs ys zs ! n = (if xs ! n then ys ! n else zs ! n)"
  by (induction xs ys zs arbitrary: n rule: bch.induct) (auto simp: nth_Cons split: nat.split)

lemma nth_bmaj: "n < length (bmaj xs ys zs) \<Longrightarrow>
    bmaj xs ys zs ! n = (if xs ! n then ys ! n \<or> zs ! n else ys ! n \<and> zs ! n)"
  by (induction xs ys zs arbitrary: n rule: bmaj.induct) (auto simp: nth_Cons split: nat.split)

lemma nval_badd:
  "length xs = length ys \<Longrightarrow>
    \<exists>k. nval xs + nval ys + of_bool c = nval (badd c xs ys) + k * 2 ^ length xs"
proof (induction c xs ys rule: badd.induct)
  case (1 c x xs y ys)
  then obtain k where "nval xs + nval ys + of_bool (if c then x \<or> y else x \<and> y) =
      nval (badd (if c then x \<or> y else x \<and> y) xs ys) + k * 2 ^ length xs"
    by auto
  then have "nval (x # xs) + nval (y # ys) + of_bool c =
      nval (badd c (x # xs) (y # ys)) + k * 2 ^ length (x # xs)"
    by (cases c; cases x; cases y) auto
  then show ?case by blast
qed auto

named_theorems sim "word operations and the bit-list operations that implement them"

lemma wd_xor3 [sim]: "w32 xs \<Longrightarrow> w32 ys \<Longrightarrow> w32 zs \<Longrightarrow> wd (bxor3 xs ys zs) = wd xs XOR wd ys XOR wd zs"
  by (intro bit_word_eqI) (auto simp: bit_wd bit_simps nth_bxor3)

lemma wd_ch [sim]: "w32 xs \<Longrightarrow> w32 ys \<Longrightarrow> w32 zs \<Longrightarrow> wd (bch xs ys zs) = choose32 (wd xs) (wd ys) (wd zs)"
  by (intro bit_word_eqI) (auto simp: bit_wd choose32_def bit_simps nth_bch)

lemma wd_maj [sim]: "w32 xs \<Longrightarrow> w32 ys \<Longrightarrow> w32 zs \<Longrightarrow> wd (bmaj xs ys zs) = majority32 (wd xs) (wd ys) (wd zs)"
  by (intro bit_word_eqI) (auto simp: bit_wd majority32_def bit_simps nth_bmaj)

lemma wd_add [sim]:
  assumes "w32 xs" and "w32 ys"
  shows "wd (badd False xs ys) = wd xs + wd ys"
proof -
  obtain k where k: "nval xs + nval ys = nval (badd False xs ys) + k * 2 ^ 32"
    using nval_badd [of xs ys False] assms by auto
  have "(of_nat (k * 2 ^ 32) :: u32) = 0"
    by (simp only: word_of_nat_eq_0_iff) simp
  then have "wd (badd False xs ys) = of_nat (nval xs + nval ys)"
    unfolding k wd_def of_nat_add by simp
  then show ?thesis by (simp add: wd_def)
qed

lemma wd_rot [sim]: "w32 xs \<Longrightarrow> n \<le> 32 \<Longrightarrow> wd (brot n xs) = rotr32 n (wd xs)"
  by (intro bit_word_eqI) (auto simp: bit_wd rotr32_def brot_def bit_simps nth_append)

lemma wd_shr [sim]: "w32 xs \<Longrightarrow> n \<le> 32 \<Longrightarrow> wd (bshr n xs) = drop_bit n (wd xs)"
  by (intro bit_word_eqI) (auto simp: bit_wd bshr_def bit_simps nth_append)

section \<open>Rounds, schedule, blocks\<close>

fun bstep :: "bits \<Rightarrow> bits \<Rightarrow> bits sha_state \<Rightarrow> bits sha_state" where
  "bstep t1 t2 (Sha a b c d e f g h) = Sha (badd False t1 t2) a b c (badd False d t1) e f g"

fun bround :: "bits \<Rightarrow> bits \<Rightarrow> bits sha_state \<Rightarrow> bits sha_state" where
  "bround k w (Sha a b c d e f g h) =
     bstep (badd False (badd False (badd False (badd False h
              (bxor3 (brot 6 e) (brot 11 e) (brot 25 e))) (bch e f g)) k) w)
           (badd False (bxor3 (brot 2 a) (brot 13 a) (brot 22 a)) (bmaj a b c))
           (Sha a b c d e f g h)"

fun brounds :: "bits list \<Rightarrow> bits list \<Rightarrow> bits sha_state \<Rightarrow> bits sha_state" where
  "brounds (k # ks) (w # ws) s = brounds ks ws (bround k w s)"
| "brounds _ _ s = s"

text \<open>One schedule word per element of a list of the required length.\<close>

definition bsched :: "bits \<Rightarrow> bits \<Rightarrow> bits \<Rightarrow> bits \<Rightarrow> bits" where
  "bsched w2 w7 w15 w16 =
     badd False (badd False (badd False (bxor3 (brot 17 w2) (brot 19 w2) (bshr 10 w2)) w7)
       (bxor3 (brot 7 w15) (brot 18 w15) (bshr 3 w15))) w16"

fun bexpand :: "'a list \<Rightarrow> bits list \<Rightarrow> bits list" where
  "bexpand [] ws = ws"
| "bexpand (_ # ks) ws = bexpand ks (bsched (ws ! 1) (ws ! 6) (ws ! 14) (ws ! 15) # ws)"

fun bsha_add :: "bits sha_state \<Rightarrow> bits sha_state \<Rightarrow> bits sha_state" where
  "bsha_add (Sha a b c d e f g h) (Sha a' b' c' d' e' f' g' h') =
     Sha (badd False a a') (badd False b b') (badd False c c') (badd False d d')
         (badd False e e') (badd False f f') (badd False g g') (badd False h h')"

text \<open>The low bits of a number, one per element of the list.\<close>

fun low_bits :: "'a list \<Rightarrow> nat \<Rightarrow> bits" where
  "low_bits [] n = []"
| "low_bits (_ # us) n = odd n # low_bits us (n div 2)"

definition nbits :: "nat \<Rightarrow> bits" where
  "nbits n = low_bits (replicate 32 ()) n"

definition sha_K_bits :: "bits list" where
  "sha_K_bits = map nbits sha_K"

definition bblock :: "bits list \<Rightarrow> bits sha_state \<Rightarrow> bits sha_state" where
  "bblock block s = bsha_add s
     (brounds sha_K_bits (rev (bexpand (drop 16 sha_K) (rev block))) s)"

abbreviation st32 :: "bits sha_state \<Rightarrow> bool" where
  "st32 s \<equiv> pred_sha_state w32 s"

lemma low_bits_eq: "low_bits us n = map (bit n) [0..<length us]"
proof (induction us n rule: low_bits.induct)
  case (2 u us n)
  have "map (bit n) [0..<Suc (length us)] = odd n # map (bit n) (map Suc [0..<length us])"
    by (simp add: upt_conv_Cons map_Suc_upt bit_0 del: upt_Suc)
  with 2 show ?case
    by (simp add: bit_Suc comp_def del: upt_Suc)
qed simp

lemma nbits_eq: "nbits n = map (bit n) [0..<32]"
  by (simp add: nbits_def low_bits_eq)

lemma wd_nbits: "wd (nbits n) = of_nat n"
  by (intro bit_word_eqI) (auto simp: bit_wd nbits_eq bit_of_nat_iff)

lemma length_nbits [simp]: "w32 (nbits n)"
  by (simp add: nbits_eq)

lemma bround_sim:
  "st32 s \<Longrightarrow> w32 k \<Longrightarrow> w32 w \<Longrightarrow>
    st32 (bround k w s) \<and> map_sha_state wd (bround k w s) = sha_round (wd k) (wd w) (map_sha_state wd s)"
  by (cases s) (simp add: sim big_sigma0_def big_sigma1_def Let_def)

lemma brounds_sim:
  "st32 s \<Longrightarrow> list_all w32 ks \<Longrightarrow> list_all w32 ws \<Longrightarrow>
    st32 (brounds ks ws s) \<and>
    map_sha_state wd (brounds ks ws s) = sha_rounds (map wd ks) (map wd ws) (map_sha_state wd s)"
  by (induction ks ws s rule: brounds.induct) (auto simp: bround_sim)

lemma bsched_sim:
  "w32 a \<Longrightarrow> w32 b \<Longrightarrow> w32 c \<Longrightarrow> w32 d \<Longrightarrow>
    w32 (bsched a b c d) \<and>
    wd (bsched a b c d) = small_sigma1 (wd a) + wd b + small_sigma0 (wd c) + wd d"
  by (simp add: bsched_def sim length_bshr small_sigma0_def small_sigma1_def)

lemma bexpand_sim:
  "list_all w32 ws \<Longrightarrow> 16 \<le> length ws \<Longrightarrow>
    list_all w32 (bexpand ks ws) \<and> map wd (bexpand ks ws) = expand (length ks) (map wd ws)"
proof (induction ks ws rule: bexpand.induct)
  case (2 k ks ws)
  have "w32 (ws ! i)" if "i < 16" for i
    using 2 that by (simp add: list_all_length)
  then show ?case
    using 2 bsched_sim [of "ws ! 1" "ws ! 6" "ws ! 14" "ws ! 15"] by simp
qed simp

lemma bsha_add_sim:
  "st32 s \<Longrightarrow> st32 t \<Longrightarrow>
    st32 (bsha_add s t) \<and> map_sha_state wd (bsha_add s t) = sha_add (map_sha_state wd s) (map_sha_state wd t)"
  by (cases s; cases t) (simp add: sim)

lemma bblock_sim:
  assumes "st32 s" and "list_all w32 block" and "length block = 16"
  shows "st32 (bblock block s) \<and> map_sha_state wd (bblock block s) = sha_block (map wd block) (map_sha_state wd s)"
proof -
  have e: "list_all w32 (bexpand (drop 16 sha_K) (rev block))"
    "map wd (bexpand (drop 16 sha_K) (rev block)) = expand 48 (rev (map wd block))"
    using bexpand_sim [of "rev block" "drop 16 sha_K"] assms by (simp_all add: rev_map)
  have "wd \<circ> nbits = of_nat"
    by (simp add: fun_eq_iff wd_nbits)
  moreover have "list_all w32 (map nbits sha_K)"
    by (simp add: list_all_iff)
  ultimately show ?thesis
    using brounds_sim [of s "map nbits sha_K" "rev (bexpand (drop 16 sha_K) (rev block))"] e assms(1)
    by (simp add: bblock_def sha_K_bits_def sha_block_def schedule_def bsha_add_sim rev_map [symmetric])
qed

section \<open>The leading 64 bits of the digest\<close>

function bblocks :: "bits list \<Rightarrow> bits sha_state \<Rightarrow> bits sha_state" where
  "bblocks ws s = (if length ws < 16 then s else bblocks (drop 16 ws) (bblock (take 16 ws) s))"
  by pat_completeness auto
termination
  by (relation "measure (\<lambda>(ws, s). length ws)") auto

declare bblocks.simps [simp del]

fun bwords :: "bytes \<Rightarrow> bits list" where
  "bwords (a # b # c # d # rest) = nbits (be_val [a, b, c, d]) # bwords rest"
| "bwords _ = []"

fun sha_head :: "bits sha_state \<Rightarrow> nat" where
  "sha_head (Sha a b c d e f g h) = 4294967296 * nval a + nval b"

definition hash64 :: "bytes \<Rightarrow> nat" where
  "hash64 msg = sha_head (bblocks (bwords (sha_pad msg)) (map_sha_state nbits sha_H0))"

lemma bblocks_sim:
  "st32 s \<Longrightarrow> list_all w32 ws \<Longrightarrow>
    st32 (bblocks ws s) \<and> map_sha_state wd (bblocks ws s) = sha_blocks (map wd ws) (map_sha_state wd s)"
proof (induction ws s rule: bblocks.induct)
  case (1 ws s)
  show ?case
  proof (cases "length ws < 16")
    case True
    with 1 show ?thesis by (simp add: bblocks.simps [of ws] sha_blocks.simps [of "map wd ws"])
  next
    case False
    have "list_all w32 (take 16 ws)" and "list_all w32 (drop 16 ws)"
      using 1(3) by (auto simp: list_all_iff dest: in_set_takeD in_set_dropD)
    with 1 False bblock_sim [of s "take 16 ws"] show ?thesis
      by (simp add: bblocks.simps [of ws] sha_blocks.simps [of "map wd ws"] take_map drop_map)
  qed
qed

lemma bwords_sim: "list_all w32 (bwords bs) \<and> map wd (bwords bs) = be_words bs"
  by (induction bs rule: bwords.induct) (auto simp: wd_nbits)

lemma be_val_digest:
  "be_val (take 8 (concat (map (\<lambda>w. be_bytes 4 (unat (w :: u32))) (sha_words (Sha a b c d e f g h))))) =
    4294967296 * unat a + unat b"
proof -
  have lt: "unat w < 256 ^ 4" for w :: u32
    using unsigned_less [of w, where ?'a = nat] by simp
  have "be_val (be_bytes 4 (unat a) @ be_bytes 4 (unat b)) = 256 ^ 4 * unat a + unat b"
    by (simp add: be_val_append_list be_val_be_bytes [OF lt])
  then show ?thesis by simp
qed

theorem Sum256_hash64: "BigEndian_Uint64 (Sum256 msg) = of_nat (hash64 msg)"
proof -
  let ?s = "bblocks (bwords (sha_pad msg)) (map_sha_state nbits sha_H0)"
  have init: "st32 (map_sha_state nbits sha_H0)"
    "map_sha_state wd (map_sha_state nbits sha_H0) = map_sha_state of_nat sha_H0"
    by (simp_all add: sha_H0_def wd_nbits)
  then have s: "st32 ?s"
    "map_sha_state wd ?s = sha_blocks (be_words (sha_pad msg)) (map_sha_state of_nat sha_H0)"
    using bblocks_sim [OF init(1), of "bwords (sha_pad msg)"] bwords_sim [of "sha_pad msg"] by simp_all
  obtain a b c d e f g h where S: "?s = Sha a b c d e f g h"
    by (cases ?s)
  with s(1) have "w32 a" "w32 b" by simp_all
  with S show ?thesis
    unfolding BigEndian_Uint64_def Sum256_def s(2) [symmetric]
    by (simp del: sha_words.simps concat.simps add: be_val_digest unat_wd hash64_def)
qed

text \<open>What the simplifier needs to run \<open>hash64\<close> on a concrete message.\<close>

lemma replicate_numeral: "replicate (numeral k) x = x # replicate (pred_numeral k) x"
  by (simp add: numeral_eq_Suc)

lemma bit_one_nat: "bit (Suc 0) 0" "\<not> bit (Suc 0) (numeral k)" "\<not> bit (Suc 0) (Suc n)"
  by (simp_all add: bit_Suc_0_iff)

lemmas sha_K_bits_eval =
  sha_K_bits_def [simplified sha_K_def nbits_def replicate_numeral, simplified]

lemmas hash64_eval =
  hash64_def sha_pad_def be_bytes_def be_val_def nbits_def bblocks.simps bblock_def sha_K_bits_eval
  sha_K_def sha_H0_def bsched_def brot_def bshr_def upt_conv_Cons replicate_numeral char_of_def bit_one_nat

end
