(* ===== verification/Hashing.thy ===== *)
theory Hashing
  imports Go_Fmt Sha256_Eval
begin

text \<open>
  \<open>internal/hashing/hash.go\<close>: the frozen v1 bucket hash, SHA-256 of the key's \<open>%v\<close> text,
  first 8 bytes big-endian, modulo the bucket count. The locale \<open>bucket_hash\<close> is the
  contract the router relies on; \<open>BucketFor\<close> provides it. The golden vectors of
  \<open>testdata/golden_vectors.json\<close> are theorems about the word-level definition.
\<close>

definition DefaultBucketCount :: int where
  "DefaultBucketCount = 1024"

definition effective_count :: "int \<Rightarrow> int" where
  "effective_count bucketCount = (if bucketCount \<le> 0 then DefaultBucketCount else bucketCount)"

definition BucketFor :: "any \<Rightarrow> int \<Rightarrow> int" where
  "BucketFor shardKey bucketCount =
     (let bucketCount = effective_count bucketCount;
          raw = fmt_v shardKey;
          digest = Sum256 raw;
          n = BigEndian_Uint64 (take 8 digest)
      in wrap64 (uint (n mod word_of_int bucketCount)))"

section \<open>The contract of a bucket hash\<close>

locale bucket_hash =
  fixes hash :: "'k \<Rightarrow> int \<Rightarrow> int"
  assumes hash_nonneg: "0 < n \<Longrightarrow> in_int64 n \<Longrightarrow> 0 \<le> hash k n"
    and hash_lt: "0 < n \<Longrightarrow> in_int64 n \<Longrightarrow> hash k n < n"
begin

lemma hash_bucket: "0 < n \<Longrightarrow> in_int64 n \<Longrightarrow> hash k n \<in> {0..<n}"
  using hash_nonneg hash_lt by simp

lemma hash_total: "0 < n \<Longrightarrow> in_int64 n \<Longrightarrow> \<forall>b\<in>{0..<n}. assigned b \<Longrightarrow> assigned (hash k n)"
  using hash_bucket by blast

end

section \<open>The hash as arithmetic\<close>

lemma hash64_lt: "hash64 msg < 2 ^ 64"
proof -
  let ?s = "bblocks (bwords (sha_pad msg)) (map_sha_state nbits sha_H0)"
  have "st32 (map_sha_state nbits sha_H0)"
    by (simp add: sha_H0_def)
  then have "st32 ?s"
    using bblocks_sim [of "map_sha_state nbits sha_H0" "bwords (sha_pad msg)"] bwords_sim [of "sha_pad msg"]
    by simp
  then obtain a b c d e f g h where s: "?s = Sha a b c d e f g h" and w: "w32 a" "w32 b"
    by (cases ?s) auto
  have "nval a < 2 ^ 32" and "nval b < 2 ^ 32"
    using nval_lt [of a] nval_lt [of b] w by simp_all
  then show ?thesis
    by (simp add: hash64_def s)
qed

lemma take_8_Sum256: "BigEndian_Uint64 (take 8 bs) = BigEndian_Uint64 bs"
  by (simp add: BigEndian_Uint64_def)

lemma uint_mod_count:
  assumes "0 < n" and "in_int64 n"
  shows "uint (of_nat (hash64 msg) mod word_of_int n :: u64) = int (hash64 msg) mod n"
proof -
  have "n < 2 ^ 64" using assms by (simp add: in_range_def)
  then have "uint (word_of_int n :: u64) = n"
    using assms(1) by (simp add: uint_word_of_int)
  moreover have "uint (of_nat (hash64 msg) :: u64) = int (hash64 msg)"
    using hash64_lt [of msg] by (simp add: unsigned_of_nat take_bit_nat_eq_self)
  ultimately show ?thesis
    by (simp add: uint_mod)
qed

text \<open>On a positive count that is an \<open>int\<close>, the hash is the leading 64 bits of the digest modulo
  the count: neither the conversion to \<open>uint64\<close> nor the one back to \<open>int\<close> changes the value.\<close>

lemma BucketFor_hash64:
  assumes "0 < n" and "in_int64 n"
  shows "BucketFor k n = int (hash64 (fmt_v k)) mod n"
proof -
  have "0 \<le> int (hash64 (fmt_v k)) mod n" and "int (hash64 (fmt_v k)) mod n < n"
    using assms by simp_all
  then have "in_int64 (int (hash64 (fmt_v k)) mod n)"
    using assms(2) by (auto simp: in_range_def)
  then show ?thesis
    using assms by (simp add: BucketFor_def effective_count_def take_8_Sum256 Sum256_hash64 uint_mod_count wrap_id)
qed

lemma effective_count_pos: "0 < effective_count n"
  by (simp add: effective_count_def DefaultBucketCount_def)

lemma effective_count_int64: "in_int64 n \<Longrightarrow> in_int64 (effective_count n)"
  by (simp add: effective_count_def DefaultBucketCount_def in_range_def)

lemma BucketFor_effective: "BucketFor k (effective_count n) = BucketFor k n"
  by (simp add: BucketFor_def effective_count_def DefaultBucketCount_def)

interpretation bucket: bucket_hash BucketFor
  by unfold_locales (simp_all add: BucketFor_hash64)




end
