(* ===== verification/Go_Utf8.thy ===== *)
theory Go_Utf8
  imports Go_Strconv
begin

text \<open>
  UTF-8 decoding as \<open>unicode/utf8.DecodeRuneInString\<close> does it (an invalid byte decodes to
  U+FFFD with width 1), the white-space class shared by \<open>unicode.IsSpace\<close> and the \<open>fmt\<close>
  scanner, and \<open>fmt.Sscanf(s, "%d", &x)\<close>. The scanner is compared with \<open>strconv.Atoi\<close>:
  it accepts everything \<open>Atoi\<close> accepts, with the same value, and more.
\<close>

section \<open>Decoding one rune\<close>

definition RuneError :: nat where
  "RuneError = 65533"

definition is_cont :: "nat \<Rightarrow> bool" where
  "is_cont b \<longleftrightarrow> 128 \<le> b \<and> b \<le> 191"

text \<open>The range of the second byte depends on the first: overlong forms, surrogates and
  values above U+10FFFF are excluded there.\<close>

definition second_ok :: "nat \<Rightarrow> nat \<Rightarrow> bool" where
  "second_ok b0 b1 \<longleftrightarrow>
     (if b0 = 224 then 160 \<le> b1 \<and> b1 \<le> 191
      else if b0 = 237 then 128 \<le> b1 \<and> b1 \<le> 159
      else if b0 = 240 then 144 \<le> b1 \<and> b1 \<le> 191
      else if b0 = 244 then 128 \<le> b1 \<and> b1 \<le> 143
      else is_cont b1)"

text \<open>Number of bytes announced by the first byte; 0 for a byte that cannot start a rune.\<close>

definition rune_width :: "nat \<Rightarrow> nat" where
  "rune_width b0 =
     (if b0 < 128 then 1 else if b0 < 194 then 0 else if b0 < 224 then 2
      else if b0 < 240 then 3 else if b0 < 245 then 4 else 0)"

fun decode_bytes :: "nat list \<Rightarrow> (nat \<times> nat) option" where
  "decode_bytes [] = None"
| "decode_bytes (b0 # bs) =
     (case rune_width b0 of
        0 \<Rightarrow> None
      | Suc 0 \<Rightarrow> Some (b0, 1)
      | Suc (Suc 0) \<Rightarrow> (case bs of b1 # _ \<Rightarrow>
            if is_cont b1 then Some ((b0 - 192) * 64 + (b1 - 128), 2) else None | _ \<Rightarrow> None)
      | Suc (Suc (Suc 0)) \<Rightarrow> (case bs of b1 # b2 # _ \<Rightarrow>
            if second_ok b0 b1 \<and> is_cont b2
            then Some ((b0 - 224) * 4096 + (b1 - 128) * 64 + (b2 - 128), 3) else None | _ \<Rightarrow> None)
      | _ \<Rightarrow> (case bs of b1 # b2 # b3 # _ \<Rightarrow>
            if second_ok b0 b1 \<and> is_cont b2 \<and> is_cont b3
            then Some ((b0 - 240) * 262144 + (b1 - 128) * 4096 + (b2 - 128) * 64 + (b3 - 128), 4)
            else None | _ \<Rightarrow> None))"

definition decode_rune :: "bytes \<Rightarrow> nat \<times> nat" where
  "decode_rune s = (if s = [] then (RuneError, 0)
     else case decode_bytes (map of_char (take 4 s)) of None \<Rightarrow> (RuneError, 1) | Some rw \<Rightarrow> rw)"

lemma decode_bytes_width: "decode_bytes bs = Some (r, w) \<Longrightarrow> 0 < w \<and> w \<le> length bs"
  by (cases bs) (auto split: nat.splits list.splits if_splits)

lemma decode_rune_width: "s \<noteq> [] \<Longrightarrow> 0 < snd (decode_rune s) \<and> snd (decode_rune s) \<le> length s"
proof -
  assume s: "s \<noteq> []"
  show ?thesis
  proof (cases "decode_bytes (map of_char (take 4 s))")
    case None
    with s show ?thesis by (cases s) (simp_all add: decode_rune_def)
  next
    case (Some rw)
    then have "0 < snd rw \<and> snd rw \<le> length (map of_char (take 4 s) :: nat list)"
      by (intro decode_bytes_width [of _ "fst rw"]) simp
    with s Some show ?thesis by (auto simp: decode_rune_def)
  qed
qed

lemma decode_rune_pos: "(r, w) = decode_rune s \<Longrightarrow> s \<noteq> [] \<Longrightarrow> 0 < w"
  using decode_rune_width by (metis snd_conv)

lemma decode_rune_ascii [simp]: "(of_char c :: nat) < 128 \<Longrightarrow> decode_rune (c # s) = (of_char c, 1)"
  by (simp add: decode_rune_def rune_width_def)

lemma digit_ascii: "is_digit c \<Longrightarrow> (of_char c :: nat) < 128"
  by (simp add: is_digit_def)

section \<open>White space\<close>

definition is_space :: "nat \<Rightarrow> bool" where
  "is_space r \<longleftrightarrow> (9 \<le> r \<and> r \<le> 13) \<or> r = 32 \<or> r = 133 \<or> r = 160 \<or> r = 5760 \<or>
     (8192 \<le> r \<and> r \<le> 8202) \<or> r = 8232 \<or> r = 8233 \<or> r = 8239 \<or> r = 8287 \<or> r = 12288"

section \<open>\<open>fmt.Sscanf(s, "%d", &x)\<close>\<close>

datatype scan_error = UnexpectedEOF | UnexpectedNewline | ExpectedInteger | ScanRange

text \<open>\<open>ss.SkipSpace\<close> in a mode where a newline is not space, as \<open>Sscanf\<close> sets it.\<close>

function SkipSpace :: "bytes \<Rightarrow> (scan_error, bytes) result" where
  "SkipSpace s = (if s = [] then Inr [] else
     case decode_rune s of (r, w) \<Rightarrow>
       if r = 10 then Inl UnexpectedNewline
       else if is_space r then SkipSpace (drop w s) else Inr s)"
  by pat_completeness auto
termination
  by (relation "measure length") (auto dest!: decode_rune_pos)

declare SkipSpace.simps [simp del]

text \<open>The token is an optional sign and the longest run of digits; what follows is not read.\<close>

definition Sscanf_d :: "bytes \<Rightarrow> (scan_error, int) result" where
  "Sscanf_d s = (case SkipSpace s of Inl e \<Rightarrow> Inl e | Inr t \<Rightarrow>
     if t = [] then Inl UnexpectedEOF
     else case split_sign t of (neg, u) \<Rightarrow>
       if u = [] then Inl UnexpectedEOF
       else let ds = takeWhile is_digit u in
         if ds = [] then Inl ExpectedInteger
         else if \<not> in_int64 (signed_val neg ds) then Inl ScanRange
         else Inr (signed_val neg ds))"

lemma SkipSpace_stop:
  assumes "is_digit c \<or> c = CHR ''-'' \<or> c = CHR ''+''"
  shows "SkipSpace (c # s) = Inr (c # s)"
proof -
  have "decode_rune (c # s) = (of_char c, 1)"
    using assms by (auto dest: digit_ascii)
  then show ?thesis
    using assms by (subst SkipSpace.simps) (auto simp: is_space_def is_digit_def)
qed

lemma Sscanf_d_signed:
  assumes "split_sign t = (neg, ds @ rest)" and "all_digits ds"
    and "rest = [] \<or> \<not> is_digit (hd rest)" and "in_int64 (signed_val neg ds)"
  shows "Sscanf_d t = Inr (signed_val neg ds)"
proof -
  obtain d ds' where ds: "ds = d # ds'" and d: "is_digit d"
    using assms(2) by (cases ds) (auto simp: all_digits_def)
  obtain c t' where t: "t = c # t'" and c: "is_digit c \<or> c = CHR ''-'' \<or> c = CHR ''+''"
    using assms(1) ds d by (cases t) (auto split: if_splits)
  have "takeWhile is_digit (ds @ rest) = ds"
    using assms(2,3) by (cases rest) (auto simp: all_digits_def list_all_iff)
  with t c ds assms(1,4) show ?thesis
    by (simp add: Sscanf_d_def SkipSpace_stop del: split_sign.simps)
qed

theorem Sscanf_d_extends_Atoi: "Atoi s = Inr i \<Longrightarrow> Sscanf_d s = Inr i"
  by (auto simp: Atoi_def split: prod.splits if_splits intro!: Sscanf_d_signed [where rest = "[]"])

lemma Sscanf_d_fmt_int:
  assumes "in_int64 i" and "rest = [] \<or> \<not> is_digit (hd rest)"
  shows "Sscanf_d (fmt_int i @ rest) = Inr i"
proof (cases "i < 0")
  case True
  have "split_sign (fmt_int i @ rest) = (True, fmt_nat (nat (- i)) @ rest)"
    using True by (simp add: fmt_int_def)
  from Sscanf_d_signed [OF this] assms True show ?thesis
    by (simp add: signed_val_def)
next
  case False
  have "split_sign (fmt_nat n @ rest) = (False, fmt_nat n @ rest)" for n
    using split_sign_fmt_nat [of n] by (cases "fmt_nat n") (auto split: if_splits)
  then have "split_sign (fmt_int i @ rest) = (False, fmt_nat (nat i) @ rest)"
    using False by (simp add: fmt_int_def)
  from Sscanf_d_signed [OF this] assms False show ?thesis
    by (simp add: signed_val_def)
qed

lemma Sscanf_d_range: "Sscanf_d s = Inr i \<Longrightarrow> in_int64 i"
  by (auto simp: Sscanf_d_def Let_def split: sum.splits prod.splits if_splits)

lemma Sscanf_d_example: "Sscanf_d ''12abc'' = Inr 12" "Atoi ''12abc'' = Inl ErrSyntax"
  by code_simp+

end
