(* ===== verification/Go_Json.thy ===== *)
theory Go_Json
  imports Go_Utf8
begin

text \<open>
  \<open>encoding/json\<close> as the program uses it: the scanner's grammar (with its nesting limit),
  unquoting of strings, and decoding of parsed values into Go values. The recursive-descent
  parser takes fuel; the length of the input is enough, so the top-level functions never
  fail for lack of it (\<open>parse_value_fuel\<close>).
\<close>

datatype json = JNull | JBool bool | JNum bytes | JStr bytes | JArr "json list"
  | JObj "(bytes \<times> json) list"

section \<open>Runes to bytes\<close>

definition encode_rune :: "nat \<Rightarrow> bytes" where
  "encode_rune r =
     (let r = (if 1114111 < r \<or> (55296 \<le> r \<and> r \<le> 57343) then RuneError else r) in
      map char_of
       (if r < 128 then [r]
        else if r < 2048 then [192 + r div 64, 128 + r mod 64]
        else if r < 65536 then [224 + r div 4096, 128 + r div 64 mod 64, 128 + r mod 64]
        else [240 + r div 262144, 128 + r div 4096 mod 64, 128 + r div 64 mod 64, 128 + r mod 64]))"

section \<open>Scanning strings\<close>

definition is_hex :: "char \<Rightarrow> bool" where
  "is_hex c \<longleftrightarrow> is_digit c \<or> (let n = (of_char c :: nat) in (97 \<le> n \<and> n \<le> 102) \<or> (65 \<le> n \<and> n \<le> 70))"

definition hex_val :: "char \<Rightarrow> nat" where
  "hex_val c = (let n = (of_char c :: nat) in
     if is_digit c then n - 48 else if 97 \<le> n then n - 87 else n - 55)"

definition hex4 :: "bytes \<Rightarrow> nat" where
  "hex4 hs = foldl (\<lambda>n c. 16 * n + hex_val c) 0 hs"

definition simple_escape :: "char \<Rightarrow> char option" where
  "simple_escape e = map_of [(CHR 0x22, CHR 0x22), (CHR 0x5C, CHR 0x5C), (CHR ''/'', CHR ''/''),
     (CHR ''b'', CHR 0x08), (CHR ''f'', CHR 0x0C), (CHR ''n'', CHR 0x0A), (CHR ''r'', CHR 0x0D),
     (CHR ''t'', CHR 0x09)] e"

definition prepend :: "bytes \<Rightarrow> (bytes \<times> 'r) option \<Rightarrow> (bytes \<times> 'r) option" where
  "prepend p r = map_option (\<lambda>(a, b). (p @ a, b)) r"

text \<open>The raw text up to the closing quote, and what follows it.\<close>

fun scan_string :: "bytes \<Rightarrow> (bytes \<times> bytes) option" where
  "scan_string [] = None"
| "scan_string (c # s) =
     (if c = CHR 0x22 then Some ([], s)
      else if c = CHR 0x5C then
        (case s of
           [] \<Rightarrow> None
         | e # s' \<Rightarrow>
             if simple_escape e \<noteq> None then prepend [c, e] (scan_string s')
             else if e = CHR ''u'' then
               (case s' of a # b # d # f # s'' \<Rightarrow>
                  if list_all is_hex [a, b, d, f] then prepend [c, e, a, b, d, f] (scan_string s'') else None
                | _ \<Rightarrow> None)
             else None)
      else if (of_char c :: nat) < 32 then None
      else prepend [c] (scan_string s))"

section \<open>Unquoting\<close>

definition is_surrogate :: "nat \<Rightarrow> bool" where
  "is_surrogate r \<longleftrightarrow> 55296 \<le> r \<and> r \<le> 57343"

text \<open>The rune of an escaped surrogate pair, if the text continues with its second half.\<close>

fun surrogate_pair :: "nat \<Rightarrow> bytes \<Rightarrow> (nat \<times> bytes) option" where
  "surrogate_pair r (x # y # a # b # d # f # s) =
     (let r' = hex4 [a, b, d, f] in
      if x = CHR 0x5C \<and> y = CHR ''u'' \<and> 55296 \<le> r \<and> r \<le> 56319 \<and> 56320 \<le> r' \<and> r' \<le> 57343
      then Some (65536 + (r - 55296) * 1024 + (r' - 56320), s) else None)"
| "surrogate_pair r _ = None"

lemma surrogate_pair_length: "surrogate_pair r s = Some (r', s') \<Longrightarrow> length s' < length s"
  by (cases "(r, s)" rule: surrogate_pair.cases) (auto simp: Let_def split: if_splits)

function unquote :: "bytes \<Rightarrow> bytes" where
  "unquote s = (case s of
     [] \<Rightarrow> []
   | c # t \<Rightarrow>
       if c = CHR 0x5C then
         (case t of
            [] \<Rightarrow> []
          | e # t' \<Rightarrow>
              (case simple_escape e of
                 Some x \<Rightarrow> x # unquote t'
               | None \<Rightarrow>
                   (case t' of a # b # d # f # t'' \<Rightarrow>
                      let r = hex4 [a, b, d, f] in
                      if is_surrogate r then
                        (case surrogate_pair r t'' of
                           Some (r', t''') \<Rightarrow> encode_rune r' @ unquote t'''
                         | None \<Rightarrow> encode_rune RuneError @ unquote t'')
                      else encode_rune r @ unquote t''
                    | _ \<Rightarrow> [])))
       else (case decode_rune s of (r, w) \<Rightarrow> encode_rune r @ unquote (drop w s)))"
  by pat_completeness auto
termination
  by (relation "measure length")
    (auto dest!: surrogate_pair_length decode_rune_pos)

declare unquote.simps [simp del]

section \<open>Numbers, white space, literals\<close>

definition json_ws :: "char \<Rightarrow> bool" where
  "json_ws c \<longleftrightarrow> c \<in> {CHR '' '', CHR 0x09, CHR 0x0A, CHR 0x0D}"

definition skip_ws :: "bytes \<Rightarrow> bytes" where
  "skip_ws s = dropWhile json_ws s"

definition span :: "(char \<Rightarrow> bool) \<Rightarrow> bytes \<Rightarrow> bytes \<times> bytes" where
  "span P s = (takeWhile P s, dropWhile P s)"

text \<open>Integer part: a single zero or digits not starting with zero.\<close>

fun scan_int :: "bytes \<Rightarrow> (bytes \<times> bytes) option" where
  "scan_int [] = None"
| "scan_int (c # s) = (if c = CHR ''0'' then Some ([c], s)
     else if is_digit c then (case span is_digit s of (ds, r) \<Rightarrow> Some (c # ds, r)) else None)"

fun scan_frac :: "bytes \<Rightarrow> (bytes \<times> bytes) option" where
  "scan_frac [] = Some ([], [])"
| "scan_frac (c # s) = (if c = CHR ''.'' then
       (case span is_digit s of (ds, r) \<Rightarrow> if ds = [] then None else Some (c # ds, r))
     else Some ([], c # s))"

fun scan_exp :: "bytes \<Rightarrow> (bytes \<times> bytes) option" where
  "scan_exp [] = Some ([], [])"
| "scan_exp (c # s) = (if c = CHR ''e'' \<or> c = CHR ''E'' then
       (let (sg, t) = (case s of x # t \<Rightarrow> if x = CHR ''+'' \<or> x = CHR ''-'' then ([x], t) else ([], s) | [] \<Rightarrow> ([], [])) in
        case span is_digit t of (ds, r) \<Rightarrow> if ds = [] then None else Some (c # sg @ ds, r))
     else Some ([], c # s))"

definition scan_number :: "bytes \<Rightarrow> (bytes \<times> bytes) option" where
  "scan_number s =
     (let (sg, t) = (case s of x # t \<Rightarrow> if x = CHR ''-'' then ([x], t) else ([], s) | [] \<Rightarrow> ([], [])) in
      case scan_int t of None \<Rightarrow> None | Some (i, t1) \<Rightarrow>
      (case scan_frac t1 of None \<Rightarrow> None | Some (f, t2) \<Rightarrow>
      (case scan_exp t2 of None \<Rightarrow> None | Some (e, t3) \<Rightarrow> Some (sg @ i @ f @ e, t3))))"

definition expect :: "bytes \<Rightarrow> 'a \<Rightarrow> bytes \<Rightarrow> ('a \<times> bytes) option" where
  "expect p v s = (if HasPrefix s p then Some (v, drop (length p) s) else None)"

section \<open>Values\<close>

datatype 'a parsed = Parsed 'a bytes | Bad | OutOfFuel

definition bind_parsed :: "'a parsed \<Rightarrow> ('a \<Rightarrow> bytes \<Rightarrow> 'b parsed) \<Rightarrow> 'b parsed" where
  "bind_parsed p f = (case p of Parsed v r \<Rightarrow> f v r | Bad \<Rightarrow> Bad | OutOfFuel \<Rightarrow> OutOfFuel)"

definition of_scan :: "('a \<times> bytes) option \<Rightarrow> 'a parsed" where
  "of_scan r = (case r of None \<Rightarrow> Bad | Some (v, s) \<Rightarrow> Parsed v s)"

text \<open>A separator leads to the rest of the list, a closing bracket ends it.\<close>

definition after_item :: "char \<Rightarrow> 'a \<Rightarrow> bytes \<Rightarrow> (bytes \<Rightarrow> 'a list parsed) \<Rightarrow> 'a list parsed" where
  "after_item close x s more = (case skip_ws s of
     [] \<Rightarrow> Bad
   | c # t \<Rightarrow> if c = CHR '','' then bind_parsed (more t) (\<lambda>xs r. Parsed (x # xs) r)
             else if c = close then Parsed [x] t else Bad)"

definition maxNestingDepth :: nat where
  "maxNestingDepth = 10000"

definition closes :: "char \<Rightarrow> bytes \<Rightarrow> bytes option" where
  "closes close s = (case skip_ws s of c # t \<Rightarrow> if c = close then Some t else None | [] \<Rightarrow> None)"

fun parse_value :: "nat \<Rightarrow> nat \<Rightarrow> bytes \<Rightarrow> json parsed"
  and parse_elems :: "nat \<Rightarrow> nat \<Rightarrow> bytes \<Rightarrow> json list parsed"
  and parse_members :: "nat \<Rightarrow> nat \<Rightarrow> bytes \<Rightarrow> (bytes \<times> json) list parsed"
where
  "parse_value 0 d s = OutOfFuel"
| "parse_value (Suc n) d s = (case skip_ws s of
     [] \<Rightarrow> Bad
   | c # t \<Rightarrow>
       if c = CHR 0x22 then bind_parsed (of_scan (scan_string t)) (\<lambda>raw r. Parsed (JStr (unquote raw)) r)
       else if c = CHR ''['' then
         (if maxNestingDepth \<le> d then Bad else
          case closes (CHR '']'') t of Some r \<Rightarrow> Parsed (JArr []) r
          | None \<Rightarrow> bind_parsed (parse_elems n (Suc d) t) (\<lambda>vs r. Parsed (JArr vs) r))
       else if c = CHR ''{'' then
         (if maxNestingDepth \<le> d then Bad else
          case closes (CHR ''}'') t of Some r \<Rightarrow> Parsed (JObj []) r
          | None \<Rightarrow> bind_parsed (parse_members n (Suc d) t) (\<lambda>kvs r. Parsed (JObj kvs) r))
       else if c = CHR ''t'' then of_scan (expect ''rue'' (JBool True) t)
       else if c = CHR ''f'' then of_scan (expect ''alse'' (JBool False) t)
       else if c = CHR ''n'' then of_scan (expect ''ull'' JNull t)
       else bind_parsed (of_scan (scan_number (c # t))) (\<lambda>lit r. Parsed (JNum lit) r))"
| "parse_elems 0 d s = OutOfFuel"
| "parse_elems (Suc n) d s =
     bind_parsed (parse_value n d s) (\<lambda>v r. after_item (CHR '']'') v r (parse_elems n d))"
| "parse_members 0 d s = OutOfFuel"
| "parse_members (Suc n) d s = (case skip_ws s of
     [] \<Rightarrow> Bad
   | c # t \<Rightarrow>
       if c \<noteq> CHR 0x22 then Bad else
       bind_parsed (of_scan (scan_string t)) (\<lambda>raw r.
         case skip_ws r of
           [] \<Rightarrow> Bad
         | c' # r' \<Rightarrow>
             if c' \<noteq> CHR '':'' then Bad else
             bind_parsed (parse_value n d r') (\<lambda>v r''.
               after_item (CHR ''}'') (unquote raw, v) r'' (parse_members n d))))"

declare parse_value.simps [simp del] parse_elems.simps [simp del] parse_members.simps [simp del]

text \<open>\<open>json.Unmarshal\<close> wants one value and nothing but white space after it; a \<open>Decoder\<close> reads
  one value and leaves the rest in its buffer.\<close>

definition json_prefix :: "bytes \<Rightarrow> json parsed" where
  "json_prefix s = parse_value (2 * length s + 1) 0 s"

definition json_parse :: "bytes \<Rightarrow> json option" where
  "json_parse s = (case json_prefix s of Parsed v r \<Rightarrow> if skip_ws r = [] then Some v else None | _ \<Rightarrow> None)"

section \<open>Enough fuel\<close>

named_theorems consumes "what a scanner leaves is no longer than its input"

lemma skip_ws_length: "length (skip_ws s) \<le> length s"
  by (simp add: skip_ws_def length_dropWhile_le)

lemma skip_ws_Cons [consumes]: "skip_ws s = c # t \<Longrightarrow> length t < length s"
  using skip_ws_length [of s] by simp

lemma closes_length [consumes]: "closes c s = Some t \<Longrightarrow> length t < length s"
  by (auto simp: closes_def split: list.splits if_splits dest: skip_ws_Cons)

lemma scan_string_length [consumes]: "scan_string s = Some (raw, r) \<Longrightarrow> length r < length s"
proof (induction s arbitrary: raw r rule: scan_string.induct)
  case (2 c s)
  then show ?case
    by (fastforce simp: prepend_def split: if_splits list.splits)
qed simp

lemma scan_int_length: "scan_int s = Some (i, r) \<Longrightarrow> length r < length s"
  by (cases s) (auto simp: span_def less_Suc_eq_le length_dropWhile_le split: if_splits)

lemma scan_frac_length: "scan_frac s = Some (i, r) \<Longrightarrow> length r \<le> length s"
  by (cases s) (auto simp: span_def le_SucI length_dropWhile_le split: if_splits)

lemma scan_exp_length: "scan_exp s = Some (i, r) \<Longrightarrow> length r \<le> length s"
  by (cases s) (auto simp: span_def le_SucI length_dropWhile_le split: if_splits list.splits)

lemma scan_number_length [consumes]: "scan_number s = Some (lit, r) \<Longrightarrow> length r < length s"
  by (auto simp: scan_number_def Let_def split: option.splits list.splits if_splits
      simp del: scan_int.simps dest!: scan_int_length scan_frac_length scan_exp_length)

lemma of_scan_Parsed: "of_scan x = Parsed v r \<longleftrightarrow> x = Some (v, r)"
  by (auto simp: of_scan_def split: option.splits)

lemma bind_Parsed: "bind_parsed p f = Parsed v r \<longleftrightarrow> (\<exists>u q. p = Parsed u q \<and> f u q = Parsed v r)"
  by (auto simp: bind_parsed_def split: parsed.splits)

lemma case_Parsed:
  "(case xs of [] \<Rightarrow> Bad | c # t \<Rightarrow> f c t) = Parsed v r \<longleftrightarrow> (\<exists>c t. xs = c # t \<and> f c t = Parsed v r)"
  "(if b then Bad else p) = Parsed v r \<longleftrightarrow> \<not> b \<and> p = Parsed v r"
  by (cases xs) auto

lemma expect_length: "expect p v s = Some (x, r) \<Longrightarrow> length r \<le> length s"
  by (auto simp: expect_def split: if_splits)

lemma after_item_Parsed:
  assumes "after_item close x s more = Parsed xs r"
    and "\<And>t ys q. more t = Parsed ys q \<Longrightarrow> length q < length t"
  shows "length r < length s"
  using assms(1)
  by (auto simp: after_item_def bind_Parsed split: list.splits if_splits
      dest!: skip_ws_Cons assms(2))

lemma parse_consumes:
  "(\<forall>d s v r. parse_value n d s = Parsed v r \<longrightarrow> length r < length s) \<and>
   (\<forall>d s v r. parse_elems n d s = Parsed v r \<longrightarrow> length r < length s) \<and>
   (\<forall>d s v r. parse_members n d s = Parsed v r \<longrightarrow> length r < length s)"
proof (induction n)
  case 0
  then show ?case by (simp add: parse_value.simps parse_elems.simps parse_members.simps)
next
  case (Suc n)
  have v: "length r < length s" if "parse_value (Suc n) d s = Parsed v r" for d s v r
    using that Suc
    by (fastforce simp: parse_value.simps bind_Parsed of_scan_Parsed
        split: list.splits if_splits option.splits
        dest: consumes expect_length)
  have e: "length r < length s" if "parse_elems (Suc n) d s = Parsed v r" for d s v r
    using that Suc unfolding parse_elems.simps bind_Parsed
    by (meson after_item_Parsed order.strict_trans)
  have m: "length r < length s" if asm: "parse_members (Suc n) d s = Parsed v r" for d s v r
  proof -
    obtain c t raw q c' r' u q' where "skip_ws s = c # t" "scan_string t = Some (raw, q)"
        "skip_ws q = c' # r'" "parse_value n d r' = Parsed u q'"
      and a: "after_item (CHR ''}'') (unquote raw, u) q' (parse_members n d) = Parsed v r"
      using asm unfolding parse_members.simps bind_Parsed of_scan_Parsed case_Parsed by blast
    then have "length q' < length s"
      using Suc by (fastforce dest: consumes)
    with after_item_Parsed [OF a] Suc show ?thesis by fastforce
  qed
  from v e m show ?case by blast
qed

lemma fuel_out:
  "bind_parsed p f = OutOfFuel \<longleftrightarrow> p = OutOfFuel \<or> (\<exists>u q. p = Parsed u q \<and> f u q = OutOfFuel)"
  "of_scan x \<noteq> OutOfFuel"
  "(case xs of [] \<Rightarrow> Bad | c # t \<Rightarrow> g c t) = OutOfFuel \<longleftrightarrow> (\<exists>c t. xs = c # t \<and> g c t = OutOfFuel)"
  "(case o' of None \<Rightarrow> p' | Some r \<Rightarrow> Parsed (h r) r) = OutOfFuel \<longleftrightarrow> o' = None \<and> p' = OutOfFuel"
  by (auto simp: bind_parsed_def of_scan_def split: parsed.splits option.splits list.splits)

lemma after_item_fuel: "after_item close x s more = OutOfFuel \<Longrightarrow> \<exists>t. length t < length s \<and> more t = OutOfFuel"
  by (auto simp: after_item_def fuel_out split: if_splits dest: skip_ws_Cons)

lemma parse_fuel:
  "(\<forall>d s. 2 * length s + 1 \<le> n \<longrightarrow> parse_value n d s \<noteq> OutOfFuel) \<and>
   (\<forall>d s. 2 * length s + 2 \<le> n \<longrightarrow> parse_elems n d s \<noteq> OutOfFuel) \<and>
   (\<forall>d s. 2 * length s + 2 \<le> n \<longrightarrow> parse_members n d s \<noteq> OutOfFuel)"
proof (induction n)
  case (Suc n)
  note used = parse_consumes [of n]
  have v: "parse_value (Suc n) d s \<noteq> OutOfFuel" if "2 * length s + 1 \<le> Suc n" for d s
  proof
    assume "parse_value (Suc n) d s = OutOfFuel"
    then obtain c t where t: "skip_ws s = c # t"
        and "parse_elems n (Suc d) t = OutOfFuel \<or> parse_members n (Suc d) t = OutOfFuel"
      unfolding parse_value.simps fuel_out by (auto simp: fuel_out split: if_splits)
    with Suc skip_ws_Cons [OF t] that show False by auto
  qed
  have e: "parse_elems (Suc n) d s \<noteq> OutOfFuel" if "2 * length s + 2 \<le> Suc n" for d s
  proof
    assume "parse_elems (Suc n) d s = OutOfFuel"
    moreover have "parse_value n d s \<noteq> OutOfFuel"
      using Suc that by simp
    ultimately obtain u q t where "parse_value n d s = Parsed u q" and t: "length t < length q"
        "parse_elems n d t = OutOfFuel"
      unfolding parse_elems.simps fuel_out by (auto dest!: after_item_fuel)
    then have "length q < length s" using used by blast
    with t that have "2 * length t + 2 \<le> n" by linarith
    with t(2) Suc show False by blast
  qed
  have m: "parse_members (Suc n) d s \<noteq> OutOfFuel" if le: "2 * length s + 2 \<le> Suc n" for d s
  proof
    assume "parse_members (Suc n) d s = OutOfFuel"
    then obtain c t raw q c' r' where "skip_ws s = c # t" "scan_string t = Some (raw, q)" "skip_ws q = c' # r'"
        and r: "bind_parsed (parse_value n d r') (\<lambda>v r''.
               after_item (CHR ''}'') (unquote raw, v) r'' (parse_members n d)) = OutOfFuel"
      unfolding parse_members.simps fuel_out
      by (auto simp: fuel_out of_scan_Parsed split: if_splits)
    then have l: "length r' < length s"
      by (fastforce dest: consumes)
    then have "parse_value n d r' \<noteq> OutOfFuel"
      using Suc le by simp
    with r obtain u q' t' where "parse_value n d r' = Parsed u q'" and t': "length t' < length q'"
        "parse_members n d t' = OutOfFuel"
      unfolding fuel_out by (auto dest!: after_item_fuel)
    then have "length q' < length r'" using used by blast
    with t' l le have "2 * length t' + 2 \<le> n" by linarith
    with t'(2) Suc show False by blast
  qed
  from v e m show ?case by blast
qed simp

lemma json_prefix_fuel: "json_prefix s \<noteq> OutOfFuel"
  using parse_fuel [of "2 * length s + 1"] by (simp add: json_prefix_def)

lemma json_prefix_consumes: "json_prefix s = Parsed v r \<Longrightarrow> length r < length s"
  using parse_consumes unfolding json_prefix_def by blast

end
