(* ===== verification/Go_Decode.thy ===== *)
theory Go_Decode
  imports Go_Json Go_Fmt "HOL-Library.AList"
begin

text \<open>
  Decoding of parsed JSON into Go values, following the decoder of \<open>encoding/json\<close>: object
  members are taken in order; a member goes to the field with exactly its name, else to the
  first field whose name folds to the same text, else nowhere; null leaves a value alone and
  resets a pointer; a value of the wrong kind is an error. The callers discard the target on
  an error, so a decoder yields \<open>None\<close> as soon as one member fails.
\<close>

datatype json_error = SyntaxError | TypeError

section \<open>Fields\<close>

type_synonym 's field = "bytes \<times> ('s \<Rightarrow> json \<Rightarrow> 's option)"

definition to_upper_char :: "char \<Rightarrow> char" where
  "to_upper_char c = (let n = (of_char c :: nat) in if 97 \<le> n \<and> n \<le> 122 then char_of (n - 32) else c)"

text \<open>Case folding of member names. Besides the ASCII letters, only U+017F (long s) and U+212A
  (the Kelvin sign) fold to an ASCII letter; every other rune stays outside ASCII.\<close>

fun fold_name :: "bytes \<Rightarrow> bytes" where
  "fold_name [] = []"
| "fold_name (c # s) =
     (case s of
        a # t \<Rightarrow>
          if c = CHR 0xC5 \<and> a = CHR 0xBF then CHR ''S'' # fold_name t
          else (case t of
            b # u \<Rightarrow> if c = CHR 0xE2 \<and> a = CHR 0x84 \<and> b = CHR 0xAA then CHR ''K'' # fold_name u
                      else to_upper_char c # fold_name s
          | [] \<Rightarrow> to_upper_char c # fold_name s)
      | [] \<Rightarrow> [to_upper_char c])"

definition find_field :: "'s field list \<Rightarrow> bytes \<Rightarrow> ('s \<Rightarrow> json \<Rightarrow> 's option) option" where
  "find_field fields key = (case map_of fields key of Some f \<Rightarrow> Some f
     | None \<Rightarrow> map_option snd (find (\<lambda>(n, f). fold_name n = fold_name key) fields))"

fun dec_members :: "'s field list \<Rightarrow> (bytes \<times> json) list \<Rightarrow> 's \<Rightarrow> 's option" where
  "dec_members fields [] s = Some s"
| "dec_members fields ((k, j) # kvs) s =
     (case find_field fields k of
        None \<Rightarrow> dec_members fields kvs s
      | Some f \<Rightarrow> (case f s j of None \<Rightarrow> None | Some s' \<Rightarrow> dec_members fields kvs s'))"

definition dec_struct :: "'s field list \<Rightarrow> json \<Rightarrow> 's \<Rightarrow> 's option" where
  "dec_struct fields j s = (case j of JNull \<Rightarrow> Some s | JObj kvs \<Rightarrow> dec_members fields kvs s | _ \<Rightarrow> None)"

lemma dec_struct_obj: "dec_struct fs (JObj kvs) s = dec_members fs kvs s"
  by (simp add: dec_struct_def)

section \<open>Field kinds\<close>

definition str_field :: "(bytes \<Rightarrow> 's \<Rightarrow> 's) \<Rightarrow> 's \<Rightarrow> json \<Rightarrow> 's option" where
  "str_field upd s j = (case j of JNull \<Rightarrow> Some s | JStr x \<Rightarrow> Some (upd x s) | _ \<Rightarrow> None)"

definition int_field :: "(int \<Rightarrow> 's \<Rightarrow> 's) \<Rightarrow> 's \<Rightarrow> json \<Rightarrow> 's option" where
  "int_field upd s j = (case j of JNull \<Rightarrow> Some s
     | JNum lit \<Rightarrow> (case Atoi lit of Inl _ \<Rightarrow> None | Inr i \<Rightarrow> Some (upd i s)) | _ \<Rightarrow> None)"

definition bool_field :: "(bool \<Rightarrow> 's \<Rightarrow> 's) \<Rightarrow> 's \<Rightarrow> json \<Rightarrow> 's option" where
  "bool_field upd s j = (case j of JNull \<Rightarrow> Some s | JBool b \<Rightarrow> Some (upd b s) | _ \<Rightarrow> None)"

definition sub_field :: "(json \<Rightarrow> 'a \<Rightarrow> 'a option) \<Rightarrow> ('s \<Rightarrow> 'a) \<Rightarrow> ('a \<Rightarrow> 's \<Rightarrow> 's) \<Rightarrow> 's \<Rightarrow> json \<Rightarrow> 's option" where
  "sub_field dec get upd s j = map_option (\<lambda>x. upd x s) (dec j (get s))"

text \<open>A pointer: null makes it nil, any other value is decoded into what it points to.\<close>

definition dec_ptr :: "(json \<Rightarrow> 'a \<Rightarrow> 'a option) \<Rightarrow> 'a \<Rightarrow> json \<Rightarrow> 'a option \<Rightarrow> 'a option option" where
  "dec_ptr dec zero j cur = (case j of JNull \<Rightarrow> Some None
     | _ \<Rightarrow> map_option Some (dec j (case cur of None \<Rightarrow> zero | Some x \<Rightarrow> x)))"

text \<open>A slice is filled from its first element, over the elements it had; a map gets one fresh
  element per member.\<close>

fun dec_elems :: "(json \<Rightarrow> 'a \<Rightarrow> 'a option) \<Rightarrow> 'a \<Rightarrow> 'a list \<Rightarrow> json list \<Rightarrow> 'a list option" where
  "dec_elems dec zero cur [] = Some []"
| "dec_elems dec zero cur (j # js) = (case dec j (case cur of [] \<Rightarrow> zero | x # _ \<Rightarrow> x) of None \<Rightarrow> None
     | Some x \<Rightarrow> map_option (\<lambda>xs. x # xs) (dec_elems dec zero (drop 1 cur) js))"

definition dec_slice :: "(json \<Rightarrow> 'a \<Rightarrow> 'a option) \<Rightarrow> 'a \<Rightarrow> json \<Rightarrow> 'a list \<Rightarrow> 'a list option" where
  "dec_slice dec zero j cur = (case j of JNull \<Rightarrow> Some [] | JArr js \<Rightarrow> dec_elems dec zero cur js | _ \<Rightarrow> None)"

fun dec_entries :: "(json \<Rightarrow> 'a \<Rightarrow> 'a option) \<Rightarrow> 'a \<Rightarrow> (bytes \<times> json) list \<Rightarrow> (bytes \<times> 'a) list \<Rightarrow> (bytes \<times> 'a) list option" where
  "dec_entries dec zero [] m = Some m"
| "dec_entries dec zero ((k, j) # kvs) m = (case dec j zero of None \<Rightarrow> None
     | Some x \<Rightarrow> dec_entries dec zero kvs (AList.update k x m))"

definition dec_map :: "(json \<Rightarrow> 'a \<Rightarrow> 'a option) \<Rightarrow> 'a \<Rightarrow> json \<Rightarrow> (bytes \<times> 'a) list \<Rightarrow> (bytes \<times> 'a) list option" where
  "dec_map dec zero j cur = (case j of JNull \<Rightarrow> Some [] | JObj kvs \<Rightarrow> dec_entries dec zero kvs cur | _ \<Rightarrow> None)"

lemma dec_entries_distinct:
  "dec_entries dec zero kvs m = Some m' \<Longrightarrow> distinct (map fst m) \<Longrightarrow> distinct (map fst m')"
  by (induction dec zero kvs m rule: dec_entries.induct) (auto simp: distinct_update split: option.splits)

section \<open>Values of type any\<close>

text \<open>A number literal is \<open>d * 10 ^ k\<close>; out of the range of \<open>float64\<close> is a type error.\<close>

definition number_parts :: "bytes \<Rightarrow> bool \<times> nat \<times> int" where
  "number_parts lit =
     (let (neg, t) = split_sign lit;
          mant = takeWhile (\<lambda>c. c \<noteq> CHR ''e'' \<and> c \<noteq> CHR ''E'') t;
          ex = drop (Suc (length mant)) t;
          ip = takeWhile is_digit mant;
          fp = drop (Suc (length ip)) mant;
          x = (case split_sign ex of (n, ds) \<Rightarrow> signed_val n ds)
      in (neg, digits_val (ip @ fp), x - int (length fp)))"

definition dec_float :: "bytes \<Rightarrow> float64 option" where
  "dec_float lit = (case number_parts lit of (neg, d, k) \<Rightarrow>
     map_option (\<lambda>(m, e). F64 neg m e) (round_dec d k))"

fun dec_any :: "json \<Rightarrow> any option"
  and dec_anys :: "json list \<Rightarrow> any list option"
  and dec_any_members :: "(bytes \<times> json) list \<Rightarrow> (bytes \<times> any) list \<Rightarrow> (bytes \<times> any) list option"
where
  "dec_any JNull = Some AnyNil"
| "dec_any (JBool b) = Some (AnyBool b)"
| "dec_any (JNum lit) = map_option AnyFloat (dec_float lit)"
| "dec_any (JStr s) = Some (AnyString s)"
| "dec_any (JArr js) = map_option AnySlice (dec_anys js)"
| "dec_any (JObj kvs) = map_option AnyMap (dec_any_members kvs [])"
| "dec_anys [] = Some []"
| "dec_anys (j # js) = (case dec_any j of None \<Rightarrow> None | Some x \<Rightarrow> map_option (\<lambda>xs. x # xs) (dec_anys js))"
| "dec_any_members [] m = Some m"
| "dec_any_members ((k, j) # kvs) m = (case dec_any j of None \<Rightarrow> None
     | Some x \<Rightarrow> dec_any_members kvs (AList.update k x m))"

definition any_field :: "(any \<Rightarrow> 's \<Rightarrow> 's) \<Rightarrow> 's \<Rightarrow> json \<Rightarrow> 's option" where
  "any_field upd s j = map_option (\<lambda>x. upd x s) (dec_any j)"

section \<open>Unmarshal and Decode\<close>

definition Unmarshal :: "(json \<Rightarrow> 'a \<Rightarrow> 'a option) \<Rightarrow> 'a \<Rightarrow> bytes \<Rightarrow> (json_error, 'a) result" where
  "Unmarshal dec zero data = (case json_parse data of
     None \<Rightarrow> Inl SyntaxError
   | Some j \<Rightarrow> (case dec j zero of None \<Rightarrow> Inl TypeError | Some v \<Rightarrow> Inr v))"

text \<open>One step of a streaming decoder: the value read and the unread input.\<close>

definition Decode :: "(json \<Rightarrow> 'a \<Rightarrow> 'a option) \<Rightarrow> 'a \<Rightarrow> bytes \<Rightarrow> (json_error, 'a \<times> bytes) result" where
  "Decode dec zero s = (case json_prefix s of
     Parsed j r \<Rightarrow> (case dec j zero of None \<Rightarrow> Inl TypeError | Some v \<Rightarrow> Inr (v, r))
   | _ \<Rightarrow> Inl SyntaxError)"

lemma Decode_consumes: "Decode dec zero s = Inr (v, r) \<Longrightarrow> length r < length s"
  by (auto simp: Decode_def split: parsed.splits option.splits dest: json_prefix_consumes)

text \<open>JSON text in the proofs below is written with a backquote for the double quote.\<close>

definition quoted :: "bytes \<Rightarrow> bytes" where
  "quoted s = map (\<lambda>c. if c = CHR 0x60 then CHR 0x22 else c) s"

end
