(* ===== verification/Golden_Vectors.thy ===== *)
theory Golden_Vectors
  imports Hashing Go_Decode
begin

text \<open>
  The vectors of \<open>testdata/golden_vectors.json\<close>, each evaluated in the kernel through the
  bit-level SHA-256. Every entry is checked as \<open>TestGoldenVectors\<close> checks it: the key is a
  string, the count is 1024.
\<close>

definition golden_vectors :: "(bytes \<times> int \<times> int) list" where
  "golden_vectors =
    [(''1'', 1024, 225), (''42'', 1024, 653), (''tenant-abc'', 1024, 330),
     (''9223372036854775807'', 1024, 703), (''0'', 1024, 824), (''1000000'', 1024, 337),
     (''merchant-9F3A'', 1024, 375), (''wallet-000123'', 1024, 456)]"

lemma BucketFor_1024: "BucketFor (AnyString s) 1024 = int (hash64 s mod 1024)"
  by (simp add: BucketFor_hash64 in_range_def zmod_int)

lemma golden_1: "hash64 ''1'' mod 1024 = 225"
  by (simp add: hash64_eval)

lemma golden_42: "hash64 ''42'' mod 1024 = 653"
  by (simp add: hash64_eval)

lemma golden_tenant: "hash64 ''tenant-abc'' mod 1024 = 330"
  by (simp add: hash64_eval)

lemma golden_max_int64: "hash64 ''9223372036854775807'' mod 1024 = 703"
  by (simp add: hash64_eval)

lemma golden_0: "hash64 ''0'' mod 1024 = 824"
  by (simp add: hash64_eval)

lemma golden_million: "hash64 ''1000000'' mod 1024 = 337"
  by (simp add: hash64_eval)

lemma golden_merchant: "hash64 ''merchant-9F3A'' mod 1024 = 375"
  by (simp add: hash64_eval)

lemma golden_wallet: "hash64 ''wallet-000123'' mod 1024 = 456"
  by (simp add: hash64_eval)

lemmas golden_hashes =
  golden_1 golden_42 golden_tenant golden_max_int64 golden_0 golden_million golden_merchant golden_wallet

text \<open>The text a million prints as when it arrives as a JSON number.\<close>

lemma hash_1e06: "hash64 ''1e+06'' mod 1024 = 21"
  by (simp add: hash64_eval)


section \<open>The frozen hash\<close>


text \<open>
  the same business key lands in different buckets depending on how the request spells it.
  The key one million is hashed as its decimal digits when it is a string or an integer, but a
  number in the JSON body of a query becomes a \<open>float64\<close> and is hashed as \<open>1e+06\<close>.
\<close>

theorem json_number_key_diverges:
  "map_option (\<lambda>k. BucketFor k 1024) (dec_any (JNum ''1000000'')) = Some 21 \<and>
   BucketFor (AnyString ''1000000'') 1024 = 337 \<and> BucketFor (AnyInt 1000000) 1024 = 337"
proof -
  have float: "fmt_v (AnyFloat (the (dec_float ''1000000''))) = ''1e+06''"
    and any: "dec_any (JNum ''1000000'') = Some (AnyFloat (the (dec_float ''1000000'')))"
    and int: "fmt_v (AnyInt 1000000) = ''1000000''"
    by code_simp+
  have fmt: "BucketFor k 1024 = int (hash64 (fmt_v k) mod 1024)" for k
    by (simp add: BucketFor_hash64 in_range_def zmod_int)
  show ?thesis
    unfolding fmt any option.map(2) float int by (simp add: hash_1e06 golden_million)
qed

end
