(* ===== verification/Model.thy ===== *)
theory Model
  imports Go_Strconv
begin

text \<open>
  \<open>internal/model/types.go\<close>: the plain data of the shard registry. Statuses, migration
  states and consistency levels are Go string types, so any text can occur in them; the
  named values are constants.
\<close>

section \<open>Shards\<close>

type_synonym ShardStatus = bytes

definition ShardActive :: ShardStatus where "ShardActive = ''ACTIVE''"
definition ShardMaintenance :: ShardStatus where "ShardMaintenance = ''MAINTENANCE''"
definition ShardDraining :: ShardStatus where "ShardDraining = ''DRAINING''"
definition ShardRetired :: ShardStatus where "ShardRetired = ''RETIRED''"

record Endpoint =
  Host :: bytes
  Port :: int
  Database :: bytes

definition Endpoint_String :: "Endpoint \<Rightarrow> bytes" where
  "Endpoint_String e = Host e @ '':'' @ fmt_int (Port e) @ ''/'' @ Database e"

definition Endpoint_empty :: "Endpoint \<Rightarrow> bool" where
  "Endpoint_empty e \<longleftrightarrow> Host e = []"

text \<open>\<open>Reader\<close> is a pointer in the code: \<open>None\<close> is nil.\<close>

record ShardDef =
  ShardID :: bytes
  Status :: ShardStatus
  Writer :: Endpoint
  Reader :: "Endpoint option"
  CredentialRef :: bytes
  Region :: bytes

section \<open>Buckets and migration states\<close>

type_synonym MigrationState = bytes

definition StateActiveSource :: MigrationState where "StateActiveSource = ''ACTIVE_SOURCE''"
definition StateCopying :: MigrationState where "StateCopying = ''COPYING''"
definition StateDualWrite :: MigrationState where "StateDualWrite = ''DUAL_WRITE''"
definition StateCDCCatchup :: MigrationState where "StateCDCCatchup = ''CDC_CATCHUP''"
definition StateVerifying :: MigrationState where "StateVerifying = ''VERIFYING''"
definition StateCutover :: MigrationState where "StateCutover = ''CUTOVER''"
definition StateDrainingSrc :: MigrationState where "StateDrainingSrc = ''DRAINING_SOURCE''"
definition StateActiveDest :: MigrationState where "StateActiveDest = ''ACTIVE_DEST''"

lemmas state_defs = StateActiveSource_def StateCopying_def StateDualWrite_def StateCDCCatchup_def
  StateVerifying_def StateCutover_def StateDrainingSrc_def StateActiveDest_def

record BucketDef =
  BucketID :: int
  SourceShardID :: bytes
  DestShardID :: bytes
  State :: MigrationState
  MappingVersion :: int

section \<open>Read consistency\<close>

type_synonym ReadConsistency = bytes

definition ReadStrong :: ReadConsistency where "ReadStrong = ''STRONG''"
definition ReadYourWrites :: ReadConsistency where "ReadYourWrites = ''READ_YOUR_WRITES''"
definition ReadEventual :: ReadConsistency where "ReadEventual = ''EVENTUAL''"

lemmas consistency_defs = ReadStrong_def ReadYourWrites_def ReadEventual_def

definition ParseReadConsistency :: "bytes \<Rightarrow> ReadConsistency" where
  "ParseReadConsistency s =
     (if s = ReadYourWrites then ReadYourWrites
      else if s = ReadEventual then ReadEventual
      else ReadStrong)"

lemma ParseReadConsistency_idem: "ParseReadConsistency (ParseReadConsistency s) = ParseReadConsistency s"
  by (auto simp: ParseReadConsistency_def)

lemma ParseReadConsistency_eventual: "ParseReadConsistency s = ReadEventual \<longleftrightarrow> s = ReadEventual"
  by (auto simp: ParseReadConsistency_def consistency_defs)

section \<open>Endpoints as text\<close>

lemma append_sep_eq:
  assumes "c \<notin> set xs" and "c \<notin> set xs'"
  shows "xs @ c # ys = xs' @ c # ys' \<longleftrightarrow> xs = xs' \<and> ys = ys'"
  using assms
proof (induction xs arbitrary: xs')
  case Nil
  then show ?case by (cases xs') auto
next
  case (Cons x xs)
  then show ?case by (cases xs') auto
qed

lemma append_sep_eq_last:
  assumes "c \<notin> set ys" and "c \<notin> set ys'"
  shows "xs @ c # ys = xs' @ c # ys' \<longleftrightarrow> xs = xs' \<and> ys = ys'"
proof -
  have "xs @ c # ys = xs' @ c # ys' \<longleftrightarrow> rev ys @ c # rev xs = rev ys' @ c # rev xs'"
    by (metis append.assoc append_Cons append_Nil rev_append rev_is_rev_conv rev_singleton_conv)
  also have "\<dots> \<longleftrightarrow> xs = xs' \<and> ys = ys'"
    using append_sep_eq [of c "rev ys" "rev ys'"] assms by auto
  finally show ?thesis .
qed

lemma fmt_int_no_sep: "CHR ''/'' \<notin> set (fmt_int i)" "CHR '':'' \<notin> set (fmt_int i)"
  using fmt_int_chars [of _ i] by force+

text \<open>The text of an endpoint determines it as long as host names contain no slash.\<close>

lemma Endpoint_String_inj:
  assumes "CHR ''/'' \<notin> set (Host e)" and "CHR ''/'' \<notin> set (Host e')"
  shows "Endpoint_String e = Endpoint_String e' \<longleftrightarrow> e = e'"
proof -
  have "Endpoint_String e = Endpoint_String e' \<longleftrightarrow>
      Host e @ CHR '':'' # fmt_int (Port e) = Host e' @ CHR '':'' # fmt_int (Port e') \<and>
      Database e = Database e'"
    using append_sep_eq [of "CHR ''/''" "Host e @ CHR '':'' # fmt_int (Port e)"
        "Host e' @ CHR '':'' # fmt_int (Port e')" "Database e" "Database e'"] assms fmt_int_no_sep
    by (simp add: Endpoint_String_def)
  also have "\<dots> \<longleftrightarrow> e = e'"
    by (auto simp: append_sep_eq_last fmt_int_no_sep)
  finally show ?thesis .
qed

end
