(* ===== verification/Cache.thy ===== *)
theory Cache
  imports Model
begin

text \<open>
  \<open>internal/cache/mapping.go\<close>: the snapshot of the shard map and the atomically swapped
  store that holds it. A snapshot is immutable once stored, so the pointer held by the
  store is modelled by the snapshot it points to. The locale \<open>snapshot_store\<close> is what
  the registries and the router rely on.
\<close>

record Mapping =
  Revision :: int
  Shards :: "bytes \<rightharpoonup> ShardDef"
  Buckets :: "int \<rightharpoonup> BucketDef"

text \<open>
  \<open>Clone\<close> allocates new maps and copies every entry, in the iteration order of the built-in
  maps, which is unspecified: \<open>ks\<close> and \<open>bs\<close> are the keys in that order.
\<close>

definition copy_entries :: "'k list \<Rightarrow> ('k \<rightharpoonup> 'v) \<Rightarrow> ('k \<rightharpoonup> 'v)" where
  "copy_entries ks m = fold (\<lambda>k out. out(k := m k)) ks Map.empty"

definition Clone :: "bytes list \<Rightarrow> int list \<Rightarrow> Mapping \<Rightarrow> Mapping" where
  "Clone ks bs m = \<lparr>Revision = Revision m,
     Shards = copy_entries ks (Shards m), Buckets = copy_entries bs (Buckets m)\<rparr>"

lemma fold_copy: "fold (\<lambda>k out. out(k := m k)) ks out x = (if x \<in> set ks then m x else out x)"
  by (induction ks arbitrary: out) auto

lemma copy_entries_all: "set ks = dom m \<Longrightarrow> copy_entries ks m = m"
  by (auto simp: copy_entries_def fold_copy fun_eq_iff dom_def)

section \<open>The store\<close>

type_synonym Store = "Mapping option"

definition NewStore :: Store where
  "NewStore = None"

definition Load :: "Store \<Rightarrow> Mapping option" where
  "Load s = s"

definition Swap :: "Mapping \<Rightarrow> Store \<Rightarrow> Store" where
  "Swap m s = Some m"

definition Ready :: "Store \<Rightarrow> bool" where
  "Ready s \<longleftrightarrow> s \<noteq> None"

locale snapshot_store =
  fixes new :: 's and load :: "'s \<Rightarrow> 'm option" and swap :: "'m \<Rightarrow> 's \<Rightarrow> 's" and ready :: "'s \<Rightarrow> bool"
  assumes load_new: "load new = None"
    and load_swap: "load (swap m s) = Some m"
    and ready_iff: "ready s \<longleftrightarrow> load s \<noteq> None"
begin

lemma not_ready_new: "\<not> ready new"
  by (simp add: ready_iff load_new)

lemma ready_swap: "ready (swap m s)"
  by (simp add: ready_iff load_swap)

lemma load_swaps: "ms \<noteq> [] \<Longrightarrow> load (fold swap ms s) = Some (last ms)"
  by (induction ms rule: rev_induct) (simp_all add: load_swap)

lemma ready_swaps: "ready s \<Longrightarrow> ready (fold swap ms s)"
  by (cases "ms = []") (simp_all add: ready_iff load_swaps)

end

interpretation store: snapshot_store NewStore Load Swap Ready
  by unfold_locales (simp_all add: NewStore_def Load_def Swap_def Ready_def)

section \<open>Well-formed snapshots\<close>

text \<open>Every bucket record carries the number it is filed under, and both maps are finite.\<close>

definition wf_mapping :: "Mapping \<Rightarrow> bool" where
  "wf_mapping m \<longleftrightarrow> finite (dom (Shards m)) \<and> finite (dom (Buckets m)) \<and>
     (\<forall>i b. Buckets m i = Some b \<longrightarrow> BucketID b = i)"

lemma Clone_eq:
  assumes "set ks = dom (Shards m)" and "set bs = dom (Buckets m)"
  shows "Clone ks bs m = m"
  using assms by (simp add: Clone_def copy_entries_all)

end
