(* ===== verification/Router.thy ===== *)
theory Router
  imports Cache Hashing
begin

text \<open>
  \<open>internal/router/router.go\<close>: from a shard key to the shards that serve it. \<open>Resolve\<close> is
  translated branch by branch; the abstract specification \<open>route_of\<close> is the read/write
  table of the README, and \<open>Resolve\<close> is shown to implement it.
\<close>

datatype router_error =
    ErrNoMapping
  | ErrShardUnavailable bytes
  | ErrUnknownBucket int
  | ErrUnknownShard bytes int

record Resolved =
  ResBucketID :: int
  ReadShard :: ShardDef
  WriteShards :: "ShardDef list"
  ResMigrationState :: MigrationState

text \<open>Indexing an empty slice panics; \<open>None\<close> is that panic.\<close>

definition PrimaryWriteShard :: "Resolved \<Rightarrow> ShardDef option" where
  "PrimaryWriteShard r = (case WriteShards r of [] \<Rightarrow> None | s # _ \<Rightarrow> Some s)"

definition ReadEndpoint :: "Resolved \<Rightarrow> ReadConsistency \<Rightarrow> Endpoint" where
  "ReadEndpoint r consistency =
     (if consistency = ReadEventual
      then (case Reader (ReadShard r) of Some e \<Rightarrow> e | None \<Rightarrow> Writer (ReadShard r))
      else Writer (ReadShard r))"

text \<open>A router holds a reference to the store and a bucket count. The store is passed to
  \<open>Resolve\<close> with the content it has when it is loaded.\<close>

record Router =
  bucketCount :: int

definition New :: "int \<Rightarrow> Router" where
  "New n = \<lparr>bucketCount = (if n \<le> 0 then DefaultBucketCount else n)\<rparr>"

definition BucketCount :: "Router \<Rightarrow> int" where
  "BucketCount r = bucketCount r"

section \<open>Resolve\<close>

text \<open>The switch on the migration state: the result so far, or the early error return.\<close>

definition migrate :: "Mapping \<Rightarrow> BucketDef \<Rightarrow> int \<Rightarrow> Resolved \<Rightarrow> (router_error, Resolved) result" where
  "migrate m bucket bucketID res =
     (if State bucket \<in> {StateDualWrite, StateCDCCatchup, StateVerifying} then
        (case Shards m (DestShardID bucket) of
           Some dest \<Rightarrow> Inr (res\<lparr>WriteShards := WriteShards res @ [dest]\<rparr>)
         | None \<Rightarrow> Inr res)
      else if State bucket \<in> {StateCutover, StateDrainingSrc, StateActiveDest} then
        (case Shards m (DestShardID bucket) of
           Some dest \<Rightarrow> Inr (res\<lparr>ReadShard := dest, WriteShards := [dest]\<rparr>)
         | None \<Rightarrow> Inl (ErrUnknownShard (DestShardID bucket) bucketID))
      else Inr res)"

text \<open>The availability loop over the write shards, then the read shard.\<close>

definition check_available :: "Resolved \<Rightarrow> (router_error, Resolved) result" where
  "check_available res =
     (case find (\<lambda>ws. Status ws \<noteq> ShardActive) (WriteShards res) of
        Some ws \<Rightarrow> Inl (ErrShardUnavailable (ShardID ws))
      | None \<Rightarrow> if Status (ReadShard res) \<noteq> ShardActive
                then Inl (ErrShardUnavailable (ShardID (ReadShard res)))
                else Inr res)"

definition Resolve :: "Router \<Rightarrow> Store \<Rightarrow> any \<Rightarrow> (router_error, Resolved) result" where
  "Resolve r store shardKey =
     (case Load store of
        None \<Rightarrow> Inl ErrNoMapping
      | Some m \<Rightarrow>
          let bucketID = BucketFor shardKey (bucketCount r) in
          case Buckets m bucketID of
            None \<Rightarrow> Inl (ErrUnknownBucket bucketID)
          | Some bucket \<Rightarrow>
              (case Shards m (SourceShardID bucket) of
                 None \<Rightarrow> Inl (ErrUnknownShard (SourceShardID bucket) bucketID)
               | Some source \<Rightarrow>
                   let res = \<lparr>ResBucketID = bucketID, ReadShard = source, WriteShards = [source],
                              ResMigrationState = State bucket\<rparr>
                   in case migrate m bucket bucketID res of
                        Inl e \<Rightarrow> Inl e
                      | Inr res' \<Rightarrow> check_available res'))"

lemmas resolve_defs = Resolve_def migrate_def check_available_def Load_def Let_def

section \<open>The routing table as a specification\<close>

datatype route = SourceOnly | SourceAndDest | DestOnly

text \<open>The table of the README; a state it does not name is that of a bucket at rest.\<close>

definition route_of :: "MigrationState \<Rightarrow> route" where
  "route_of s =
     (if s \<in> {''DUAL_WRITE'', ''CDC_CATCHUP'', ''VERIFYING''} then SourceAndDest
      else if s \<in> {''CUTOVER'', ''DRAINING_SOURCE'', ''ACTIVE_DEST''} then DestOnly
      else SourceOnly)"

fun route_shards :: "route \<Rightarrow> ShardDef \<Rightarrow> ShardDef option \<Rightarrow> (ShardDef \<times> ShardDef list) option" where
  "route_shards SourceOnly src dest = Some (src, [src])"
| "route_shards SourceAndDest src None = Some (src, [src])"
| "route_shards SourceAndDest src (Some d) = Some (src, [src, d])"
| "route_shards DestOnly src None = None"
| "route_shards DestOnly src (Some d) = Some (d, [d])"

definition active :: "ShardDef \<Rightarrow> bool" where
  "active s \<longleftrightarrow> Status s = ''ACTIVE''"

definition resolve_spec :: "Mapping \<Rightarrow> int \<Rightarrow> Resolved option" where
  "resolve_spec m i =
     (case Buckets m i of None \<Rightarrow> None | Some b \<Rightarrow>
      case Shards m (SourceShardID b) of None \<Rightarrow> None | Some src \<Rightarrow>
      case route_shards (route_of (State b)) src (Shards m (DestShardID b)) of None \<Rightarrow> None
      | Some (rd, wrs) \<Rightarrow>
          if active rd \<and> list_all active wrs
          then Some \<lparr>ResBucketID = i, ReadShard = rd, WriteShards = wrs, ResMigrationState = State b\<rparr>
          else None)"

lemma Status_active: "Status s = ShardActive \<longleftrightarrow> active s"
  by (simp add: active_def ShardActive_def)

lemma check_available_ok: "check_available res = Inr res' \<longleftrightarrow>
    res' = res \<and> active (ReadShard res) \<and> list_all active (WriteShards res)"
  by (auto simp: check_available_def Status_active find_None_iff find_Some_iff list_all_iff split: option.splits)

lemma check_available_error: "check_available res = Inl e \<Longrightarrow>
    \<exists>s. e = ErrShardUnavailable (ShardID s) \<and> \<not> active s \<and> s \<in> set (ReadShard res # WriteShards res)"
  by (auto simp: check_available_def Status_active find_Some_iff split: option.splits if_splits)

lemma migrate_route:
  "migrate m b i \<lparr>ResBucketID = i, ReadShard = src, WriteShards = [src], ResMigrationState = st\<rparr> =
    (case route_shards (route_of (State b)) src (Shards m (DestShardID b)) of
       None \<Rightarrow> Inl (ErrUnknownShard (DestShardID b) i)
     | Some (rd, wrs) \<Rightarrow> Inr \<lparr>ResBucketID = i, ReadShard = rd, WriteShards = wrs, ResMigrationState = st\<rparr>)"
  by (cases "Shards m (DestShardID b)") (simp_all add: migrate_def route_of_def state_defs)

text \<open>\<open>Resolve\<close> in terms of the table: the form every property of routing is proved from.\<close>

lemma Resolve_route:
  "Resolve r store k =
    (case Load store of None \<Rightarrow> Inl ErrNoMapping | Some m \<Rightarrow>
     let i = BucketFor k (bucketCount r) in
     case Buckets m i of None \<Rightarrow> Inl (ErrUnknownBucket i) | Some b \<Rightarrow>
     (case Shards m (SourceShardID b) of None \<Rightarrow> Inl (ErrUnknownShard (SourceShardID b) i) | Some src \<Rightarrow>
      (case route_shards (route_of (State b)) src (Shards m (DestShardID b)) of
         None \<Rightarrow> Inl (ErrUnknownShard (DestShardID b) i)
       | Some (rd, wrs) \<Rightarrow> check_available
           \<lparr>ResBucketID = i, ReadShard = rd, WriteShards = wrs, ResMigrationState = State b\<rparr>)))"
  by (simp add: Resolve_def Let_def migrate_route split: option.split)

lemma Resolve_refines: "Resolve r (Some m) k = Inr res \<longleftrightarrow> resolve_spec m (BucketFor k (bucketCount r)) = Some res"
  by (auto simp: Resolve_route resolve_spec_def Load_def Let_def check_available_ok split: option.splits)

lemma Resolve_loaded: "Resolve r (Some m) k \<noteq> Inl ErrNoMapping"
  by (auto simp: Resolve_route Load_def Let_def dest!: check_available_error split: option.splits)

lemma route_shards_nonempty: "route_shards rt src d = Some (rd, wrs) \<Longrightarrow> wrs \<noteq> [] \<and> rd = hd wrs"
  by (cases "(rt, src, d)" rule: route_shards.cases) auto

lemma route_shards_members:
  "route_shards rt src d = Some (rd, wrs) \<Longrightarrow> s \<in> set (rd # wrs) \<Longrightarrow> s = src \<or> d = Some s"
  by (cases "(rt, src, d)" rule: route_shards.cases) auto

lemma route_shards_None: "route_shards rt src d = None \<longleftrightarrow> rt = DestOnly \<and> d = None"
  by (cases "(rt, src, d)" rule: route_shards.cases) auto

lemma route_shards_length: "route_shards rt src d = Some (rd, wrs) \<Longrightarrow> length wrs \<le> 2"
  by (cases "(rt, src, d)" rule: route_shards.cases) auto

lemma Resolve_shape:
  assumes "Resolve r store k = Inr res"
  shows "\<exists>rt src d. route_shards rt src d = Some (ReadShard res, WriteShards res) \<and>
    active (ReadShard res) \<and> list_all active (WriteShards res)"
proof -
  obtain m where "store = Some m"
    using assms by (cases store) (simp_all add: Resolve_def Load_def)
  with assms have "resolve_spec m (BucketFor k (bucketCount r)) = Some res"
    by (simp add: Resolve_refines)
  then show ?thesis
    by (auto simp: resolve_spec_def split: option.splits prod.splits if_splits) blast
qed

lemma Resolve_primary: "Resolve r store k = Inr res \<Longrightarrow> PrimaryWriteShard res = Some (ReadShard res)"
  by (auto simp: PrimaryWriteShard_def split: list.splits dest!: Resolve_shape route_shards_nonempty)

section \<open>Healthy maps and the order of migration states\<close>

definition healthy_bucket :: "Mapping \<Rightarrow> int \<Rightarrow> bool" where
  "healthy_bucket m i \<longleftrightarrow> (case Buckets m i of None \<Rightarrow> False | Some b \<Rightarrow>
     (case Shards m (SourceShardID b) of None \<Rightarrow> False | Some src \<Rightarrow> active src) \<and>
     (route_of (State b) = SourceOnly \<or>
      (case Shards m (DestShardID b) of None \<Rightarrow> False | Some d \<Rightarrow> active d)))"

lemma healthy_bucket_spec:
  assumes "healthy_bucket m i"
  shows "\<exists>res. resolve_spec m i = Some res \<and> ResBucketID res = i"
proof -
  obtain b src where b: "Buckets m i = Some b" and src: "Shards m (SourceShardID b) = Some src" "active src"
    using assms by (auto simp: healthy_bucket_def split: option.splits)
  show ?thesis
  proof (cases "route_of (State b) = SourceOnly")
    case True
    with b src show ?thesis by (simp add: resolve_spec_def)
  next
    case False
    with assms b obtain d where d: "Shards m (DestShardID b) = Some d" "active d"
      by (auto simp: healthy_bucket_def split: option.splits)
    with b src False show ?thesis
      by (cases "route_of (State b)") (simp_all add: resolve_spec_def)
  qed
qed

text \<open>The states in the order the code declares them, which is the order a migration visits them.\<close>

definition migration_states :: "MigrationState list" where
  "migration_states = [StateActiveSource, StateCopying, StateDualWrite, StateCDCCatchup,
     StateVerifying, StateCutover, StateDrainingSrc, StateActiveDest]"

definition set_state :: "Mapping \<Rightarrow> int \<Rightarrow> MigrationState \<Rightarrow> Mapping" where
  "set_state m i st = m\<lparr>Buckets := (Buckets m)(i := map_option (\<lambda>b. b\<lparr>State := st\<rparr>) (Buckets m i))\<rparr>"

lemma Resolve_set_state:
  assumes "Resolve r (Some (set_state m (BucketFor k (bucketCount r)) st)) k = Inr res"
    and "Buckets m (BucketFor k (bucketCount r)) = Some b"
  shows "\<exists>src. Shards m (SourceShardID b) = Some src \<and>
    route_shards (route_of st) src (Shards m (DestShardID b)) = Some (ReadShard res, WriteShards res)"
  using assms unfolding Resolve_refines resolve_spec_def set_state_def
  by (auto split: option.splits if_splits)

text \<open>Between consecutive states the route stays, adds the destination, or drops the source.\<close>

lemma consecutive_routes:
  assumes "Suc j < length migration_states"
  shows "(route_of (migration_states ! j), route_of (migration_states ! Suc j)) \<in>
    {(SourceOnly, SourceOnly), (SourceOnly, SourceAndDest), (SourceAndDest, SourceAndDest),
     (SourceAndDest, DestOnly), (DestOnly, DestOnly)}"
proof -
  have "j \<in> {0, 1, 2, 3, 4, 5, 6}"
    using assms by (auto simp: migration_states_def)
  then show ?thesis
    by (elim insertE emptyE) (simp_all add: migration_states_def state_defs route_of_def)
qed

lemma handover_routes:
  assumes "(rt, rt') \<in> {(SourceOnly, SourceOnly), (SourceOnly, SourceAndDest), (SourceAndDest, SourceAndDest),
     (SourceAndDest, DestOnly), (DestOnly, DestOnly)}"
    and "route_shards rt src (Some d) = Some (rd, wrs)" and "route_shards rt' src (Some d) = Some (rd', wrs')"
  shows "rd' \<in> set wrs"
  using assms by auto

section \<open>Fixtures\<close>

text \<open>The shards and the migrating bucket of \<open>router_test.go\<close>. With a single bucket every key
  hashes to bucket 0, so witnesses need no digest.\<close>

definition test_shard :: "bytes \<Rightarrow> ShardStatus \<Rightarrow> ShardDef" where
  "test_shard sid status = \<lparr>ShardID = sid, Status = status,
     Writer = \<lparr>Host = ''pg-'' @ sid @ ''-rw.internal'', Port = 6432, Database = ''payment''\<rparr>,
     Reader = Some \<lparr>Host = ''pg-'' @ sid @ ''-ro.internal'', Port = 6432, Database = ''payment''\<rparr>,
     CredentialRef = [], Region = []\<rparr>"

definition test_bucket :: "MigrationState \<Rightarrow> BucketDef" where
  "test_bucket st = \<lparr>BucketID = 0, SourceShardID = ''shard-01'', DestShardID = ''shard-05'',
     State = st, MappingVersion = 0\<rparr>"

definition test_mapping :: "ShardStatus \<Rightarrow> ShardStatus \<Rightarrow> MigrationState \<Rightarrow> Mapping" where
  "test_mapping src dst st = \<lparr>Revision = 1,
     Shards = [''shard-01'' \<mapsto> test_shard ''shard-01'' src, ''shard-05'' \<mapsto> test_shard ''shard-05'' dst],
     Buckets = [0 \<mapsto> test_bucket st]\<rparr>"

lemma BucketFor_one [simp]: "BucketFor k 1 = 0"
  by (simp add: BucketFor_hash64 in_range_def)

lemma bucketCount_New [simp]: "bucketCount (New n) = effective_count n"
  by (simp add: New_def effective_count_def)

lemma effective_count_1 [simp]: "effective_count 1 = 1"
  by (simp add: effective_count_def)

lemmas fixture_defs = test_shard_def test_bucket_def test_mapping_def Resolve_route Load_def
  check_available_def route_of_def ShardActive_def

section \<open>Properties of routing\<close>


text \<open>
  a successful \<open>Resolve\<close> never names a shard that is not ACTIVE; it names one or two
  write shards, so \<open>PrimaryWriteShard\<close> does not panic, and the primary write shard is the
  shard that serves reads, so a STRONG read goes where the write it follows went.
\<close>

theorem resolve_safe:
  assumes "Resolve r store k = Inr res"
  shows "active (ReadShard res) \<and> list_all active (WriteShards res) \<and>
    PrimaryWriteShard res = Some (ReadShard res) \<and> length (WriteShards res) \<in> {1, 2}"
proof -
  obtain rt src d where rt: "route_shards rt src d = Some (ReadShard res, WriteShards res)"
      and act: "active (ReadShard res)" "list_all active (WriteShards res)"
    using Resolve_shape [OF assms] by blast
  have "length (WriteShards res) \<in> {1, 2}"
    using route_shards_nonempty [OF rt] route_shards_length [OF rt]
    by (cases "WriteShards res") (auto simp: le_Suc_eq numeral_2_eq_2)
  with act Resolve_primary [OF assms] show ?thesis by blast
qed

theorem resolve_safe_witness:
  "\<exists>res. Resolve (New 1) (Some (test_mapping ''ACTIVE'' ''ACTIVE'' ''DUAL_WRITE'')) (AnyString ''tenant-1'') = Inr res \<and>
    PrimaryWriteShard res = Some (test_shard ''shard-01'' ''ACTIVE'') \<and> length (WriteShards res) \<in> {1, 2}"
proof -
  obtain res where res: "Resolve (New 1) (Some (test_mapping ''ACTIVE'' ''ACTIVE'' ''DUAL_WRITE'')) (AnyString ''tenant-1'') = Inr res"
    and rd: "ReadShard res = test_shard ''shard-01'' ''ACTIVE''"
    by (simp add: fixture_defs)
  then show ?thesis using resolve_safe [OF res] by auto
qed

text \<open>
  every error of \<open>Resolve\<close> on a loaded map says what is wrong with the map. An unknown
  bucket is a bucket with no assignment; an unknown shard is the bucket's source, or its
  destination in a state that routes to the destination only; a shard reported unavailable
  is registered under the bucket's source or destination and is not ACTIVE.
\<close>

theorem resolve_errors:
  assumes "Resolve r (Some m) k = Inl e"
  defines "i \<equiv> BucketFor k (bucketCount r)"
  shows "(Buckets m i = None \<and> e = ErrUnknownBucket i) \<or>
    (\<exists>b. Buckets m i = Some b \<and>
      ((Shards m (SourceShardID b) = None \<and> e = ErrUnknownShard (SourceShardID b) i) \<or>
       (route_of (State b) = DestOnly \<and> Shards m (DestShardID b) = None \<and>
          e = ErrUnknownShard (DestShardID b) i) \<or>
       (\<exists>s sid. sid \<in> {SourceShardID b, DestShardID b} \<and> Shards m sid = Some s \<and> \<not> active s \<and>
          e = ErrShardUnavailable (ShardID s))))"
proof (cases "Buckets m i")
  case None
  with assms show ?thesis by (simp add: Resolve_route Load_def)
next
  case b: (Some b)
  show ?thesis
  proof (cases "Shards m (SourceShardID b)")
    case None
    with b assms show ?thesis by (simp add: Resolve_route Load_def)
  next
    case src: (Some src)
    show ?thesis
    proof (cases "route_shards (route_of (State b)) src (Shards m (DestShardID b))")
      case None
      with src b assms show ?thesis by (simp add: Resolve_route Load_def route_shards_None)
    next
      case (Some p)
      then obtain rd wrs where p: "route_shards (route_of (State b)) src (Shards m (DestShardID b)) = Some (rd, wrs)"
        by (cases p) simp
      with src b assms
      have "check_available \<lparr>ResBucketID = i, ReadShard = rd, WriteShards = wrs, ResMigrationState = State b\<rparr> = Inl e"
        by (simp add: Resolve_route Load_def)
      then obtain s where s: "e = ErrShardUnavailable (ShardID s)" "\<not> active s" "s \<in> set (rd # wrs)"
        using check_available_error by fastforce
      from route_shards_members [OF p s(3)] s(1,2) src b show ?thesis by blast
    qed
  qed
qed

theorem resolve_errors_witness:
  "\<exists>e. Resolve (New 1) (Some (test_mapping ''DRAINING'' ''ACTIVE'' ''DUAL_WRITE'')) (AnyString ''tenant-1'') = Inl e \<and>
    e = ErrShardUnavailable ''shard-01''"
proof -
  let ?m = "test_mapping ''DRAINING'' ''ACTIVE'' ''DUAL_WRITE''"
  have "Resolve (New 1) (Some ?m) (AnyString ''tenant-1'') = Inl (ErrShardUnavailable ''shard-01'')"
    by (simp add: fixture_defs)
  from this resolve_errors [OF this] show ?thesis by blast
qed

text \<open>
  the unsafe cutover guard. Once a bucket is in CUTOVER, DRAINING_SOURCE or ACTIVE_DEST
  and its destination is not registered, resolution fails with the destination's name: it
  neither falls back to the source nor succeeds with an empty write set.
\<close>

theorem cutover_without_destination_fails:
  assumes "Buckets m (BucketFor k (bucketCount r)) = Some b"
    and "State b \<in> {StateCutover, StateDrainingSrc, StateActiveDest}"
    and "Shards m (SourceShardID b) = Some src" and "Shards m (DestShardID b) = None"
  shows "Resolve r (Some m) k = Inl (ErrUnknownShard (DestShardID b) (BucketFor k (bucketCount r)))"
  using assms by (auto simp: Resolve_def migrate_def Load_def state_defs)

theorem cutover_without_destination_fails_witness:
  "Resolve (New 1) (Some ((test_mapping ''ACTIVE'' ''ACTIVE'' ''CUTOVER'')
       \<lparr>Shards := [''shard-01'' \<mapsto> test_shard ''shard-01'' ''ACTIVE'']\<rparr>)) (AnyString ''tenant-1'') =
    Inl (ErrUnknownShard ''shard-05'' 0)"
  using cutover_without_destination_fails
    [of "(test_mapping ''ACTIVE'' ''ACTIVE'' ''CUTOVER'')\<lparr>Shards := [''shard-01'' \<mapsto> test_shard ''shard-01'' ''ACTIVE'']\<rparr>"
      "AnyString ''tenant-1''" "New 1" "test_bucket ''CUTOVER''" "test_shard ''shard-01'' ''ACTIVE''"]
  by (simp add: test_mapping_def test_bucket_def state_defs)

lemma Resolve_total:
  assumes "in_int64 n" and "\<forall>i\<in>{0..<effective_count n}. healthy_bucket m i"
  shows "\<exists>res. Resolve (New n) (Some m) k = Inr res \<and> ResBucketID res \<in> {0..<effective_count n}"
proof -
  let ?i = "BucketFor k (effective_count n)"
  have i: "?i \<in> {0..<effective_count n}"
    using assms(1) by (intro bucket.hash_bucket effective_count_pos effective_count_int64)
  with assms(2) obtain res where "resolve_spec m ?i = Some res" "ResBucketID res = ?i"
    using healthy_bucket_spec by blast
  with i show ?thesis by (auto simp: Resolve_refines)
qed

text \<open>
  a complete map serves every key. If each bucket below the configured count is
  assigned to a registered ACTIVE source, with a registered ACTIVE destination wherever the
  migration state uses one, then \<open>Resolve\<close> succeeds for every key, whatever it hashes to,
  and the bucket it reports is one of the configured buckets.
\<close>

theorem resolve_total:
  assumes "in_int64 n" and "\<forall>i\<in>{0..<effective_count n}. healthy_bucket m i"
  shows "\<exists>res. Resolve (New n) (Some m) k = Inr res \<and> ResBucketID res \<in> {0..<effective_count n}"
  using assms by (rule Resolve_total)

theorem resolve_total_witness:
  "\<exists>res. Resolve (New 1) (Some (test_mapping ''ACTIVE'' ''ACTIVE'' ''VERIFYING'')) (AnyBool True) = Inr res \<and>
    ResBucketID res \<in> {0..<1}"
  using resolve_total [of 1 "test_mapping ''ACTIVE'' ''ACTIVE'' ''VERIFYING''" "AnyBool True"]
  by (simp add: healthy_bucket_def fixture_defs in_range_def active_def)

text \<open>
  routing depends on nothing but the text of the key, its bucket and the shards that
  bucket names. Two keys that print alike are routed alike, and a change of the map that
  leaves that bucket and its two shards alone does not affect the decision.
\<close>

theorem resolve_local:
  assumes "fmt_v k = fmt_v k'"
    and "Buckets m (BucketFor k (bucketCount r)) = Buckets m' (BucketFor k (bucketCount r))"
    and "\<forall>b. Buckets m (BucketFor k (bucketCount r)) = Some b \<longrightarrow>
           Shards m (SourceShardID b) = Shards m' (SourceShardID b) \<and>
           Shards m (DestShardID b) = Shards m' (DestShardID b)"
  shows "Resolve r (Some m) k = Resolve r (Some m') k'"
proof -
  have "BucketFor k' (bucketCount r) = BucketFor k (bucketCount r)"
    using assms(1) by (simp add: BucketFor_def)
  with assms(2,3) show ?thesis
    by (auto simp: Resolve_route Load_def Let_def split: option.split)
qed

theorem resolve_local_witness:
  "Resolve (New 1) (Some (test_mapping ''ACTIVE'' ''ACTIVE'' ''COPYING'')) (AnyInt 42) =
    Resolve (New 1) (Some ((test_mapping ''ACTIVE'' ''ACTIVE'' ''COPYING'')\<lparr>Revision := 7\<rparr>)) (AnyString ''42'')"
proof -
  have "fmt_v (AnyInt 42) = fmt_v (AnyString ''42'')" by code_simp
  then show ?thesis by (intro resolve_local) (simp_all add: test_mapping_def)
qed

text \<open>
  no migration step loses writes. While the destination stays registered, at each step
  from one migration state to the next the shard that serves reads after the step was
  receiving the writes before it.
\<close>

theorem migration_handover:
  assumes "Suc j < length migration_states"
    and "Resolve r (Some (set_state m (BucketFor k (bucketCount r)) (migration_states ! j))) k = Inr before"
    and "Resolve r (Some (set_state m (BucketFor k (bucketCount r)) (migration_states ! Suc j))) k = Inr after"
    and "Buckets m (BucketFor k (bucketCount r)) = Some b" and "Shards m (DestShardID b) = Some dest"
  shows "ReadShard after \<in> set (WriteShards before)"
proof -
  obtain src where
      "route_shards (route_of (migration_states ! j)) src (Some dest) = Some (ReadShard before, WriteShards before)"
      "route_shards (route_of (migration_states ! Suc j)) src (Some dest) = Some (ReadShard after, WriteShards after)"
    using Resolve_set_state [OF assms(2,4)] Resolve_set_state [OF assms(3,4)] assms(5) by auto
  from handover_routes [OF consecutive_routes [OF assms(1)] this] show ?thesis .
qed

theorem migration_handover_witness:
  "\<exists>before after.
     Resolve (New 1) (Some (set_state (test_mapping ''ACTIVE'' ''ACTIVE'' []) 0 ''VERIFYING'')) (AnyInt 1) = Inr before \<and>
     Resolve (New 1) (Some (set_state (test_mapping ''ACTIVE'' ''ACTIVE'' []) 0 ''CUTOVER'')) (AnyInt 1) = Inr after \<and>
     ReadShard after = test_shard ''shard-05'' ''ACTIVE'' \<and> ReadShard after \<in> set (WriteShards before)"
proof -
  let ?m = "test_mapping ''ACTIVE'' ''ACTIVE'' []"
  let ?d = "test_shard ''shard-05'' ''ACTIVE''"
  obtain before after where
      b: "Resolve (New 1) (Some (set_state ?m 0 ''VERIFYING'')) (AnyInt 1) = Inr before" and
      a: "Resolve (New 1) (Some (set_state ?m 0 ''CUTOVER'')) (AnyInt 1) = Inr after" "ReadShard after = ?d"
    by (simp add: fixture_defs set_state_def)
  have "ReadShard after \<in> set (WriteShards before)"
    using migration_handover [of 4 "New 1" ?m "AnyInt 1" before after "test_bucket []" ?d] a b
    by (simp add: migration_states_def state_defs test_mapping_def test_bucket_def)
  with a b show ?thesis by blast
qed

text \<open>
  while a bucket is dual-written, both shards must be ACTIVE. A source marked
  MAINTENANCE or DRAINING fails the request although a migration is in flight, and so does a
  registered destination that is not ACTIVE, although its writes are best effort.
\<close>

theorem dual_write_needs_both_active:
  assumes "Buckets m (BucketFor k (bucketCount r)) = Some b"
    and "State b \<in> {StateDualWrite, StateCDCCatchup, StateVerifying}"
    and "Shards m (SourceShardID b) = Some src" and "Shards m (DestShardID b) = Some dest"
    and "Status src \<noteq> ShardActive \<or> Status dest \<noteq> ShardActive"
  shows "Resolve r (Some m) k =
    Inl (ErrShardUnavailable (ShardID (if Status src \<noteq> ShardActive then src else dest)))"
  using assms by (auto simp: Resolve_def Let_def migrate_def check_available_def Load_def state_defs)

theorem dual_write_needs_both_active_witness:
  "Resolve (New 1) (Some (test_mapping ''ACTIVE'' ''MAINTENANCE'' ''DUAL_WRITE'')) (AnyInt 1) =
    Inl (ErrShardUnavailable ''shard-05'')"
  using dual_write_needs_both_active
    [of "test_mapping ''ACTIVE'' ''MAINTENANCE'' ''DUAL_WRITE''" "AnyInt 1" "New 1" "test_bucket ''DUAL_WRITE''"
      "test_shard ''shard-01'' ''ACTIVE''" "test_shard ''shard-05'' ''MAINTENANCE''"]
  by (simp add: test_mapping_def test_bucket_def state_defs test_shard_def ShardActive_def)

text \<open>
  the source of a finished migration cannot be removed. In the states that read and write the
  destination only, resolution still fails if the source is not registered any more, although
  nothing would be sent to it.
\<close>

theorem dest_only_needs_source:
  assumes "Buckets m (BucketFor k (bucketCount r)) = Some b"
    and "State b \<in> {StateCutover, StateDrainingSrc, StateActiveDest}" and "Shards m (SourceShardID b) = None"
  shows "Resolve r (Some m) k = Inl (ErrUnknownShard (SourceShardID b) (BucketFor k (bucketCount r)))"
  using assms by (simp add: Resolve_def Load_def)

theorem dest_only_needs_source_witness:
  "Resolve (New 1) (Some ((test_mapping ''ACTIVE'' ''ACTIVE'' ''ACTIVE_DEST'')
       \<lparr>Shards := [''shard-05'' \<mapsto> test_shard ''shard-05'' ''ACTIVE'']\<rparr>)) (AnyInt 1) = Inl (ErrUnknownShard ''shard-01'' 0)"
  using dest_only_needs_source
    [of "(test_mapping ''ACTIVE'' ''ACTIVE'' ''ACTIVE_DEST'')\<lparr>Shards := [''shard-05'' \<mapsto> test_shard ''shard-05'' ''ACTIVE'']\<rparr>"
      "AnyInt 1" "New 1" "test_bucket ''ACTIVE_DEST''"]
  by (simp add: test_mapping_def test_bucket_def state_defs)

text \<open>
  a read whose consistency level is anything but the exact text EVENTUAL, an unknown or
  empty level included, goes to the writer endpoint of the primary write shard.
\<close>

theorem strong_reads_hit_primary:
  assumes "Resolve r store k = Inr res" and "level \<noteq> ''EVENTUAL''"
  shows "\<exists>p. PrimaryWriteShard res = Some p \<and> ReadEndpoint res (ParseReadConsistency level) = Writer p"
proof -
  have "ParseReadConsistency level \<noteq> ReadEventual"
    using assms(2) unfolding ParseReadConsistency_eventual by (simp add: ReadEventual_def)
  with Resolve_primary [OF assms(1)] show ?thesis by (simp add: ReadEndpoint_def)
qed

theorem strong_reads_hit_primary_witness:
  "\<exists>res. Resolve (New 1) (Some (test_mapping ''ACTIVE'' ''ACTIVE'' ''CUTOVER'')) (AnyInt 1) = Inr res \<and>
    ReadEndpoint res (ParseReadConsistency ''eventual'') = Writer (test_shard ''shard-05'' ''ACTIVE'')"
proof -
  obtain res where res: "Resolve (New 1) (Some (test_mapping ''ACTIVE'' ''ACTIVE'' ''CUTOVER'')) (AnyInt 1) = Inr res"
    and rd: "WriteShards res = [test_shard ''shard-05'' ''ACTIVE'']"
    by (simp add: fixture_defs)
  from strong_reads_hit_primary [OF res, of "''eventual''"] rd res show ?thesis
    by (auto simp: PrimaryWriteShard_def)
qed

end
