(* ===== verification/Number_Keys.thy ===== *)
theory Number_Keys
  imports Golden_Vectors Router
begin

text \<open>
  Shard keys that are numbers. \<open>/v1/route\<close> takes the key as text, a query takes it as JSON, and a
  JSON number is a \<open>float64\<close>; here is which integers have the same text, and so the same bucket,
  both ways. The integers up to 15 digits are exact in a \<open>float64\<close>, with room for the candidates the
  shortest output tries.
\<close>

section \<open>Decimal digits\<close>

lemma num_digits_step: "10 \<le> n \<Longrightarrow> num_digits n = Suc (num_digits (n div 10))"
  by (subst num_digits_def, subst fmt_nat.simps) (simp add: num_digits_def)

lemma num_digits_small: "n < 10 \<Longrightarrow> num_digits n = (if n = 0 then 0 else 1)"
  by (simp add: num_digits_def fmt_nat.simps [of n])

lemma num_digits_bounds: "0 < n \<Longrightarrow> 10 ^ (num_digits n - 1) \<le> n \<and> n < 10 ^ num_digits n \<and> 0 < num_digits n"
proof (induction n rule: less_induct)
  case (less n)
  show ?case
  proof (cases "n < 10")
    case True
    then show ?thesis using less.prems by (simp add: num_digits_small)
  next
    case False
    let ?k = "num_digits (n div 10)"
    have k: "num_digits n = Suc ?k" using False by (simp add: num_digits_step)
    have "10 ^ (?k - 1) \<le> n div 10" "n div 10 < 10 ^ ?k" "0 < ?k"
      using less.IH [of "n div 10"] False by auto
    then have "10 * 10 ^ (?k - 1) \<le> n" "n < 10 * 10 ^ ?k" by linarith+
    moreover have "10 * 10 ^ (?k - 1) = (10 :: nat) ^ ?k" using \<open>0 < ?k\<close> by (cases ?k) simp_all
    ultimately show ?thesis by (simp add: k)
  qed
qed

lemma num_digits_le: "n < 10 ^ k \<Longrightarrow> num_digits n \<le> k"
proof (rule ccontr)
  assume n: "n < 10 ^ k" and "\<not> num_digits n \<le> k"
  then have "n \<noteq> 0" "k \<le> num_digits n - 1" by (auto simp: num_digits_def split: if_splits)
  then have "10 ^ k \<le> (10 :: nat) ^ (num_digits n - 1)" by (intro power_increasing) simp_all
  also have "\<dots> \<le> n" using num_digits_bounds [of n] \<open>n \<noteq> 0\<close> by simp
  finally show False using n by simp
qed

lemma num_digits_gt: "10 ^ k \<le> n \<Longrightarrow> k < num_digits n"
proof (rule ccontr)
  assume n: "10 ^ k \<le> n" and "\<not> k < num_digits n"
  then have "10 ^ num_digits n \<le> (10 :: nat) ^ k" by (intro power_increasing) simp_all
  moreover have "n < 10 ^ num_digits n" using num_digits_bounds [of n] n by (cases "n = 0") auto
  ultimately show False using n by linarith
qed

lemma digit_char_0: "digit_char 0 = CHR ''0''"
  by code_simp

lemma fmt_nat_scaled: "0 < d \<Longrightarrow> fmt_nat (d * 10 ^ p) = fmt_nat d @ zeros p"
proof (induction p)
  case (Suc p)
  have "1 \<le> d * 10 ^ p" using Suc.prems by (metis One_nat_def Suc_leI mult_pos_pos zero_less_numeral zero_less_power)
  then have "\<not> d * 10 ^ Suc p < 10" by simp
  then have "fmt_nat (d * 10 ^ Suc p) = fmt_nat (d * 10 ^ p) @ [digit_char 0]"
    by (subst fmt_nat.simps) (simp add: ac_simps)
  then show ?case
    using Suc by (simp add: zeros_def digit_char_0 replicate_append_same [symmetric])
qed (simp add: zeros_def)

lemma strip_zeros_append: "strip_zeros ds @ zeros (length ds - length (strip_zeros ds)) = ds"
proof -
  let ?r = "rev ds"
  have "takeWhile (\<lambda>c. c = CHR ''0'') ?r = zeros (length (takeWhile (\<lambda>c. c = CHR ''0'') ?r))"
    unfolding zeros_def by (rule replicate_length_same [symmetric]) (auto dest: set_takeWhileD)
  moreover have "length ds = length (takeWhile (\<lambda>c. c = CHR ''0'') ?r) + length (dropWhile (\<lambda>c. c = CHR ''0'') ?r)"
    by (metis length_append length_rev takeWhile_dropWhile_id)
  moreover have "ds = rev (dropWhile (\<lambda>c. c = CHR ''0'') ?r) @ rev (takeWhile (\<lambda>c. c = CHR ''0'') ?r)"
    by (metis rev_append rev_rev_ident takeWhile_dropWhile_id)
  ultimately show ?thesis
    by (metis add_diff_cancel_right' length_rev rev_replicate strip_zeros_def zeros_def)
qed

section \<open>Integers as floats\<close>

lemma bit_len_bounds: "0 < n \<Longrightarrow> 2 ^ (bit_len n - 1) \<le> n \<and> n < 2 ^ bit_len n \<and> 0 < bit_len n"
proof (induction n rule: less_induct)
  case (less n)
  have len: "bit_len n = Suc (bit_len (n div 2))" using less.prems by (simp add: bit_len.simps [of n])
  show ?case
  proof (cases "n = 1")
    case True
    then show ?thesis using len by (simp add: bit_len.simps)
  next
    case False
    let ?k = "bit_len (n div 2)"
    have "2 ^ (?k - 1) \<le> n div 2" "n div 2 < 2 ^ ?k" "0 < ?k"
      using less.IH [of "n div 2"] less.prems False by auto
    then have "2 * 2 ^ (?k - 1) \<le> n" "n < 2 * 2 ^ ?k" by linarith+
    moreover have "2 * 2 ^ (?k - 1) = (2 :: nat) ^ ?k" using \<open>0 < ?k\<close> by (cases ?k) simp_all
    ultimately show ?thesis by (simp add: len)
  qed
qed

lemma bit_len_le: "0 < n \<Longrightarrow> n < 2 ^ 53 \<Longrightarrow> bit_len n \<le> 53"
proof (rule ccontr)
  assume n: "0 < n" "n < 2 ^ 53" and "\<not> bit_len n \<le> 53"
  then have "53 \<le> bit_len n - 1" by simp
  then have "(2 :: nat) ^ 53 \<le> 2 ^ (bit_len n - 1)" by (intro power_increasing) simp_all
  also have "\<dots> \<le> n" using bit_len_bounds [OF n(1)] by simp
  finally show False using n(2) by simp
qed

definition exact_man :: "nat \<Rightarrow> nat" where
  "exact_man n = n * 2 ^ (53 - bit_len n)"

definition exact_exp :: "nat \<Rightarrow> int" where
  "exact_exp n = int (bit_len n) - 53"

lemma exact_man_bounds:
  assumes "0 < n" and "n < 2 ^ 53"
  shows "2 ^ 52 \<le> exact_man n \<and> exact_man n < 2 ^ 53"
proof -
  let ?b = "bit_len n"
  have b: "2 ^ (?b - 1) \<le> n" "n < 2 ^ ?b" "0 < ?b" "?b \<le> 53"
    using bit_len_bounds [OF assms(1)] bit_len_le [OF assms] by simp_all
  have "(2 :: nat) ^ 52 = 2 ^ (?b - 1) * 2 ^ (53 - ?b)" "(2 :: nat) ^ 53 = 2 ^ ?b * 2 ^ (53 - ?b)"
    using b(3,4) by (simp_all add: power_add [symmetric])
  moreover have "2 ^ (?b - 1) * 2 ^ (53 - ?b) \<le> n * 2 ^ (53 - ?b)" "n * 2 ^ (53 - ?b) < 2 ^ ?b * 2 ^ (53 - ?b)"
    using b(1,2) by simp_all
  ultimately show ?thesis unfolding exact_man_def by linarith
qed

text \<open>An integer below \<open>2 ^ 53\<close> is a float, and is read as that float.\<close>

lemma round_exact:
  assumes "0 < n" and "n < 2 ^ 53"
  shows "round_rat n 1 = Some (exact_man n, exact_exp n)"
proof -
  let ?b = "bit_len n"
  have b: "0 < ?b" "?b \<le> 53" using bit_len_bounds [OF assms(1)] bit_len_le [OF assms] by simp_all
  have one: "bit_len (Suc 0) = 1" by (simp add: bit_len.simps)
  have "nat (- (int ?b - 54)) = Suc (53 - ?b)" using b by simp
  then have "scale2 n 1 (int ?b - 54) = (2 * exact_man n, 1)"
    using b by (simp add: scale2_def exact_man_def)
  then have exp: "bin_exp n 1 = int ?b - 53"
    using exact_man_bounds [OF assms] b by (simp add: bin_exp_def one Let_def)
  have "nat (- (int ?b - 53)) = 53 - ?b" using b by simp
  then have scale: "scale2 n 1 (int ?b - 53) = (exact_man n, 1)"
    using b by (cases "?b = 53") (simp_all add: scale2_def exact_man_def)
  have "round_even (exact_man n) 1 = exact_man n" by (simp add: round_even_def Let_def)
  then show ?thesis
    using assms(1) exact_man_bounds [OF assms] b by (simp add: round_rat_def exp [simplified] scale [simplified] exact_exp_def Let_def)
qed

lemma round_exact_inj:
  assumes "0 < n" and "n < 2 ^ 53" and "N < 2 ^ 53"
  shows "round_rat N 1 = Some (exact_man n, exact_exp n) \<longleftrightarrow> N = n"
proof (cases "N = 0")
  case True
  then show ?thesis using exact_man_bounds [OF assms(1,2)] assms(1) by (simp add: round_rat_def)
next
  case False
  then show ?thesis
    using round_exact [of N] round_exact [OF assms(1,2)] assms by (auto simp: exact_man_def exact_exp_def)
qed

section \<open>The shortest decimal of an integer\<close>

lemma shortest_at_exact:
  assumes "0 < n" and "n < 10 ^ 15" and "10 ^ p \<le> n"
  shows "shortest_at (exact_man n) (exact_exp n) (int p) = (if 10 ^ p dvd n then Some (n div 10 ^ p, int p) else None)"
proof -
  let ?s = "53 - bit_len n" and ?lo = "n div 10 ^ p"
  have n: "n < 2 ^ 53" using assms(2) by simp
  have "nat (- exact_exp n) = ?s" "exact_exp n \<le> 0"
    using bit_len_le [OF assms(1) n] by (simp_all add: exact_exp_def)
  then have "float_frac (exact_man n) (exact_exp n) = (n * 2 ^ ?s, 2 ^ ?s)"
    by (simp add: float_frac_def scale2_def exact_man_def)
  then have scale: "dec_scale (float_frac (exact_man n) (exact_exp n)) (int p) = (n * 2 ^ ?s, 2 ^ ?s * 10 ^ p)"
    by (simp add: dec_scale_def)
  have lo: "n * 2 ^ ?s div (2 ^ ?s * 10 ^ p) = ?lo"
    by (simp add: mult.commute)
  have le: "?lo * 10 ^ p \<le> n" and lt: "n < (?lo + 1) * 10 ^ p"
    using div_times_less_eq_dividend [of n "10 ^ p"] dividend_less_div_times [of "10 ^ p" n] by (simp_all add: add.commute)
  have "(?lo + 1) * 10 ^ p = ?lo * 10 ^ p + 10 ^ p" by simp
  also have "\<dots> \<le> n + n" using le assms(3) by (rule add_mono)
  also have "\<dots> < 2 ^ 53" using assms(2) by simp
  finally have "(?lo + 1) * 10 ^ p < 2 ^ 53" .
  then have "round_dec ?lo (int p) = Some (exact_man n, exact_exp n) \<longleftrightarrow> ?lo * 10 ^ p = n"
    "round_dec (?lo + 1) (int p) = Some (exact_man n, exact_exp n) \<longleftrightarrow> (?lo + 1) * 10 ^ p = n"
    using round_exact_inj [OF assms(1) n] le n by (simp_all add: round_dec_def dec_frac_def)
  moreover have "?lo * 10 ^ p = n \<longleftrightarrow> 10 ^ p dvd n" by (metis dvd_div_mult_self dvd_triv_right)
  ultimately show ?thesis
    using lt unfolding shortest_at_def scale prod.case lo Let_def by simp
qed

lemma shortest_from_exact:
  assumes "0 < n" and "n < 10 ^ 15"
  shows "0 < i \<Longrightarrow> i \<le> num_digits n \<Longrightarrow>
    \<exists>d p. shortest_from (exact_man n) (exact_exp n) (int (num_digits n) - 1) [i..<17] = (d, int p) \<and> d * 10 ^ p = n"
proof (induction "num_digits n - i" arbitrary: i)
  case (0 i)
  have k: "num_digits n \<le> 15" by (rule num_digits_le [OF assms(2)])
  have "shortest_at (exact_man n) (exact_exp n) (int 0) = Some (n, 0)"
    using shortest_at_exact [OF assms, of 0] assms(1) by simp
  with 0 k show ?case
    by (intro exI [of _ n] exI [of _ 0]) (simp add: upt_rec [of i])
next
  case (Suc x i)
  have k: "num_digits n \<le> 15" by (rule num_digits_le [OF assms(2)])
  let ?p = "num_digits n - i"
  have "10 ^ ?p \<le> (10 :: nat) ^ (num_digits n - 1)" using Suc.prems by (intro power_increasing) simp_all
  also have "\<dots> \<le> n" using num_digits_bounds [OF assms(1)] by simp
  finally have at: "shortest_at (exact_man n) (exact_exp n) (int (num_digits n) - 1 - int i + 1) =
      (if 10 ^ ?p dvd n then Some (n div 10 ^ ?p, int ?p) else None)"
    using shortest_at_exact [OF assms, of ?p] Suc.prems by (simp add: of_nat_diff)
  have list: "[i..<17] = i # [Suc i..<17]" using k Suc by (simp add: upt_rec [of i])
  show ?case
  proof (cases "10 ^ ?p dvd n")
    case True
    then show ?thesis unfolding list using at by (intro exI [of _ "n div 10 ^ ?p"] exI [of _ ?p]) simp
  next
    case False
    have "x = num_digits n - Suc i" "Suc i \<le> num_digits n" using Suc.hyps(2) by simp_all
    from Suc.hyps(1) [OF this(1) _ this(2)] show ?thesis unfolding list using at False by simp
  qed
qed

lemma shortest_exact:
  assumes "0 < n" and "n < 10 ^ 15"
  obtains d p where "shortest (exact_man n) (exact_exp n) = (d, int p)" and "d * 10 ^ p = n"
proof -
  let ?s = "53 - bit_len n"
  have n: "n < 2 ^ 53" using assms(2) by simp
  have "nat (- exact_exp n) = ?s" "exact_exp n \<le> 0"
    using bit_len_le [OF assms(1) n] by (simp_all add: exact_exp_def)
  then have frac: "float_frac (exact_man n) (exact_exp n) = (n * 2 ^ ?s, 2 ^ ?s)"
    by (simp add: float_frac_def scale2_def exact_man_def)
  have "2 ^ ?s \<le> n * 2 ^ ?s" using assms(1) by simp
  then have exp: "dec_exp (n * 2 ^ ?s) (2 ^ ?s) = int (num_digits n) - 1" by (simp add: dec_exp_def)
  have "[1, 2, 3, 4, 5, 6, 7, 8, 9, 10, 11, 12, 13, 14, 15, 16] = [1..<17]" by (simp add: upt_rec)
  then have "shortest (exact_man n) (exact_exp n) = shortest_from (exact_man n) (exact_exp n) (int (num_digits n) - 1) [1..<17]"
    unfolding shortest_def frac prod.case exp by simp
  with shortest_from_exact [OF assms, of 1] num_digits_bounds [OF assms(1)] that show ?thesis by auto
qed

section \<open>The text of a numeric key\<close>

lemma fmt_float_exact:
  assumes "0 < n" and "n < 10 ^ 15"
  obtains ds where "fmt_float (F64 neg (exact_man n) (exact_exp n)) = (if neg then ''-'' else []) @
      (if n < 10 ^ 6 then fmt_nat n else fmtE ds (int (num_digits n) - 1))" and "ds \<noteq> []"
proof -
  obtain d p where sh: "shortest (exact_man n) (exact_exp n) = (d, int p)" and dp: "d * 10 ^ p = n"
    by (rule shortest_exact [OF assms])
  have d: "0 < d" using dp assms(1) by (cases d) auto
  have spelled: "fmt_nat n = fmt_nat d @ zeros p" using fmt_nat_scaled [OF d, of p] unfolding dp .
  then have len: "num_digits n = length (fmt_nat d) + p" using assms(1) by (simp add: num_digits_def zeros_def)
  then have ilen: "int (length (fmt_nat d)) + int p = int (num_digits n)" by simp
  let ?ds = "strip_zeros (fmt_nat d)"
  have "?ds @ zeros (num_digits n - length ?ds) = fmt_nat n"
  proof -
    have "length ?ds \<le> length (fmt_nat d)" by (metis le_add1 length_append strip_zeros_append)
    then have "zeros (num_digits n - length ?ds) = zeros (length (fmt_nat d) - length ?ds) @ zeros p"
      by (simp add: len zeros_def replicate_add [symmetric])
    then show ?thesis using strip_zeros_append [of "fmt_nat d"] spelled by (metis append.assoc)
  qed
  moreover have "length ?ds \<le> num_digits n" by (metis len le_add1 length_append strip_zeros_append trans_le_add1)
  ultimately have small: "fmtF ?ds (int (num_digits n)) = fmt_nat n"
    using num_digits_bounds [OF assms(1)] by (simp add: fmtF_def)
  have ne: "?ds \<noteq> []"
  proof
    assume "?ds = []"
    then have "fmt_nat d = zeros (length (fmt_nat d))" using strip_zeros_append [of "fmt_nat d"] by simp
    then have "digits_val (zeros (length (fmt_nat d))) = d" by (metis digits_val_fmt_nat)
    moreover have "digits_val (zeros k) = 0" for k
      by (induction k) (simp_all add: zeros_def digits_val_def [of "[]"])
    ultimately show False using d by simp
  qed
  have "n < 10 ^ 6 \<longleftrightarrow> num_digits n \<le> 6" using num_digits_le [of n 6] num_digits_gt [of 6 n] by linarith
  moreover have "exact_man n \<noteq> 0" using exact_man_bounds [OF assms(1)] assms(2) by simp
  ultimately have "fmt_float (F64 neg (exact_man n) (exact_exp n)) = (if neg then ''-'' else []) @
      (if n < 10 ^ 6 then fmt_nat n else fmtE ?ds (int (num_digits n) - 1))"
    using num_digits_bounds [OF assms(1)] small ilen by (auto simp: sh Let_def ilen)
  with that ne show thesis by blast
qed

lemma fmtE_exponent: "ds \<noteq> [] \<Longrightarrow> CHR ''e'' \<in> set (fmtE ds x)"
  by (cases ds) (simp_all add: fmtE_def)

lemma number_parts_fmt: "number_parts (fmt_int i) = (i < 0, nat \<bar>i\<bar>, 0)"
proof -
  let ?ds = "fmt_nat (nat \<bar>i\<bar>)"
  have tw: "takeWhile (\<lambda>c. c \<noteq> CHR ''e'' \<and> c \<noteq> CHR ''E'') ?ds = ?ds" "takeWhile is_digit ?ds = ?ds"
    using fmt_nat_digits [of "CHR ''e''" "nat \<bar>i\<bar>"] fmt_nat_digits [of "CHR ''E''" "nat \<bar>i\<bar>"] fmt_nat_digits [of _ "nat \<bar>i\<bar>"]
    by (auto simp: is_digit_def)
  have "split_sign (fmt_int i) = (i < 0, ?ds)" by (simp add: fmt_int_def)
  then show ?thesis by (simp add: number_parts_def tw Let_def signed_val_def digits_val_def [of "[]"] del: takeWhile_eq_all_conv)
qed

lemma dec_float_int:
  assumes "\<bar>i\<bar> < 10 ^ 15" and "i \<noteq> 0"
  shows "dec_float (fmt_int i) = Some (F64 (i < 0) (exact_man (nat \<bar>i\<bar>)) (exact_exp (nat \<bar>i\<bar>)))"
  using round_exact [of "nat \<bar>i\<bar>"] assms
  by (simp add: dec_float_def number_parts_fmt round_dec_def dec_frac_def nat_less_iff)

lemma fmt_int_no_e: "CHR ''e'' \<notin> set (fmt_int i)"
  using fmt_int_chars [of "CHR ''e''" i] by (auto simp: is_digit_def)

lemma fmt_int_sign: "fmt_int i = (if i < 0 then ''-'' else []) @ fmt_nat (nat \<bar>i\<bar>)"
  by (simp add: fmt_int_def)

text \<open>
  C21: a number and its text are the same key below a million, and only there. An integer of up to 15
  digits in the JSON of a query is hashed as its decimal digits exactly if it has at most six;
  so below a million every map and every router resolve it as they resolve its digits given as
  text, and from a million on the hash sees another text than \<open>/v1/route\<close> does.
\<close>

theorem number_keys_agree_below_million:
  assumes "\<bar>i\<bar> < 10 ^ 15"
  shows "\<exists>k. dec_any (JNum (fmt_int i)) = Some k \<and> (fmt_v k = fmt_v (AnyString (fmt_int i)) \<longleftrightarrow> \<bar>i\<bar> < 10 ^ 6) \<and>
    (\<bar>i\<bar> < 10 ^ 6 \<longrightarrow> (\<forall>r store n. BucketFor k n = BucketFor (AnyString (fmt_int i)) n \<and>
       Resolve r store k = Resolve r store (AnyString (fmt_int i))))"
proof -
  have same: "fmt_v k = fmt_v k' \<Longrightarrow> BucketFor k n = BucketFor k' n \<and> Resolve r store k = Resolve r store k'" for k k' n r store
  proof
    assume eq: "fmt_v k = fmt_v k'"
    then show bucket: "BucketFor k n = BucketFor k' n" for n by (simp add: BucketFor_def)
    show "Resolve r store k = Resolve r store k'" unfolding Resolve_route bucket ..
  qed
  show ?thesis
  proof (cases "i = 0")
    case True
    have "dec_any (JNum ''0'') = Some (AnyFloat (F64 False 0 (-1074)))" "fmt_int 0 = ''0''" by code_simp+
    moreover have "fmt_v (AnyFloat (F64 False 0 (-1074))) = ''0''" by code_simp
    ultimately show ?thesis
      using True same [of "AnyFloat (F64 False 0 (-1074))" "AnyString ''0''"] by simp
  next
    case False
    let ?n = "nat \<bar>i\<bar>" and ?k = "AnyFloat (F64 (i < 0) (exact_man (nat \<bar>i\<bar>)) (exact_exp (nat \<bar>i\<bar>)))"
    have n: "0 < ?n" "?n < 10 ^ 15" using False assms by (simp_all add: nat_less_iff)
    have small: "?n < 10 ^ 6 \<longleftrightarrow> \<bar>i\<bar> < 10 ^ 6" by (simp add: nat_less_iff)
    obtain ds where spelled: "fmt_v ?k = (if i < 0 then ''-'' else []) @ (if ?n < 10 ^ 6 then fmt_nat ?n else fmtE ds (int (num_digits ?n) - 1))"
      and ds: "ds \<noteq> []" using fmt_float_exact [OF n, of "i < 0"] by (metis fmt_v.simps(4))
    have "fmt_v ?k = fmt_int i \<longleftrightarrow> \<bar>i\<bar> < 10 ^ 6"
    proof (cases "\<bar>i\<bar> < 10 ^ 6")
      case True
      then show ?thesis using spelled small by (simp add: fmt_int_sign)
    next
      case False
      then have "CHR ''e'' \<in> set (fmt_v ?k)" using spelled small fmtE_exponent [OF ds] by simp
      then show ?thesis using False fmt_int_no_e [of i] by metis
    qed
    moreover have "dec_any (JNum (fmt_int i)) = Some ?k" using dec_float_int [OF assms False] by simp
    ultimately show ?thesis
      using same [of ?k "AnyString (fmt_int i)"] by (intro exI [of _ ?k]) (simp del: fmt_v.simps(4))
  qed
qed

theorem number_keys_agree_below_million_witness:
  "\<exists>k k'. dec_any (JNum ''999999'') = Some k \<and> BucketFor k 1024 = BucketFor (AnyString ''999999'') 1024 \<and>
    dec_any (JNum ''1000000'') = Some k' \<and> fmt_v k' \<noteq> ''1000000''"
proof -
  have "fmt_int 999999 = ''999999''" "fmt_int 1000000 = ''1000000''" by code_simp+
  with number_keys_agree_below_million [of 999999] number_keys_agree_below_million [of 1000000] show ?thesis by auto
qed

end
