(* ===== verification/Go_Encode.thy ===== *)
theory Go_Encode
  imports Go_Json
begin

text \<open>
  The encoder of \<open>encoding/json\<close> on values whose members are already in the order it writes
  them: compact text, strings quoted with HTML escaping. On ASCII strings it is inverted by
  the parser of \<open>Go_Json\<close>, so a document written by a Go or gateway encoder is read back as
  the value it was written from.
\<close>

section \<open>Quoting\<close>

definition hex_digit :: "nat \<Rightarrow> char" where
  "hex_digit n = ''0123456789abcdef'' ! n"

definition escape_char :: "char \<Rightarrow> bytes" where
  "escape_char c =
     (if c = CHR 0x22 \<or> c = CHR 0x5C then [CHR 0x5C, c]
      else if c = CHR 0x08 then [CHR 0x5C, CHR ''b'']
      else if c = CHR 0x0C then [CHR 0x5C, CHR ''f'']
      else if c = CHR 0x0A then [CHR 0x5C, CHR ''n'']
      else if c = CHR 0x0D then [CHR 0x5C, CHR ''r'']
      else if c = CHR 0x09 then [CHR 0x5C, CHR ''t'']
      else if (of_char c :: nat) < 32 \<or> c \<in> {CHR ''<'', CHR ''>'', CHR ''&''}
        then [CHR 0x5C, CHR ''u'', CHR ''0'', CHR ''0'', hex_digit (of_char c div 16), hex_digit (of_char c mod 16)]
      else [c])"

function quote_body :: "bytes \<Rightarrow> bytes" where
  "quote_body s =
     (case s of
        [] \<Rightarrow> []
      | c # t \<Rightarrow>
          if (of_char c :: nat) < 128 then escape_char c @ quote_body t
          else
            (case decode_rune s of (r, w) \<Rightarrow>
               if r = RuneError \<and> w = 1 then CHR 0x5C # ''ufffd'' @ quote_body (drop w s)
               else if r = 8232 then CHR 0x5C # ''u2028'' @ quote_body (drop w s)
               else if r = 8233 then CHR 0x5C # ''u2029'' @ quote_body (drop w s)
               else take w s @ quote_body (drop w s)))"
  by pat_completeness auto
termination
  by (relation "measure length") (auto dest!: decode_rune_pos)

declare quote_body.simps [simp del]

definition json_quote :: "bytes \<Rightarrow> bytes" where
  "json_quote s = CHR 0x22 # quote_body s @ [CHR 0x22]"

section \<open>Values\<close>

fun sep_by :: "char \<Rightarrow> bytes list \<Rightarrow> bytes" where
  "sep_by c [] = []"
| "sep_by c [x] = x"
| "sep_by c (x # y # xs) = x @ c # sep_by c (y # xs)"

fun marshal :: "json \<Rightarrow> bytes" where
  "marshal JNull = ''null''"
| "marshal (JBool b) = (if b then ''true'' else ''false'')"
| "marshal (JNum lit) = lit"
| "marshal (JStr s) = json_quote s"
| "marshal (JArr js) = CHR ''['' # sep_by (CHR '','') (map marshal js) @ [CHR '']'']"
| "marshal (JObj kvs) =
     CHR ''{'' # sep_by (CHR '','') (map (\<lambda>(k, v). json_quote k @ CHR '':'' # marshal v) kvs) @ [CHR ''}'']"

section \<open>The parser inverts the encoder\<close>

definition ascii_bytes :: "bytes \<Rightarrow> bool" where
  "ascii_bytes s \<longleftrightarrow> list_all (\<lambda>c. (of_char c :: nat) < 128) s"

lemma quote_body_Nil [simp]: "quote_body [] = []"
  by (simp add: quote_body.simps)

lemma quote_body_ascii [simp]: "(of_char c :: nat) < 128 \<Longrightarrow> quote_body (c # t) = escape_char c @ quote_body t"
  by (subst quote_body.simps) simp

lemma hex_digit_table:
  "n < 16 \<Longrightarrow> is_hex (hex_digit n) \<and> hex_val (hex_digit n) = n"
proof -
  have "list_all (\<lambda>n. is_hex (hex_digit n) \<and> hex_val (hex_digit n) = n) [0..<16]"
    by code_simp
  then show "n < 16 \<Longrightarrow> is_hex (hex_digit n) \<and> hex_val (hex_digit n) = n"
    by (simp add: list_all_iff)
qed

lemma hex_zero: "is_hex (CHR ''0'')" "hex_val (CHR ''0'') = 0"
  by code_simp+

text \<open>Scanning and unquoting one escaped character.\<close>

lemma escapes:
  "simple_escape (CHR 0x22) = Some (CHR 0x22)" "simple_escape (CHR 0x5C) = Some (CHR 0x5C)"
  "simple_escape (CHR ''b'') = Some (CHR 0x08)" "simple_escape (CHR ''f'') = Some (CHR 0x0C)"
  "simple_escape (CHR ''n'') = Some (CHR 0x0A)" "simple_escape (CHR ''r'') = Some (CHR 0x0D)"
  "simple_escape (CHR ''t'') = Some (CHR 0x09)" "simple_escape (CHR ''u'') = None"
  by (simp_all add: simple_escape_def)

lemma scan_escape_char:
  assumes "(of_char c :: nat) < 128"
  shows "scan_string (escape_char c @ s) = prepend (escape_char c) (scan_string s)"
  using assms hex_digit_table [of "of_char c div 16"] hex_digit_table [of "of_char c mod 16"] hex_zero
  by (simp add: escape_char_def escapes)

lemma hex4_byte:
  assumes "n < 128"
  shows "hex4 [CHR ''0'', CHR ''0'', hex_digit (n div 16), hex_digit (n mod 16)] = n"
  using assms hex_digit_table [of "n div 16"] hex_digit_table [of "n mod 16"]
  by (simp add: hex4_def hex_zero)

lemma encode_rune_ascii: "n < 128 \<Longrightarrow> encode_rune n = [char_of n]"
  by (simp add: encode_rune_def)

lemma unquote_escape_char:
  assumes c: "(of_char c :: nat) < 128"
  shows "unquote (escape_char c @ s) = c # unquote s"
proof -
  have plain: "unquote (c # s) = c # unquote s" if "c \<noteq> CHR 0x5C"
    using that c by (subst unquote.simps) (simp add: encode_rune_ascii)
  have simple: "unquote (CHR 0x5C # e # s) = x # unquote s" if "simple_escape e = Some x" for e x
    using that by (subst unquote.simps) simp
  have hex: "unquote (CHR 0x5C # CHR ''u'' # CHR ''0'' # CHR ''0'' #
      hex_digit (of_char c div 16) # hex_digit (of_char c mod 16) # s) = c # unquote s"
    using hex4_byte [OF c] c
    by (subst unquote.simps) (simp add: escapes Let_def is_surrogate_def encode_rune_ascii)
  show ?thesis
    using plain simple escapes hex by (simp add: escape_char_def)
qed

lemma prepend_append: "prepend p (prepend q r) = prepend (p @ q) r"
  by (cases r) (auto simp: prepend_def)

lemma scan_quoted: "ascii_bytes s \<Longrightarrow> scan_string (quote_body s @ CHR 0x22 # r) = Some (quote_body s, r)"
proof (induction s)
  case Nil
  then show ?case by simp
next
  case (Cons c s)
  then show ?case
    by (simp add: ascii_bytes_def scan_escape_char prepend_def)
qed

lemma unquote_quoted: "ascii_bytes s \<Longrightarrow> unquote (quote_body s) = s"
proof (induction s)
  case Nil
  then show ?case by (simp add: unquote.simps)
next
  case (Cons c s)
  then show ?case by (simp add: ascii_bytes_def unquote_escape_char)
qed


text \<open>Texts after which a number is over.\<close>

definition num_end :: "bytes \<Rightarrow> bool" where
  "num_end r \<longleftrightarrow> (case r of [] \<Rightarrow> True | c # _ \<Rightarrow> \<not> is_digit c \<and> c \<notin> {CHR ''.'', CHR ''e'', CHR ''E''})"

lemma fmt_nat_hd: "0 < n \<Longrightarrow> digit_val (hd (fmt_nat n)) \<noteq> 0"
proof (induction n rule: fmt_nat.induct)
  case (1 n)
  then show ?case
    by (subst fmt_nat.simps) (auto simp: hd_append)
qed

lemma scan_int_fmt_nat:
  assumes "num_end r"
  shows "scan_int (fmt_nat n @ r) = Some (fmt_nat n, r)"
proof (cases "n = 0")
  case True
  have "fmt_nat 0 = ''0''" by code_simp
  with True have "fmt_nat n = ''0''" by simp
  then show ?thesis by simp
next
  case False
  obtain c s where cs: "fmt_nat n = c # s" by (cases "fmt_nat n") simp_all
  have "digit_val c \<noteq> 0" using fmt_nat_hd [of n] False cs by simp
  then have "c \<noteq> CHR ''0''" by (auto simp: digit_val_def)
  moreover have "list_all is_digit (c # s)"
    using fmt_nat_digits [of _ n] cs by (simp add: list_all_iff)
  moreover have "span is_digit (s @ r) = (s, r)" if "list_all is_digit s" for s
    using that assms by (cases r) (auto simp: span_def num_end_def list_all_iff)
  ultimately show ?thesis by (simp add: cs)
qed

lemma scan_number_fmt_int:
  assumes "num_end r"
  shows "scan_number (fmt_int i @ r) = Some (fmt_int i, r)"
proof -
  have tail: "scan_frac r = Some ([], r)" "scan_exp r = Some ([], r)"
    using assms by (cases r; simp add: num_end_def)+
  have nosign: "hd (fmt_nat n) \<noteq> CHR ''-''" for n
    using fmt_nat_digits [of "hd (fmt_nat n)" n] by auto
  have nat: "scan_number (fmt_nat n @ r) = Some (fmt_nat n, r)" for n
    using nosign [of n] scan_int_fmt_nat [OF assms, of n] tail
    by (cases "fmt_nat n") (simp_all add: scan_number_def)
  have neg: "scan_number (CHR ''-'' # fmt_nat n @ r) = Some (CHR ''-'' # fmt_nat n, r)" for n
    using scan_int_fmt_nat [OF assms, of n] tail by (simp add: scan_number_def)
  show ?thesis using nat neg by (simp add: fmt_int_def)
qed

text \<open>Values with ASCII strings and integer numbers.\<close>

fun plain_json :: "json \<Rightarrow> bool" where
  "plain_json (JNum lit) = (case Atoi lit of Inl _ \<Rightarrow> False | Inr i \<Rightarrow> lit = fmt_int i)"
| "plain_json (JStr s) = ascii_bytes s"
| "plain_json (JArr js) = list_all plain_json js"
| "plain_json (JObj kvs) = list_all (\<lambda>(k, v). ascii_bytes k \<and> plain_json v) kvs"
| "plain_json j = True"

fun json_depth :: "json \<Rightarrow> nat" where
  "json_depth (JArr js) = Suc (fold max (map json_depth js) 0)"
| "json_depth (JObj kvs) = Suc (fold max (map (\<lambda>(k, v). json_depth v) kvs) 0)"
| "json_depth j = 0"

lemma fold_max: "x \<in> set xs \<Longrightarrow> (x :: nat) \<le> fold max xs a" and "a \<le> fold max xs a"
proof -
  have "(\<forall>x\<in>set xs. x \<le> fold max xs a) \<and> a \<le> fold max xs a"
    by (induction xs arbitrary: a) fastforce+
  then show "x \<in> set xs \<Longrightarrow> x \<le> fold max xs a" and "a \<le> fold max xs a" by auto
qed

lemma fmt_int_head: "\<exists>c t. fmt_int i = c # t \<and> (is_digit c \<or> c = CHR ''-'')"
  using fmt_int_chars [of _ i] by (cases "fmt_int i") (auto simp: fmt_int_def split: if_splits)

text \<open>The first character of an encoded value.\<close>

definition value_start :: "char \<Rightarrow> bool" where
  "value_start c \<longleftrightarrow> \<not> json_ws c \<and> c \<noteq> CHR '']'' \<and> c \<noteq> CHR ''}'' \<and> c \<noteq> CHR '',''"

lemma value_start_digit: "is_digit c \<or> c = CHR ''-'' \<Longrightarrow> value_start c"
  by (auto simp: value_start_def json_ws_def is_digit_def)

lemma marshal_start: "plain_json j \<Longrightarrow> \<exists>c t. marshal j = c # t \<and> value_start c"
proof (cases j)
  case (JNum lit)
  assume "plain_json j"
  then obtain i where "lit = fmt_int i" using JNum by (auto split: sum.splits)
  with fmt_int_head [of i] value_start_digit show ?thesis by (auto simp: JNum)
qed (auto simp: json_quote_def value_start_def json_ws_def)


lemma skip_ws_value [simp]: "value_start c \<Longrightarrow> skip_ws (c # t) = c # t"
  by (simp add: skip_ws_def value_start_def)

lemma skip_ws_punct [simp]:
  "skip_ws (CHR '','' # t) = CHR '','' # t" "skip_ws (CHR '']'' # t) = CHR '']'' # t"
  "skip_ws (CHR ''}'' # t) = CHR ''}'' # t" "skip_ws (CHR '':'' # t) = CHR '':'' # t"
  "skip_ws (CHR 0x22 # t) = CHR 0x22 # t" "skip_ws (CHR ''['' # t) = CHR ''['' # t"
  "skip_ws (CHR ''{'' # t) = CHR ''{'' # t" "skip_ws (CHR ''n'' # t) = CHR ''n'' # t"
  "skip_ws (CHR ''t'' # t) = CHR ''t'' # t" "skip_ws (CHR ''f'' # t) = CHR ''f'' # t"
  by (simp_all add: skip_ws_def json_ws_def)

lemma num_end_punct [simp]: "num_end []" "num_end (CHR '','' # t)" "num_end (CHR '']'' # t)" "num_end (CHR ''}'' # t)"
  by (simp_all add: num_end_def is_digit_def)

text \<open>\<open>parses j\<close>: the parser reads the encoded value \<open>j\<close> back, in any context.\<close>

definition parses :: "json \<Rightarrow> bool" where
  "parses j \<longleftrightarrow> (\<forall>n d r. num_end r \<longrightarrow> d + json_depth j \<le> maxNestingDepth \<longrightarrow>
     2 * length (marshal j @ r) + 1 \<le> n \<longrightarrow> parse_value n d (marshal j @ r) = Parsed j r)"

lemma after_item_last: "after_item close x (close # r) more = Parsed [x] r"
  if "close = CHR '']'' \<or> close = CHR ''}''"
  using that by (auto simp: after_item_def)

lemma after_item_comma: "after_item close x (CHR '','' # r) more = bind_parsed (more r) (\<lambda>xs r. Parsed (x # xs) r)"
  by (simp add: after_item_def)

lemma bind_Parsed_simp [simp]: "bind_parsed (Parsed v r) f = f v r"
  by (simp add: bind_parsed_def)

lemma parse_elems_marshal:
  assumes "js \<noteq> []" and "list_all (\<lambda>j. parses j \<and> d + json_depth j \<le> maxNestingDepth) js"
    and "2 * length (sep_by (CHR '','') (map marshal js) @ CHR '']'' # r) + 2 \<le> n"
  shows "parse_elems n d (sep_by (CHR '','') (map marshal js) @ CHR '']'' # r) = Parsed js r"
  using assms
proof (induction js arbitrary: n)
  case (Cons j js)
  then obtain n' where n: "n = Suc n'" by (cases n) simp_all
  have j: "parse_value n' d (marshal j @ t) = Parsed j t"
    if "num_end t" "2 * length (marshal j @ t) + 1 \<le> n'" for t
    using Cons.prems(2) that by (simp add: parses_def)
  show ?case
  proof (cases js)
    case Nil
    with Cons.prems(3) n j [of "CHR '']'' # r"] show ?thesis
      by (simp add: parse_elems.simps after_item_last)
  next
    case (Cons j' js')
    let ?rest = "sep_by (CHR '','') (map marshal js) @ CHR '']'' # r"
    have joined: "sep_by (CHR '','') (map marshal (j # js)) @ CHR '']'' # r = marshal j @ CHR '','' # ?rest"
      by (simp add: Cons)
    have "parse_elems n' d ?rest = Parsed js r"
      using Cons.prems n unfolding joined by (intro Cons.IH) (simp_all add: Cons)
    moreover have "parse_value n' d (marshal j @ CHR '','' # ?rest) = Parsed j (CHR '','' # ?rest)"
      using Cons.prems(3) n unfolding joined by (intro j) simp_all
    ultimately show ?thesis
      unfolding joined n by (simp add: parse_elems.simps after_item_comma)
  qed
qed simp

definition member :: "bytes \<times> json \<Rightarrow> bytes" where
  "member kv = (case kv of (k, v) \<Rightarrow> json_quote k @ CHR '':'' # marshal v)"

lemma parse_members_marshal:
  assumes "kvs \<noteq> []" and "list_all (\<lambda>(k, j). ascii_bytes k \<and> parses j \<and> d + json_depth j \<le> maxNestingDepth) kvs"
    and "2 * length (sep_by (CHR '','') (map member kvs) @ CHR ''}'' # r) + 2 \<le> n"
  shows "parse_members n d (sep_by (CHR '','') (map member kvs) @ CHR ''}'' # r) = Parsed kvs r"
  using assms
proof (induction kvs arbitrary: n)
  case (Cons kv kvs)
  then obtain n' where n: "n = Suc n'" by (cases n) simp_all
  obtain k j where kv: "kv = (k, j)" by (cases kv)
  have k: "ascii_bytes k" using Cons.prems(2) by (simp add: kv)
  have j: "parse_value n' d (marshal j @ t) = Parsed j t"
    if "num_end t" "2 * length (marshal j @ t) + 1 \<le> n'" for t
    using Cons.prems(2) that by (simp add: parses_def kv)
  have member: "parse_members (Suc n') d (member kv @ t) =
      after_item (CHR ''}'') kv t (parse_members n' d)"
    if "num_end t" "2 * length (member kv @ t) + 2 \<le> Suc n'" for t
    using that j [of t]
    by (simp add: parse_members.simps member_def kv json_quote_def scan_quoted [OF k] of_scan_def unquote_quoted [OF k])
  show ?case
  proof (cases kvs)
    case Nil
    with Cons.prems(3) n member [of "CHR ''}'' # r"] show ?thesis
      by (simp add: after_item_last)
  next
    case (Cons kv' kvs')
    let ?rest = "sep_by (CHR '','') (map member kvs) @ CHR ''}'' # r"
    have joined: "sep_by (CHR '','') (map member (kv # kvs)) @ CHR ''}'' # r = member kv @ CHR '','' # ?rest"
      by (simp add: Cons)
    have "parse_members n' d ?rest = Parsed kvs r"
      using Cons.prems n unfolding joined by (intro Cons.IH) (simp_all add: Cons)
    moreover have "parse_members (Suc n') d (member kv @ CHR '','' # ?rest) =
        after_item (CHR ''}'') kv (CHR '','' # ?rest) (parse_members n' d)"
      using Cons.prems(3) n unfolding joined by (intro member) simp_all
    ultimately show ?thesis
      unfolding joined n by (simp add: after_item_comma)
  qed
qed simp

lemma sep_by_start:
  assumes "xs \<noteq> []" and "\<exists>c t. hd xs = c # t \<and> value_start c"
  shows "\<exists>c t. sep_by s xs @ r = c # t \<and> value_start c"
  using assms by (cases "(s, xs)" rule: sep_by.cases) auto

lemma parses_plain: "plain_json j \<Longrightarrow> parses j"
proof (induction j)
  case (JArr js)
  have js: "list_all (\<lambda>j. parses j \<and> Suc d + json_depth j \<le> maxNestingDepth) js"
    if "d + json_depth (JArr js) \<le> maxNestingDepth" for d
    using JArr that fold_max(1) [of _ "map json_depth js" 0] by (fastforce simp: list_all_iff)
  show ?case
    unfolding parses_def
  proof (intro allI impI)
    fix n d r
    assume depth: "d + json_depth (JArr js) \<le> maxNestingDepth"
      and fuel: "2 * length (marshal (JArr js) @ r) + 1 \<le> n"
    then obtain n' where n: "n = Suc n'" by (cases n) simp_all
    have d: "\<not> maxNestingDepth \<le> d" using depth by simp
    show "parse_value n d (marshal (JArr js) @ r) = Parsed (JArr js) r"
    proof (cases "js = []")
      case True
      with d show ?thesis by (simp add: n parse_value.simps closes_def)
    next
      case False
      let ?t = "sep_by (CHR '','') (map marshal js) @ CHR '']'' # r"
      have "plain_json (hd js)" using JArr.prems False by (cases js) simp_all
      then have "\<exists>c t. ?t = c # t \<and> value_start c"
        using False marshal_start by (intro sep_by_start) (simp_all add: hd_map)
      then have "closes (CHR '']'') ?t = None" by (auto simp: closes_def value_start_def skip_ws_def)
      moreover have "parse_elems n' (Suc d) ?t = Parsed js r"
        using False js [OF depth] fuel n by (intro parse_elems_marshal) simp_all
      ultimately show ?thesis using d by (simp add: n parse_value.simps)
    qed
  qed
next
  case (JObj kvs)
  have kvs: "list_all (\<lambda>(k, j). ascii_bytes k \<and> parses j \<and> Suc d + json_depth j \<le> maxNestingDepth) kvs"
    if "d + json_depth (JObj kvs) \<le> maxNestingDepth" for d
    unfolding list_all_iff
  proof (clarify, intro conjI)
    fix k j assume kj: "(k, j) \<in> set kvs"
    then show "ascii_bytes k" and "parses j"
      using JObj by (auto simp: list_all_iff)
    have "json_depth j \<le> fold max (map (\<lambda>(k, v). json_depth v) kvs) 0"
      using kj by (intro fold_max) force
    with that show "Suc d + json_depth j \<le> maxNestingDepth" by simp
  qed
  have member: "map (\<lambda>(k, v). json_quote k @ CHR '':'' # marshal v) kvs = map member kvs"
    by (simp add: member_def)
  show ?case
    unfolding parses_def
  proof (intro allI impI)
    fix n d r
    assume depth: "d + json_depth (JObj kvs) \<le> maxNestingDepth"
      and fuel: "2 * length (marshal (JObj kvs) @ r) + 1 \<le> n"
    then obtain n' where n: "n = Suc n'" by (cases n) simp_all
    have d: "\<not> maxNestingDepth \<le> d" using depth by simp
    show "parse_value n d (marshal (JObj kvs) @ r) = Parsed (JObj kvs) r"
    proof (cases "kvs = []")
      case True
      with d show ?thesis by (simp add: n parse_value.simps closes_def)
    next
      case False
      let ?t = "sep_by (CHR '','') (map member kvs) @ CHR ''}'' # r"
      have "\<exists>c t. ?t = c # t \<and> value_start c"
        using False by (intro sep_by_start) (cases kvs; auto simp: member_def json_quote_def value_start_def json_ws_def)+
      then have "closes (CHR ''}'') ?t = None" by (auto simp: closes_def value_start_def skip_ws_def)
      moreover have "parse_members n' (Suc d) ?t = Parsed kvs r"
        using False kvs [OF depth] fuel n unfolding marshal.simps member by (intro parse_members_marshal) simp_all
      ultimately show ?thesis using d unfolding marshal.simps member by (simp add: n parse_value.simps)
    qed
  qed
next
  case (JNum lit)
  then obtain i where lit: "lit = fmt_int i" by (auto split: sum.splits)
  obtain c t where ct: "fmt_int i = c # t" "is_digit c \<or> c = CHR ''-''" using fmt_int_head [of i] by blast
  then have "value_start c" by (intro value_start_digit)
  moreover from ct have "c \<noteq> CHR 0x22" "c \<noteq> CHR ''[''" "c \<noteq> CHR ''{''" "c \<noteq> CHR ''t''" "c \<noteq> CHR ''f''" "c \<noteq> CHR ''n''"
    by (auto simp: is_digit_def)
  ultimately have "parse_value (Suc n) d (fmt_int i @ r) = Parsed (JNum lit) r" if "num_end r" for n d r
    using ct(1) scan_number_fmt_int [OF that, of i] by (simp add: lit parse_value.simps of_scan_def)
  then show ?case
    unfolding parses_def lit marshal.simps by (metis Suc_eq_plus1 Suc_le_D)
next
  case (JStr s)
  then have "parse_value (Suc n) d (marshal (JStr s) @ r) = Parsed (JStr s) r" for n d r
    by (simp add: json_quote_def parse_value.simps scan_quoted of_scan_def unquote_quoted)
  then show ?case
    unfolding parses_def by (metis Suc_eq_plus1 Suc_le_D)
next
  case JNull
  have "parse_value (Suc n) d (marshal JNull @ r) = Parsed JNull r" for n d r
    by (simp add: parse_value.simps of_scan_def expect_def HasPrefix_def)
  then show ?case
    unfolding parses_def by (metis Suc_eq_plus1 Suc_le_D)
next
  case (JBool b)
  have "parse_value (Suc n) d (marshal (JBool b) @ r) = Parsed (JBool b) r" for n d r
    by (simp add: parse_value.simps of_scan_def expect_def HasPrefix_def)
  then show ?case
    unfolding parses_def by (metis Suc_eq_plus1 Suc_le_D)
qed

text \<open>Reading one encoded value from a stream, and reading a text that is one encoded value.\<close>

lemma json_prefix_marshal:
  assumes "plain_json j" and "json_depth j \<le> maxNestingDepth" and "num_end r"
  shows "json_prefix (marshal j @ r) = Parsed j r"
  using parses_plain [OF assms(1)] assms(2,3) by (simp add: json_prefix_def parses_def)

lemma json_parse_marshal:
  assumes "plain_json j" and "json_depth j \<le> maxNestingDepth"
  shows "json_parse (marshal j) = Some j"
  using json_prefix_marshal [OF assms, of "[]"] by (simp add: json_parse_def skip_ws_def)

lemma fold_max_le: "list_all (\<lambda>x. x \<le> b) xs \<Longrightarrow> a \<le> b \<Longrightarrow> fold max xs a \<le> (b :: nat)"
  by (induction xs arbitrary: a) auto

lemma num_end_newline [simp]: "num_end (CHR 0x0A # s)"
  by (simp add: num_end_def is_digit_def)

lemma json_parse_marshal_line:
  assumes "plain_json j" and "json_depth j \<le> maxNestingDepth"
  shows "json_parse (marshal j @ [CHR 0x0A]) = Some j"
  using json_prefix_marshal [OF assms, of "[CHR 0x0A]"] by (simp add: json_parse_def skip_ws_def json_ws_def)

lemma fmt_int_ascii [simp]: "ascii_bytes (fmt_int i)"
proof -
  have "(of_char c :: nat) < 128" if "c \<in> set (fmt_int i)" for c
    using fmt_int_chars [OF that] by (auto simp: is_digit_def)
  then show ?thesis by (simp add: ascii_bytes_def list_all_iff)
qed

lemma ascii_Nil [simp]: "ascii_bytes []"
  by (simp add: ascii_bytes_def)

lemma ascii_Cons: "ascii_bytes (c # s) \<longleftrightarrow> (of_char c :: nat) < 128 \<and> ascii_bytes s"
  by (simp add: ascii_bytes_def)

lemma ascii_append [simp]: "ascii_bytes (s @ t) \<longleftrightarrow> ascii_bytes s \<and> ascii_bytes t"
  by (simp add: ascii_bytes_def)

end
