(* ===== verification/Go_Text.thy ===== *)
theory Go_Text
  imports Go_Encode
begin

text \<open>
  The text functions of the standard library that the configuration and the HTTP layer use:
  \<open>strconv.Quote\<close> (the verb \<open>%q\<close>), \<open>strings.Split\<close> and \<open>strings.TrimSpace\<close>, and the query of a
  URL. Which runes above U+00FF are printable is Unicode data and the parameter \<open>isPrint\<close>.
\<close>

section \<open>Quoting with \<open>%q\<close>\<close>

definition IsPrint :: "(nat \<Rightarrow> bool) \<Rightarrow> nat \<Rightarrow> bool" where
  "IsPrint isPrint r =
     (if r \<le> 255 then (32 \<le> r \<and> r < 127) \<or> (161 \<le> r \<and> r \<noteq> 173) else isPrint r)"

definition hex_bytes :: "nat \<Rightarrow> nat \<Rightarrow> bytes" where
  "hex_bytes digits r = map (\<lambda>i. hex_digit (r div 16 ^ i mod 16)) (rev [0..<digits])"

definition quote_rune :: "(nat \<Rightarrow> bool) \<Rightarrow> nat \<Rightarrow> bytes" where
  "quote_rune isPrint r =
     (if r = 34 \<or> r = 92 then [CHR 0x5C, char_of r]
      else if IsPrint isPrint r then encode_rune r
      else if r = 7 then [CHR 0x5C, CHR ''a'']
      else if r = 8 then [CHR 0x5C, CHR ''b'']
      else if r = 12 then [CHR 0x5C, CHR ''f'']
      else if r = 10 then [CHR 0x5C, CHR ''n'']
      else if r = 13 then [CHR 0x5C, CHR ''r'']
      else if r = 9 then [CHR 0x5C, CHR ''t'']
      else if r = 11 then [CHR 0x5C, CHR ''v'']
      else if r < 32 \<or> r = 127 then CHR 0x5C # CHR ''x'' # hex_bytes 2 r
      else if r < 65536 then CHR 0x5C # CHR ''u'' # hex_bytes 4 r
      else CHR 0x5C # CHR ''U'' # hex_bytes 8 r)"

function quote_runes :: "(nat \<Rightarrow> bool) \<Rightarrow> bytes \<Rightarrow> bytes" where
  "quote_runes isPrint s =
     (case s of
        [] \<Rightarrow> []
      | c # _ \<Rightarrow>
          (case decode_rune s of (r, w) \<Rightarrow>
             (if r = RuneError \<and> w = 1 then CHR 0x5C # CHR ''x'' # hex_bytes 2 (of_char c)
              else quote_rune isPrint r) @ quote_runes isPrint (drop w s)))"
  by pat_completeness auto
termination
  by (relation "measure (\<lambda>(_, s). length s)") (auto dest!: decode_rune_pos)

declare quote_runes.simps [simp del]

definition Quote :: "(nat \<Rightarrow> bool) \<Rightarrow> bytes \<Rightarrow> bytes" where
  "Quote isPrint s = CHR 0x22 # quote_runes isPrint s @ [CHR 0x22]"

text \<open>Printable ASCII text without quotes and backslashes is only put between quotes.\<close>

definition plain_char :: "char \<Rightarrow> bool" where
  "plain_char c \<longleftrightarrow> (let n = (of_char c :: nat) in 32 \<le> n \<and> n < 127 \<and> n \<noteq> 34 \<and> n \<noteq> 92)"

lemma quote_runes_Nil [simp]: "quote_runes isPrint [] = []"
  by (simp add: quote_runes.simps)

lemma quote_runes_ascii: "(of_char c :: nat) < 128 \<Longrightarrow>
    quote_runes isPrint (c # s) = quote_rune isPrint (of_char c) @ quote_runes isPrint s"
  by (subst quote_runes.simps) (simp add: RuneError_def)

lemma quote_runes_plain: "list_all plain_char s \<Longrightarrow> quote_runes isPrint s = s"
proof (induction s)
  case (Cons c s)
  then have "32 \<le> (of_char c :: nat)" "(of_char c :: nat) < 127" "of_char c \<noteq> (34 :: nat)" "of_char c \<noteq> (92 :: nat)"
    by (simp_all add: plain_char_def Let_def)
  then have "quote_rune isPrint (of_char c) = [c]"
    by (simp add: quote_rune_def IsPrint_def encode_rune_def)
  with Cons \<open>(of_char c :: nat) < 127\<close> show ?case by (simp add: quote_runes_ascii)
qed simp

lemma Quote_plain: "list_all plain_char s \<Longrightarrow> Quote isPrint s = CHR 0x22 # s @ [CHR 0x22]"
  by (simp add: Quote_def quote_runes_plain)

section \<open>Splitting and trimming\<close>

text \<open>\<open>strings.Cut\<close> at one byte: the text before it and the text after it.\<close>

definition Cut :: "char \<Rightarrow> bytes \<Rightarrow> bytes \<times> bytes" where
  "Cut c s = (takeWhile (\<lambda>x. x \<noteq> c) s, drop 1 (dropWhile (\<lambda>x. x \<noteq> c) s))"

text \<open>\<open>strings.Split\<close> at one byte.\<close>

fun Split :: "char \<Rightarrow> bytes \<Rightarrow> bytes list" where
  "Split c [] = [[]]"
| "Split c (x # s) =
     (if x = c then [] # Split c s
      else case Split c s of [] \<Rightarrow> [[x]] | p # ps \<Rightarrow> (x # p) # ps)"

text \<open>The encodings of the runes \<open>unicode.IsSpace\<close> accepts.\<close>

definition space_encodings :: "bytes list" where
  "space_encodings = map encode_rune
     ([9, 10, 11, 12, 13, 32, 133, 160, 5760] @ [8192..<8203] @ [8232, 8233, 8239, 8287, 12288])"

lemma find_SomeD: "find P xs = Some x \<Longrightarrow> P x"
  by (auto simp: find_Some_iff)

lemma drop_prefix_shorter: "HasPrefix s e \<Longrightarrow> e \<noteq> [] \<Longrightarrow> length (drop (length e) s) < length s"
  by (cases s; cases e) (simp_all add: HasPrefix_def)

lemma take_suffix_shorter: "suffix e s \<Longrightarrow> e \<noteq> [] \<Longrightarrow> length (take (length s - length e) s) < length s"
  by (auto simp: suffix_def)

function TrimLeft_space :: "bytes \<Rightarrow> bytes" where
  "TrimLeft_space s =
     (case find (\<lambda>e. e \<noteq> [] \<and> HasPrefix s e) space_encodings of
        None \<Rightarrow> s | Some e \<Rightarrow> TrimLeft_space (drop (length e) s))"
  by pat_completeness auto
termination
  by (relation "measure length") (use drop_prefix_shorter in \<open>auto dest!: find_SomeD\<close>)

function TrimRight_space :: "bytes \<Rightarrow> bytes" where
  "TrimRight_space s =
     (case find (\<lambda>e. e \<noteq> [] \<and> suffix e s) space_encodings of
        None \<Rightarrow> s | Some e \<Rightarrow> TrimRight_space (take (length s - length e) s))"
  by pat_completeness auto
termination
  by (relation "measure length") (use take_suffix_shorter in \<open>auto dest!: find_SomeD\<close>)

declare TrimLeft_space.simps [simp del] TrimRight_space.simps [simp del]

definition TrimSpace :: "bytes \<Rightarrow> bytes" where
  "TrimSpace s = TrimRight_space (TrimLeft_space s)"

text \<open>A text that neither starts nor ends with white space.\<close>

definition trimmed :: "bytes \<Rightarrow> bool" where
  "trimmed s \<longleftrightarrow> list_all (\<lambda>e. \<not> HasPrefix s e \<and> \<not> suffix e s) space_encodings"

lemma TrimSpace_trimmed: "trimmed s \<Longrightarrow> TrimSpace s = s"
proof -
  assume t: "trimmed s"
  have "find (\<lambda>e. e \<noteq> [] \<and> HasPrefix s e) space_encodings = None"
    "find (\<lambda>e. e \<noteq> [] \<and> suffix e s) space_encodings = None"
    using t by (auto simp: trimmed_def find_None_iff list_all_iff)
  then show ?thesis
    by (simp add: TrimSpace_def TrimLeft_space.simps [of s] TrimRight_space.simps [of s])
qed

lemma space_encodings_nonempty: "[] \<notin> set space_encodings"
  by (auto simp: space_encodings_def encode_rune_def Let_def)

lemma TrimLeft_space_prefix: "e \<in> set space_encodings \<Longrightarrow> \<not> HasPrefix (TrimLeft_space s) e"
proof (induction s rule: TrimLeft_space.induct)
  case (1 s)
  show ?case
  proof (cases "find (\<lambda>e. e \<noteq> [] \<and> HasPrefix s e) space_encodings")
    case None
    then have "\<not> (e \<noteq> [] \<and> HasPrefix s e)" using 1(2) by (auto simp: find_None_iff)
    moreover have "e \<noteq> []" using 1(2) space_encodings_nonempty by metis
    ultimately show ?thesis by (simp add: TrimLeft_space.simps [of s] None)
  next
    case (Some e')
    then show ?thesis using 1 by (simp add: TrimLeft_space.simps [of s])
  qed
qed

lemma TrimRight_space_suffix:
  "prefix (TrimRight_space s) s \<and> (e \<in> set space_encodings \<longrightarrow> \<not> suffix e (TrimRight_space s))"
proof (induction s rule: TrimRight_space.induct)
  case (1 s)
  show ?case
  proof (cases "find (\<lambda>e. e \<noteq> [] \<and> suffix e s) space_encodings")
    case None
    then have "\<not> (e \<noteq> [] \<and> suffix e s)" if "e \<in> set space_encodings" using that by (auto simp: find_None_iff)
    moreover have "e \<noteq> []" if "e \<in> set space_encodings" using that space_encodings_nonempty by metis
    ultimately show ?thesis by (simp add: TrimRight_space.simps [of s] None)
  next
    case (Some e')
    then have "prefix (TrimRight_space s) (take (length s - length e') s)"
      using 1 [OF Some] by (simp add: TrimRight_space.simps [of s])
    then have "prefix (TrimRight_space s) s"
      using take_is_prefix prefix_order.trans by blast
    then show ?thesis using 1 [OF Some] Some by (simp add: TrimRight_space.simps [of s])
  qed
qed

lemma trimmed_TrimSpace: "trimmed (TrimSpace s)"
proof -
  have "\<not> HasPrefix (TrimSpace s) e" if "e \<in> set space_encodings" for e
    using TrimLeft_space_prefix [OF that, of s] TrimRight_space_suffix [of "TrimLeft_space s" e]
      prefix_order.trans [of e "TrimSpace s" "TrimLeft_space s"]
    by (auto simp: TrimSpace_def HasPrefix_iff_prefix)
  then show ?thesis
    using TrimRight_space_suffix [of "TrimLeft_space s"] by (auto simp: trimmed_def list_all_iff TrimSpace_def)
qed

lemma Split_nonempty [simp]: "Split c s \<noteq> []"
  by (cases s) (auto split: list.splits)

lemma Split_no_sep: "c \<notin> set s \<Longrightarrow> Split c s = [s]"
  by (induction s) auto

lemma Split_append: "c \<notin> set x \<Longrightarrow> Split c (x @ c # s) = x # Split c s"
  by (induction x) auto

lemma Split_sep_by: "xs \<noteq> [] \<Longrightarrow> list_all (\<lambda>x. c \<notin> set x) xs \<Longrightarrow> Split c (sep_by c xs) = xs"
  by (induction c xs rule: sep_by.induct) (auto simp: Split_no_sep Split_append)

section \<open>The query of a URL\<close>

text \<open>\<open>url.QueryUnescape\<close>: a percent sign needs two hexadecimal digits.\<close>

fun QueryUnescape :: "bytes \<Rightarrow> bytes option" where
  "QueryUnescape [] = Some []"
| "QueryUnescape (c # s) =
     (if c = CHR ''%'' then
        (case s of
           a # b # t \<Rightarrow> if is_hex a \<and> is_hex b
             then map_option (\<lambda>u. char_of (16 * hex_val a + hex_val b) # u) (QueryUnescape t) else None
         | _ \<Rightarrow> None)
      else map_option (\<lambda>u. (if c = CHR ''+'' then CHR '' '' else c) # u) (QueryUnescape s))"

text \<open>One part of the query between ampersands: a pair, or nothing if the part is dropped.\<close>

definition query_pair :: "bytes \<Rightarrow> (bytes \<times> bytes) option" where
  "query_pair part =
     (if CHR '';'' \<in> set part \<or> part = [] then None
      else case Cut (CHR ''='') part of (key, val) \<Rightarrow>
        (case QueryUnescape key of None \<Rightarrow> None
         | Some k \<Rightarrow> (case QueryUnescape val of None \<Rightarrow> None | Some v \<Rightarrow> Some (k, v))))"

definition ParseQuery :: "bytes \<Rightarrow> (bytes \<times> bytes) list" where
  "ParseQuery q = List.map_filter query_pair (Split (CHR ''&'') q)"

text \<open>\<open>r.URL.Query().Get(key)\<close>: the first value of the key, or the empty text.\<close>

definition Query_Get :: "bytes \<Rightarrow> bytes \<Rightarrow> bytes" where
  "Query_Get q key = (case map_of (ParseQuery q) key of None \<Rightarrow> [] | Some v \<Rightarrow> v)"

text \<open>What \<open>url.QueryEscape\<close> keeps.\<close>

definition unreserved :: "char \<Rightarrow> bool" where
  "unreserved c \<longleftrightarrow> c \<notin> {CHR ''%'', CHR ''+'', CHR ''&'', CHR '';'', CHR ''=''}"

lemma QueryUnescape_unreserved: "list_all unreserved s \<Longrightarrow> QueryUnescape s = Some s"
  by (induction s) (auto simp: unreserved_def)

lemma Query_Get_single:
  assumes "list_all unreserved k" and "list_all unreserved v"
  shows "Query_Get (k @ CHR ''='' # v) k = v"
proof -
  have k: "takeWhile (\<lambda>x. x \<noteq> CHR ''='') (k @ CHR ''='' # v) = k"
    "dropWhile (\<lambda>x. x \<noteq> CHR ''='') (k @ CHR ''='' # v) = CHR ''='' # v"
    using assms by (auto simp: list_all_iff unreserved_def)
  have "CHR '';'' \<notin> set (k @ CHR ''='' # v)" "CHR ''&'' \<notin> set (k @ CHR ''='' # v)"
    using assms by (auto simp: list_all_iff unreserved_def)
  then show ?thesis
    using assms k by (simp add: Query_Get_def ParseQuery_def Split_no_sep query_pair_def Cut_def
        QueryUnescape_unreserved List.map_filter_simps)
qed

end
