(* ===== verification/Breaker.thy ===== *)
theory Breaker
  imports Go_Prelude
begin

text \<open>
  \<open>internal/breaker/breaker.go\<close>: the per-shard circuit breaker and the registry that hands
  out one per shard. Every method runs under the mutex of its receiver, so a concurrent run is
  a sequence of the methods below. A time is the reading of the monotonic clock in
  nanoseconds; \<open>Since\<close> saturates as \<open>time.Time.Sub\<close> does.
\<close>

type_synonym time = int
type_synonym duration = int

definition time_Sub :: "time \<Rightarrow> time \<Rightarrow> duration" where
  "time_Sub t u = max (- (2 ^ 63)) (min (2 ^ 63 - 1) (t - u))"

definition Second :: duration where
  "Second = 1000000000"

definition Minute :: duration where
  "Minute = 60 * Second"

lemma time_Sub_ge: "0 \<le> d \<Longrightarrow> in_int64 d \<Longrightarrow> d \<le> time_Sub t u \<longleftrightarrow> d \<le> t - u"
  by (auto simp: time_Sub_def in_range_def)

lemma time_Sub_gt: "in_int64 d \<Longrightarrow> d < 2 ^ 63 - 1 \<Longrightarrow> d < time_Sub t u \<longleftrightarrow> d < t - u"
  by (auto simp: time_Sub_def in_range_def)

section \<open>The breaker\<close>

datatype State = Closed | Open | HalfOpen

fun State_String :: "State \<Rightarrow> bytes" where
  "State_String Open = ''OPEN''"
| "State_String HalfOpen = ''HALF_OPEN''"
| "State_String Closed = ''CLOSED''"

record Breaker =
  state :: State
  consecutiveFails :: int
  openedAt :: time
  FailureThreshold :: int
  ResetTimeout :: duration

datatype breaker_error = ErrOpen

definition New :: Breaker where
  "New = \<lparr>state = Closed, consecutiveFails = 0, openedAt = 0,
     FailureThreshold = 5, ResetTimeout = 10 * Second\<rparr>"

definition Allow :: "time \<Rightarrow> Breaker \<Rightarrow> breaker_error option \<times> Breaker" where
  "Allow now b =
     (case state b of
        Open \<Rightarrow>
          if ResetTimeout b \<le> time_Sub now (openedAt b) then (None, b\<lparr>state := HalfOpen\<rparr>)
          else (Some ErrOpen, b)
      | _ \<Rightarrow> (None, b))"

definition Success :: "Breaker \<Rightarrow> Breaker" where
  "Success b = b\<lparr>consecutiveFails := 0, state := Closed\<rparr>"

definition Failure :: "time \<Rightarrow> Breaker \<Rightarrow> Breaker" where
  "Failure now b =
     (let b = b\<lparr>consecutiveFails := wrap64 (consecutiveFails b + 1)\<rparr> in
      if state b = HalfOpen \<or> FailureThreshold b \<le> consecutiveFails b
      then b\<lparr>state := Open, openedAt := now\<rparr>
      else b)"

section \<open>The interface callers rely on\<close>

text \<open>
  A caller asks \<open>allow\<close> before a call and reports the outcome with \<open>success\<close> or \<open>failure\<close>.
\<close>

locale circuit_breaker =
  fixes allow :: "time \<Rightarrow> 'b \<Rightarrow> breaker_error option \<times> 'b"
    and success :: "'b \<Rightarrow> 'b" and failure :: "time \<Rightarrow> 'b \<Rightarrow> 'b"
    and closed :: "'b \<Rightarrow> bool"
  assumes closed_success: "closed (success b)"
    and allow_closed: "closed b \<Longrightarrow> allow now b = (None, b)"
    and allow_keeps_open: "closed (snd (allow now b)) \<longleftrightarrow> closed b"
    and failure_keeps_open: "closed (failure now b) \<Longrightarrow> closed b"
    and deny_unchanged: "fst (allow now b) \<noteq> None \<Longrightarrow> snd (allow now b) = b"
begin

lemma denied_not_closed: "fst (allow now b) \<noteq> None \<Longrightarrow> \<not> closed b"
  using allow_closed by force

lemma success_recovers: "allow now (success b) = (None, success b)"
  by (simp add: allow_closed closed_success)

text \<open>Nothing but a success closes a breaker that is not closed.\<close>

lemma stays_open:
  "\<not> closed b \<Longrightarrow> \<not> closed (fold (\<lambda>(now, fail) b. if fail then failure now b else snd (allow now b)) calls b)"
proof (induction calls arbitrary: b)
  case (Cons call calls)
  obtain now fail where call: "call = (now, fail)" by (cases call)
  have "\<not> closed (if fail then failure now b else snd (allow now b))"
    using Cons.prems allow_keeps_open failure_keeps_open by auto
  with Cons.IH show ?case by (simp add: call)
qed simp

end

definition closed :: "Breaker \<Rightarrow> bool" where
  "closed b \<longleftrightarrow> state b = Closed"

interpretation breaker: circuit_breaker Allow Success Failure closed
  by unfold_locales
    (auto simp: Allow_def Success_def Failure_def closed_def Let_def split: State.splits if_splits)

section \<open>Runs\<close>

datatype op = OpAllow time | OpSuccess | OpFailure time

fun apply_op :: "op \<Rightarrow> Breaker \<Rightarrow> Breaker" where
  "apply_op (OpAllow now) b = snd (Allow now b)"
| "apply_op OpSuccess b = Success b"
| "apply_op (OpFailure now) b = Failure now b"

text \<open>The specification of the counter: the failures since the last success.\<close>

fun trailing :: "op list \<Rightarrow> nat \<Rightarrow> nat" where
  "trailing [] n = n"
| "trailing (OpAllow now # ops) n = trailing ops n"
| "trailing (OpSuccess # ops) n = trailing ops 0"
| "trailing (OpFailure now # ops) n = trailing ops (Suc n)"

definition failures_since_success :: "op list \<Rightarrow> nat" where
  "failures_since_success ops = trailing ops 0"

text \<open>
  \<open>counts b n\<close>: the counter is \<open>n\<close>, and the breaker is not closed exactly from the threshold on.
  A half-open breaker keeps its count, so the test for it in \<open>Failure\<close> is implied by the second.
\<close>

definition counts :: "Breaker \<Rightarrow> nat \<Rightarrow> bool" where
  "counts b n \<longleftrightarrow> consecutiveFails b = int n \<and> 0 < FailureThreshold b \<and>
     (state b \<noteq> Closed \<longleftrightarrow> FailureThreshold b \<le> int n)"

lemma counts_New: "counts New 0"
  by (simp add: counts_def New_def)

lemma counts_Allow: "counts b n \<Longrightarrow> counts (snd (Allow now b)) n"
  by (auto simp: counts_def Allow_def split: State.splits)

lemma counts_Success: "counts b n \<Longrightarrow> counts (Success b) 0"
  by (simp add: counts_def Success_def)

lemma counts_Failure:
  assumes "counts b n" and "Suc n < 2 ^ 63"
  shows "counts (Failure now b) (Suc n)"
proof -
  have "int (Suc n) < 2 ^ 63" using assms(2) by (metis of_nat_less_numeral_power_cancel_iff)
  then have "wrap64 (int n + 1) = int n + 1"
    by (intro wrap_id) (simp_all add: in_range_def)
  with assms(1) show ?thesis
    by (auto simp: counts_def Failure_def Let_def)
qed

lemma counts_run:
  "counts b n \<Longrightarrow> n + length ops < 2 ^ 63 \<Longrightarrow> counts (fold apply_op ops b) (trailing ops n)"
proof (induction ops arbitrary: b n)
  case (Cons op ops)
  then show ?case
    by (cases op) (auto simp: counts_Allow intro!: Cons.IH counts_Failure counts_Success)
qed simp

lemma config_kept: "FailureThreshold (fold apply_op ops b) = FailureThreshold b"
  "ResetTimeout (fold apply_op ops b) = ResetTimeout b"
proof -
  have "FailureThreshold (apply_op op b) = FailureThreshold b \<and> ResetTimeout (apply_op op b) = ResetTimeout b" for op b
    by (cases op) (simp_all add: Allow_def Success_def Failure_def Let_def split: State.split)
  then show "FailureThreshold (fold apply_op ops b) = FailureThreshold b"
    "ResetTimeout (fold apply_op ops b) = ResetTimeout b"
    by (induction ops arbitrary: b) simp_all
qed

section \<open>Properties of the breaker\<close>

text \<open>
  C10: a breaker is tripped by five failures in a row and by nothing less. After any sequence
  of calls on a new breaker the counter is the number of failures reported since the last
  success, and the breaker is closed exactly when that number is below five.
\<close>

theorem breaker_trips_exactly_at_threshold:
  assumes "length ops < 2 ^ 63"
  shows "consecutiveFails (fold apply_op ops New) = int (failures_since_success ops) \<and>
    (closed (fold apply_op ops New) \<longleftrightarrow> failures_since_success ops < 5)"
proof -
  have "counts (fold apply_op ops New) (failures_since_success ops)"
    unfolding failures_since_success_def using counts_run [OF counts_New, of ops] assms by simp
  moreover have "FailureThreshold (fold apply_op ops New) = 5"
    by (simp add: config_kept New_def)
  ultimately show ?thesis by (auto simp: counts_def closed_def)
qed

theorem breaker_trips_exactly_at_threshold_witness:
  "consecutiveFails (fold apply_op [OpSuccess, OpFailure 1, OpFailure 2, OpFailure 3, OpFailure 4, OpFailure 5] New) =
     int (failures_since_success [OpSuccess, OpFailure 1, OpFailure 2, OpFailure 3, OpFailure 4, OpFailure 5]) \<and>
   (closed (fold apply_op [OpSuccess, OpFailure 1, OpFailure 2, OpFailure 3, OpFailure 4, OpFailure 5] New) \<longleftrightarrow>
     failures_since_success [OpSuccess, OpFailure 1, OpFailure 2, OpFailure 3, OpFailure 4, OpFailure 5] < 5)"
  by (rule breaker_trips_exactly_at_threshold) simp


text \<open>What the callers of a run see from \<open>Allow\<close>.\<close>

fun allow_results :: "op list \<Rightarrow> Breaker \<Rightarrow> breaker_error option list" where
  "allow_results [] b = []"
| "allow_results (OpAllow now # ops) b = fst (Allow now b) # allow_results ops (snd (Allow now b))"
| "allow_results (op # ops) b = allow_results ops (apply_op op b)"

fun no_success_before :: "time \<Rightarrow> time \<Rightarrow> op \<Rightarrow> bool" where
  "no_success_before t u (OpAllow now) = (t \<le> now \<and> now < u)"
| "no_success_before t u OpSuccess = False"
| "no_success_before t u (OpFailure now) = (t \<le> now \<and> now < u)"

lemma open_run:
  assumes "0 \<le> d" and "in_int64 d"
  shows "state b = Open \<Longrightarrow> t \<le> openedAt b \<Longrightarrow> ResetTimeout b = d \<Longrightarrow>
    list_all (no_success_before t (t + d)) ops \<Longrightarrow>
    list_all (\<lambda>r. r = Some ErrOpen) (allow_results ops b) \<and> state (fold apply_op ops b) = Open"
proof (induction ops arbitrary: b)
  case (Cons op ops)
  show ?case
  proof (cases op)
    case (OpAllow now)
    with Cons.prems assms have "Allow now b = (Some ErrOpen, b)"
      by (auto simp: Allow_def time_Sub_ge)
    with OpAllow Cons show ?thesis by simp
  next
    case (OpFailure now)
    have "state (Failure now b) = Open" "t \<le> openedAt (Failure now b)" "ResetTimeout (Failure now b) = d"
      using Cons.prems OpFailure by (auto simp: Failure_def Let_def)
    from Cons.IH [OF this] OpFailure Cons.prems show ?thesis by simp
  qed (use Cons.prems in simp)
qed simp

text \<open>
  an open breaker contains the outage. From the moment it is opened, and for its whole
  reset timeout, every \<open>Allow\<close> fails with \<open>ErrOpen\<close> and the breaker stays open, whatever mix
  of further attempts and late failure reports comes in between: no number of attempts moves
  it to half-open early, and a late failure only extends the outage.
\<close>

theorem open_breaker_denies:
  assumes "state b = Open" and "0 \<le> ResetTimeout b" and "in_int64 (ResetTimeout b)"
    and "list_all (no_success_before (openedAt b) (openedAt b + ResetTimeout b)) ops"
  shows "list_all (\<lambda>r. r = Some ErrOpen) (allow_results ops b) \<and> state (fold apply_op ops b) = Open"
  using open_run [OF assms(2,3,1) order.refl refl assms(4)] .

theorem open_breaker_denies_witness:
  "list_all (\<lambda>r. r = Some ErrOpen)
     (allow_results [OpAllow 7, OpFailure 8, OpAllow 900] (New\<lparr>state := Open, consecutiveFails := 5, openedAt := 6\<rparr>)) \<and>
   state (fold apply_op [OpAllow 7, OpFailure 8, OpAllow 900] (New\<lparr>state := Open, consecutiveFails := 5, openedAt := 6\<rparr>)) = Open"
  by (rule open_breaker_denies) (simp_all add: New_def Second_def in_range_def)

text \<open>
  C38: an open breaker recovers. At the first \<open>Allow\<close> at or after the end of its reset timeout
  the call is admitted; reporting success closes the breaker with a cleared counter, so that it
  again takes a full threshold of failures to trip it, and reporting failure opens it for
  another full timeout counted from that failure.
\<close>

theorem breaker_probe_decides:
  assumes "state b = Open" and "0 \<le> ResetTimeout b" and "in_int64 (ResetTimeout b)"
    and "openedAt b + ResetTimeout b \<le> now"
  shows "fst (Allow now b) = None \<and> closed (Success (snd (Allow now b))) \<and>
    consecutiveFails (Success (snd (Allow now b))) = 0 \<and>
    state (Failure later (snd (Allow now b))) = Open \<and>
    openedAt (Failure later (snd (Allow now b))) = later"
  using assms by (simp add: Allow_def Success_def Failure_def closed_def time_Sub_ge Let_def)

theorem breaker_probe_decides_witness:
  "fst (Allow 99 (New\<lparr>state := Open, openedAt := 6, ResetTimeout := 93\<rparr>)) = None \<and>
   closed (Success (snd (Allow 99 (New\<lparr>state := Open, openedAt := 6, ResetTimeout := 93\<rparr>)))) \<and>
   consecutiveFails (Success (snd (Allow 99 (New\<lparr>state := Open, openedAt := 6, ResetTimeout := 93\<rparr>)))) = 0 \<and>
   state (Failure 120 (snd (Allow 99 (New\<lparr>state := Open, openedAt := 6, ResetTimeout := 93\<rparr>)))) = Open \<and>
   openedAt (Failure 120 (snd (Allow 99 (New\<lparr>state := Open, openedAt := 6, ResetTimeout := 93\<rparr>)))) = 120"
  by (rule breaker_probe_decides) (simp_all add: in_range_def)

text \<open>
  the half-open state admits every call, not a single probe. Once the reset timeout is over,
  any number of attempts made before the first outcome is reported are all admitted, and the
  breaker stays half-open.
\<close>

theorem half_open_admits_all:
  assumes "state b = Open" and "0 \<le> ResetTimeout b" and "in_int64 (ResetTimeout b)"
    and "openedAt b + ResetTimeout b \<le> now"
  shows "allow_results (map OpAllow (now # nows)) b = replicate (Suc (length nows)) None \<and>
    state (fold apply_op (map OpAllow (now # nows)) b) = HalfOpen"
proof -
  have half: "allow_results (map OpAllow xs) c = replicate (length xs) None \<and>
      state (fold apply_op (map OpAllow xs) c) = HalfOpen" if "state c = HalfOpen" for xs c
    using that by (induction xs arbitrary: c) (simp_all add: Allow_def)
  have "Allow now b = (None, b\<lparr>state := HalfOpen\<rparr>)"
    using assms by (simp add: Allow_def time_Sub_ge)
  then show ?thesis using half [of "b\<lparr>state := HalfOpen\<rparr>" nows] by simp
qed

theorem half_open_admits_all_witness:
  "allow_results (map OpAllow (99 # [99, 100])) (New\<lparr>state := Open, openedAt := 6, ResetTimeout := 93\<rparr>) =
     replicate (Suc (length [99, 100 :: time])) None \<and>
   state (fold apply_op (map OpAllow (99 # [99, 100])) (New\<lparr>state := Open, openedAt := 6, ResetTimeout := 93\<rparr>)) = HalfOpen"
  by (rule half_open_admits_all) (simp_all add: in_range_def)

section \<open>The registry of breakers\<close>

text \<open>
  \<open>For\<close> returns the pointer filed under the shard's name, and entries are neither replaced nor
  removed, so a pointer is identified with the name: \<open>For\<close> makes sure that the entry exists and
  \<open>on_breaker\<close> runs a method of the breaker it points to.
\<close>

type_synonym BreakerRegistry = "bytes \<rightharpoonup> Breaker"

definition NewRegistry :: BreakerRegistry where
  "NewRegistry = Map.empty"

definition For :: "bytes \<Rightarrow> BreakerRegistry \<Rightarrow> BreakerRegistry" where
  "For shardID r = (case r shardID of None \<Rightarrow> r(shardID \<mapsto> New) | Some _ \<Rightarrow> r)"

definition breaker_of :: "BreakerRegistry \<Rightarrow> bytes \<Rightarrow> Breaker" where
  "breaker_of r shardID = (case r shardID of None \<Rightarrow> New | Some b \<Rightarrow> b)"

definition on_breaker :: "bytes \<Rightarrow> (Breaker \<Rightarrow> Breaker) \<Rightarrow> BreakerRegistry \<Rightarrow> BreakerRegistry" where
  "on_breaker shardID f r = (case r shardID of None \<Rightarrow> r | Some b \<Rightarrow> r(shardID \<mapsto> f b))"

definition Snapshot :: "BreakerRegistry \<Rightarrow> (bytes \<rightharpoonup> State)" where
  "Snapshot r = (\<lambda>shardID. map_option state (r shardID))"

text \<open>The calls of one run, each tagged with the shard it is about, as callers make them.\<close>

definition registry_op :: "bytes \<times> op \<Rightarrow> BreakerRegistry \<Rightarrow> BreakerRegistry" where
  "registry_op c r = on_breaker (fst c) (apply_op (snd c)) (For (fst c) r)"

lemma breaker_of_registry_op:
  "breaker_of (registry_op c r) sid = (if fst c = sid then apply_op (snd c) (breaker_of r sid) else breaker_of r sid)"
  by (auto simp: registry_op_def on_breaker_def For_def breaker_of_def split: option.splits)

text \<open>
  one shard's outage is its own. In any run of calls on the registry, the breaker of a shard
  is in the state that the calls about that shard alone, in their order, would put a new breaker
  in; the calls about the other shards have no effect on it.
\<close>

theorem breakers_are_independent:
  "breaker_of (fold registry_op calls NewRegistry) sid =
     fold apply_op (map snd (filter (\<lambda>c. fst c = sid) calls)) New"
proof -
  have "breaker_of (fold registry_op calls r) sid =
      fold apply_op (map snd (filter (\<lambda>c. fst c = sid) calls)) (breaker_of r sid)" for r
    by (induction calls arbitrary: r) (simp_all add: breaker_of_registry_op)
  then show ?thesis by (simp add: breaker_of_def NewRegistry_def)
qed

lemma Snapshot_breaker_of: "Snapshot r sid = Some s \<Longrightarrow> s = state (breaker_of r sid)"
  by (auto simp: Snapshot_def breaker_of_def)

text \<open>Looking at the registry does not create breakers; asking for one does.\<close>

lemma dom_registry_run: "dom (fold registry_op calls r) = fst ` set calls \<union> dom r"
proof (induction calls arbitrary: r)
  case (Cons c calls)
  have "dom (registry_op c r) = insert (fst c) (dom r)"
    by (auto simp: registry_op_def on_breaker_def For_def split: option.splits if_splits)
  with Cons show ?case by simp
qed simp

end
