(* ===== verification/Secrets.thy ===== *)
theory Secrets
  imports Go_Prelude
begin

text \<open>
  \<open>internal/secrets/provider.go\<close>: the credentials of a shard, resolved from a
  \<open>credential_ref\<close> by the environment-variable provider. The environment of the process is an
  argument. \<open>strings.ToUpper\<close> maps the letters of an ASCII text one by one; what it does to
  other texts depends on the Unicode tables and is the parameter \<open>upper\<close>.
\<close>

record Credentials =
  Username :: bytes
  Password :: bytes

datatype secrets_error = NoUser bytes bytes

text \<open>The interface \<open>Provider\<close>: what the pool is given.\<close>

type_synonym 'e Provider = "bytes \<Rightarrow> ('e, Credentials) result"

section \<open>Standard library\<close>

type_synonym environment = "bytes \<rightharpoonup> bytes"

definition Getenv :: "environment \<Rightarrow> bytes \<Rightarrow> bytes" where
  "Getenv env k = (case env k of None \<Rightarrow> [] | Some v \<Rightarrow> v)"

definition is_ascii :: "bytes \<Rightarrow> bool" where
  "is_ascii s \<longleftrightarrow> list_all (\<lambda>c. (of_char c :: nat) < 128) s"

definition upper_ascii :: "char \<Rightarrow> char" where
  "upper_ascii c = (if 97 \<le> (of_char c :: nat) \<and> (of_char c :: nat) \<le> 122
     then char_of ((of_char c :: nat) - 32) else c)"

definition ToUpper :: "(bytes \<Rightarrow> bytes) \<Rightarrow> bytes \<Rightarrow> bytes" where
  "ToUpper upper s = (if is_ascii s then map upper_ascii s else upper s)"

section \<open>The environment provider\<close>

definition replace_sep :: "char \<Rightarrow> char" where
  "replace_sep c = (if c \<in> {CHR ''/'', CHR ''-'', CHR ''.''} then CHR ''_'' else c)"

definition envKey :: "(bytes \<Rightarrow> bytes) \<Rightarrow> bytes \<Rightarrow> bytes" where
  "envKey upper ref = ToUpper upper (map replace_sep ref)"

definition EnvProvider_Resolve :: "(bytes \<Rightarrow> bytes) \<Rightarrow> environment \<Rightarrow> secrets_error Provider" where
  "EnvProvider_Resolve upper env credentialRef =
     (let key = envKey upper credentialRef;
          user = Getenv env (key @ ''_USER'');
          pass = Getenv env (key @ ''_PASSWORD'')
      in if user = [] then Inl (NoUser key credentialRef)
         else Inr \<lparr>Username = user, Password = pass\<rparr>)"

section \<open>Properties\<close>

lemma replace_sep_ascii: "(of_char (replace_sep c) :: nat) < 128 \<longleftrightarrow> (of_char c :: nat) < 128"
  by (auto simp: replace_sep_def)

lemma is_ascii_replace [simp]: "is_ascii (map replace_sep s) \<longleftrightarrow> is_ascii s"
  by (simp add: is_ascii_def list_all_iff replace_sep_ascii)

lemma envKey_ascii: "is_ascii ref \<Longrightarrow> envKey upper ref = map (upper_ascii \<circ> replace_sep) ref"
  by (simp add: envKey_def ToUpper_def)

text \<open>
  the documented example. The reference \<open>secret/payment/postgresql\<close> is read from
  \<open>SECRET_PAYMENT_POSTGRESQL_USER\<close> and \<open>SECRET_PAYMENT_POSTGRESQL_PASSWORD\<close>; an unset or empty
  user is the error and an unset password is the empty password.
\<close>

theorem env_provider_documented:
  "EnvProvider_Resolve upper env ''secret/payment/postgresql'' =
     (case env ''SECRET_PAYMENT_POSTGRESQL_USER'' of
        Some (c # user) \<Rightarrow> Inr \<lparr>Username = c # user,
          Password = (case env ''SECRET_PAYMENT_POSTGRESQL_PASSWORD'' of None \<Rightarrow> [] | Some p \<Rightarrow> p)\<rparr>
      | _ \<Rightarrow> Inl (NoUser ''SECRET_PAYMENT_POSTGRESQL'' ''secret/payment/postgresql''))"
proof -
  have "envKey upper ''secret/payment/postgresql'' = ''SECRET_PAYMENT_POSTGRESQL''"
    by (simp add: envKey_def ToUpper_def is_ascii_def replace_sep_def upper_ascii_def char_of_def bit_0)
  then show ?thesis
    by (simp add: EnvProvider_Resolve_def Getenv_def Let_def split: option.split list.split)
qed

text \<open>
  references that differ only in their separators or in the case of their letters share one
  pair of variables, so the provider gives two such shards the same credentials.
\<close>

theorem env_provider_conflates:
  assumes "is_ascii ref" and "is_ascii ref'"
    and "map (upper_ascii \<circ> replace_sep) ref = map (upper_ascii \<circ> replace_sep) ref'"
    and "EnvProvider_Resolve upper env ref = Inr creds"
  shows "EnvProvider_Resolve upper env ref' = Inr creds"
  using assms by (simp add: EnvProvider_Resolve_def envKey_ascii Let_def split: if_splits)

theorem env_provider_conflates_witness:
  "EnvProvider_Resolve id (Map.empty(''PAY_EU_USER'' \<mapsto> ''app'')) ''pay.EU'' = Inr \<lparr>Username = ''app'', Password = []\<rparr>"
proof (rule env_provider_conflates [of "''pay/eu''"])
  show "map (upper_ascii \<circ> replace_sep) ''pay/eu'' = map (upper_ascii \<circ> replace_sep) ''pay.EU''"
    by (simp add: replace_sep_def upper_ascii_def char_of_def bit_0)
  show "EnvProvider_Resolve id (Map.empty(''PAY_EU_USER'' \<mapsto> ''app'')) ''pay/eu'' = Inr \<lparr>Username = ''app'', Password = []\<rparr>"
    by (simp add: EnvProvider_Resolve_def envKey_def ToUpper_def is_ascii_def replace_sep_def
        upper_ascii_def char_of_def bit_0 Getenv_def)
qed (simp_all add: is_ascii_def)

end
