(* ===== verification/Pool.thy ===== *)
theory Pool
  imports Model Breaker Secrets
begin

text \<open>
  \<open>internal/pool/manager.go\<close>: one connection pool per shard and endpoint, created on first use,
  reaped when idle, behind the shard's circuit breaker. The driver (\<open>pgxpool\<close>) is an argument:
  what one call of \<open>ParseConfig\<close>, \<open>NewWithConfig\<close> and \<open>Acquire\<close> returns. Pools are handles; an
  operation returns the handles it closes. \<open>poolFor\<close> unlocks the manager while it builds a pool,
  and takes what the other goroutines did to the map in the meantime as an argument.
\<close>

section \<open>Data\<close>

type_synonym pool = nat
type_synonym conn = nat

record Config =
  MaxConns :: int
  MinConns :: int
  MaxConnLifetime :: duration
  MaxConnIdleTime :: duration
  IdlePoolTTL :: duration

definition DefaultConfig :: Config where
  "DefaultConfig = \<lparr>MaxConns = 10, MinConns = 0, MaxConnLifetime = 30 * Minute,
     MaxConnIdleTime = 5 * Minute, IdlePoolTTL = 10 * Minute\<rparr>"

record entry =
  epool :: pool
  lastUsed :: time

type_synonym pools = "bytes \<rightharpoonup> entry"

record Manager =
  cfg :: Config
  breakers :: BreakerRegistry
  mpools :: pools
  stopReap :: bool

definition NewManager :: "Config \<Rightarrow> BreakerRegistry \<Rightarrow> Manager" where
  "NewManager c bs = \<lparr>cfg = c, breakers = bs, mpools = Map.empty, stopReap = False\<rparr>"

definition poolKey :: "bytes \<Rightarrow> Endpoint \<Rightarrow> bytes" where
  "poolKey shardID ep = shardID @ ''|'' @ Endpoint_String ep"

text \<open>The driver's configuration: the settings the manager overwrites, and the rest.\<close>

record 'c pgConfig =
  pgConn :: 'c
  pgMaxConns :: int
  pgMinConns :: int
  pgMaxConnLifetime :: duration
  pgMaxConnIdleTime :: duration

text \<open>What one call of each of the driver's functions returns, and of the secrets provider.\<close>

record ('c, 'd, 's) driver =
  ParseConfig :: "bytes \<Rightarrow> ('d, 'c pgConfig) result"
  NewWithConfig :: "'c pgConfig \<Rightarrow> ('d, pool) result"
  AcquireConn :: "pool \<Rightarrow> ('d, conn) result"
  ResolveSecret :: "'s Provider"

datatype ('d, 's) pool_error =
    BreakerOpen bytes breaker_error
  | ResolveCredentials bytes 's
  | ParseConfigFailed bytes 'd
  | CreatePool bytes Endpoint 'd
  | AcquireFailed bytes Endpoint 'd

section \<open>Finding or creating a pool\<close>

definition dsn :: "Credentials \<Rightarrow> Endpoint \<Rightarrow> bytes" where
  "dsn creds ep = ''postgres://'' @ Username creds @ '':'' @ Password creds @ ''@'' @
     Host ep @ '':'' @ fmt_int (Port ep) @ ''/'' @ Database ep"

text \<open>The first critical section of \<open>poolFor\<close>.\<close>

definition lookup_pool :: "time \<Rightarrow> bytes \<Rightarrow> pools \<Rightarrow> pool option \<times> pools" where
  "lookup_pool now key ps =
     (case ps key of
        Some e \<Rightarrow> (Some (epool e), ps(key \<mapsto> e\<lparr>lastUsed := now\<rparr>))
      | None \<Rightarrow> (None, ps))"

text \<open>The part outside the lock.\<close>

definition build_pool ::
  "('c, 'd, 's) driver \<Rightarrow> Config \<Rightarrow> ShardDef \<Rightarrow> Endpoint \<Rightarrow> (('d, 's) pool_error, pool) result" where
  "build_pool drv c shard ep =
     (case ResolveSecret drv (CredentialRef shard) of
        Inl e \<Rightarrow> Inl (ResolveCredentials (ShardID shard) e)
      | Inr creds \<Rightarrow>
          (case ParseConfig drv (dsn creds ep) of
             Inl e \<Rightarrow> Inl (ParseConfigFailed (ShardID shard) e)
           | Inr pg \<Rightarrow>
               let pg = pg\<lparr>pgMaxConns := MaxConns c, pgMinConns := MinConns c,
                 pgMaxConnLifetime := MaxConnLifetime c, pgMaxConnIdleTime := MaxConnIdleTime c\<rparr> in
               (case NewWithConfig drv pg of
                  Inl e \<Rightarrow> Inl (CreatePool (ShardID shard) ep e)
                | Inr p \<Rightarrow> Inr p)))"

text \<open>The second critical section: the pool to use, the pool to close, the map.\<close>

definition install_pool :: "time \<Rightarrow> bytes \<Rightarrow> pool \<Rightarrow> pools \<Rightarrow> pool \<times> pool list \<times> pools" where
  "install_pool now key newPool ps =
     (case ps key of
        Some e \<Rightarrow> (epool e, [newPool], ps)
      | None \<Rightarrow> (newPool, [], ps(key \<mapsto> \<lparr>epool = newPool, lastUsed = now\<rparr>)))"

text \<open>The readings of the clock during one call.\<close>

record clock =
  tAllow :: time
  tLookup :: time
  tInstall :: time
  tFailure :: time

definition poolFor ::
  "clock \<Rightarrow> ('c, 'd, 's) driver \<Rightarrow> (pools \<Rightarrow> pools) \<Rightarrow> Config \<Rightarrow> ShardDef \<Rightarrow> Endpoint \<Rightarrow> pools
     \<Rightarrow> (('d, 's) pool_error, pool) result \<times> pool list \<times> pools" where
  "poolFor ck drv others c shard ep ps =
     (let key = poolKey (ShardID shard) ep in
      case lookup_pool (tLookup ck) key ps of
        (Some p, ps) \<Rightarrow> (Inr p, [], ps)
      | (None, ps) \<Rightarrow>
          (case build_pool drv c shard ep of
             Inl e \<Rightarrow> (Inl e, [], others ps)
           | Inr newPool \<Rightarrow>
               let (p, cls, ps) = install_pool (tInstall ck) key newPool (others ps)
               in (Inr p, cls, ps)))"

section \<open>Acquiring a connection\<close>

definition Acquire ::
  "clock \<Rightarrow> ('c, 'd, 's) driver \<Rightarrow> (pools \<Rightarrow> pools) \<Rightarrow> ShardDef \<Rightarrow> Endpoint \<Rightarrow> Manager
     \<Rightarrow> (('d, 's) pool_error, conn) result \<times> pool list \<times> Manager" where
  "Acquire ck drv others shard ep m =
     (let sid = ShardID shard;
          bs = For sid (breakers m);
          (err, b) = Allow (tAllow ck) (breaker_of bs sid);
          bs = on_breaker sid (\<lambda>_. b) bs
      in case err of
           Some e \<Rightarrow> (Inl (BreakerOpen sid e), [], m\<lparr>breakers := bs\<rparr>)
         | None \<Rightarrow>
             let (r, cls, ps) = poolFor ck drv others (cfg m) shard ep (mpools m) in
             (case r of
                Inl e \<Rightarrow> (Inl e, cls, m\<lparr>mpools := ps, breakers := on_breaker sid (Failure (tFailure ck)) bs\<rparr>)
              | Inr p \<Rightarrow>
                  (case AcquireConn drv p of
                     Inl e \<Rightarrow> (Inl (AcquireFailed sid ep e), cls,
                       m\<lparr>mpools := ps, breakers := on_breaker sid (Failure (tFailure ck)) bs\<rparr>)
                   | Inr c \<Rightarrow> (Inr c, cls, m\<lparr>mpools := ps, breakers := on_breaker sid Success bs\<rparr>))))"

section \<open>Reaping and closing\<close>

definition reap_ttl :: "Config \<Rightarrow> duration" where
  "reap_ttl c = (if IdlePoolTTL c \<le> 0 then 10 * Minute else IdlePoolTTL c)"

text \<open>\<open>time.NewTicker\<close> panics on a period that is not positive: \<open>None\<close>.\<close>

definition reap_period :: "Config \<Rightarrow> duration option" where
  "reap_period c = (let d = reap_ttl c div 2 in if d \<le> 0 then None else Some d)"

text \<open>The iteration over the map is in the order of its keys \<open>ks\<close>, which Go leaves open.\<close>

definition reap_entry :: "time \<Rightarrow> duration \<Rightarrow> bytes \<Rightarrow> pools \<times> pool list \<Rightarrow> pools \<times> pool list" where
  "reap_entry now ttl key st =
     (case fst st key of
        None \<Rightarrow> st
      | Some e \<Rightarrow>
          if ttl < time_Sub now (lastUsed e) then ((fst st)(key := None), snd st @ [epool e])
          else st)"

definition reapOnce :: "time \<Rightarrow> duration \<Rightarrow> bytes list \<Rightarrow> pools \<Rightarrow> pools \<times> pool list" where
  "reapOnce now ttl ks ps = fold (reap_entry now ttl) ks (ps, [])"

text \<open>\<open>Close\<close> closes the channel \<open>stopReap\<close>, and a second one panics: \<open>None\<close>.\<close>

definition close_entry :: "bytes \<Rightarrow> pools \<times> pool list \<Rightarrow> pools \<times> pool list" where
  "close_entry key st =
     (case fst st key of
        None \<Rightarrow> st
      | Some e \<Rightarrow> ((fst st)(key := None), snd st @ [epool e]))"

definition Close :: "bytes list \<Rightarrow> Manager \<Rightarrow> (pool list \<times> Manager) option" where
  "Close ks m =
     (if stopReap m then None
      else let (ps, cls) = fold close_entry ks (mpools m, [])
           in Some (cls, m\<lparr>stopReap := True, mpools := ps\<rparr>))"


section \<open>Keys\<close>

text \<open>
  each shard and endpoint has a pool of its own. As long as shard names contain no bar and
  host names no slash, two uses share a key exactly if they are for the same shard and the same
  endpoint, so the writer and the reader of a shard are pooled apart and a pool of one shard is
  never handed out for another.
\<close>

theorem pool_keys_separate:
  assumes "CHR ''|'' \<notin> set sid" and "CHR ''|'' \<notin> set sid'"
    and "CHR ''/'' \<notin> set (Host ep)" and "CHR ''/'' \<notin> set (Host ep')"
  shows "poolKey sid ep = poolKey sid' ep' \<longleftrightarrow> sid = sid' \<and> ep = ep'"
proof -
  have "poolKey sid ep = poolKey sid' ep' \<longleftrightarrow> sid = sid' \<and> Endpoint_String ep = Endpoint_String ep'"
    using append_sep_eq [of "CHR ''|''" sid sid' "Endpoint_String ep" "Endpoint_String ep'"] assms
    by (simp add: poolKey_def)
  with Endpoint_String_inj [OF assms(3,4)] show ?thesis by simp
qed

theorem pool_keys_separate_witness:
  "poolKey ''s1'' \<lparr>Host = ''pg'', Port = 6432, Database = ''pay''\<rparr> =
     poolKey ''s1'' \<lparr>Host = ''pg'', Port = 643, Database = ''2/pay''\<rparr> \<longleftrightarrow>
   ''s1'' = ''s1'' \<and> \<lparr>Host = ''pg'', Port = 6432, Database = ''pay''\<rparr> = \<lparr>Host = ''pg'', Port = 643, Database = ''2/pay''\<rparr>"
  by (rule pool_keys_separate) simp_all

section \<open>Acquire and the breaker\<close>

lemma breaker_of_For [simp]: "breaker_of (For sid bs) sid' = breaker_of bs sid'"
  by (auto simp: breaker_of_def For_def split: option.split)

lemma breaker_of_on_For [simp]:
  "breaker_of (on_breaker sid f (For sid bs)) sid' =
    (if sid' = sid then f (breaker_of bs sid) else breaker_of bs sid')"
  by (auto simp: breaker_of_def on_breaker_def For_def split: option.split)

lemma on_breaker_twice [simp]: "on_breaker sid f (on_breaker sid g bs) = on_breaker sid (\<lambda>b. f (g b)) bs"
  by (auto simp: on_breaker_def split: option.split)

text \<open>The calls one \<open>Acquire\<close> makes on the breaker of its shard, by its result.\<close>

definition reports :: "clock \<Rightarrow> (('d, 's) pool_error, conn) result \<Rightarrow> op list" where
  "reports ck r =
     (case r of
        Inr _ \<Rightarrow> [OpAllow (tAllow ck), OpSuccess]
      | Inl (BreakerOpen _ _) \<Rightarrow> [OpAllow (tAllow ck)]
      | Inl _ \<Rightarrow> [OpAllow (tAllow ck), OpFailure (tFailure ck)])"

lemma build_pool_error: "build_pool drv c shard ep \<noteq> Inl (BreakerOpen sid e)"
  by (auto simp: build_pool_def Let_def split: sum.splits)

lemma poolFor_error: "fst (poolFor ck drv others c shard ep ps) \<noteq> Inl (BreakerOpen sid e)"
  using build_pool_error [of drv c shard ep]
  by (auto simp: poolFor_def Let_def split: prod.splits option.splits sum.splits)

lemma Acquire_breakers:
  assumes "Acquire ck drv others shard ep m = (r, cls, m')"
  shows "breaker_of (breakers m') sid =
    (if sid = ShardID shard then fold apply_op (reports ck r) (breaker_of (breakers m) sid)
     else breaker_of (breakers m) sid)"
proof -
  obtain err b where allow: "Allow (tAllow ck) (breaker_of (breakers m) (ShardID shard)) = (err, b)"
    by (cases "Allow (tAllow ck) (breaker_of (breakers m) (ShardID shard))")
  obtain pr cl ps where pool: "poolFor ck drv others (cfg m) shard ep (mpools m) = (pr, cl, ps)"
    by (cases "poolFor ck drv others (cfg m) shard ep (mpools m)")
  from pool have "pr \<noteq> Inl (BreakerOpen i e)" for i e
    using poolFor_error [of ck drv others "cfg m" shard ep "mpools m" i e] by simp
  then show ?thesis
    using assms allow pool
    by (auto simp: Acquire_def Let_def reports_def
        split: option.splits sum.splits pool_error.splits)
qed


text \<open>
  \<open>Acquire\<close> reports each outcome to the shard's breaker exactly once. A connection counts as
  a success, an error of the secrets provider, of the driver's configuration or of the pool
  counts as a failure, a refusal of the breaker itself counts as neither, and the breakers of
  all other shards are left alone.
\<close>

theorem acquire_reports_once:
  assumes "Acquire ck drv others shard ep m = (r, cls, m')"
  shows "breaker_of (breakers m') = (breaker_of (breakers m))
    (ShardID shard := fold apply_op (reports ck r) (breaker_of (breakers m) (ShardID shard)))"
  using Acquire_breakers [OF assms] by auto

definition test_driver :: "(bytes, bytes, secrets_error) driver" where
  "test_driver = \<lparr>
     ParseConfig = (\<lambda>d. Inr \<lparr>pgConn = d, pgMaxConns = 4, pgMinConns = 0, pgMaxConnLifetime = 0, pgMaxConnIdleTime = 0\<rparr>),
     NewWithConfig = (\<lambda>pg. Inr 1), AcquireConn = (\<lambda>p. Inl ''connection refused''),
     ResolveSecret = (\<lambda>ref. Inr \<lparr>Username = ''app'', Password = ''pw''\<rparr>)\<rparr>"

definition pool_shard :: ShardDef where
  "pool_shard = \<lparr>ShardID = ''s1'', Status = ''ACTIVE'',
     Writer = \<lparr>Host = ''pg'', Port = 6432, Database = ''pay''\<rparr>, Reader = None, CredentialRef = ''ref'', Region = []\<rparr>"

theorem acquire_reports_once_witness:
  "breaker_of (breakers (snd (snd (Acquire \<lparr>tAllow = 1, tLookup = 2, tInstall = 3, tFailure = 4\<rparr>
      test_driver id pool_shard (Writer pool_shard) (NewManager DefaultConfig NewRegistry))))) ''s1'' = Failure 4 New"
proof -
  let ?ck = "\<lparr>tAllow = 1, tLookup = 2, tInstall = 3, tFailure = 4\<rparr>"
  let ?m = "NewManager DefaultConfig NewRegistry"
  have r: "fst (Acquire ?ck test_driver id pool_shard (Writer pool_shard) ?m) =
      Inl (AcquireFailed ''s1'' (Writer pool_shard) ''connection refused'')"
    by (simp add: Acquire_def poolFor_def build_pool_def lookup_pool_def install_pool_def Let_def test_driver_def
        NewManager_def Allow_def For_def breaker_of_def NewRegistry_def New_def pool_shard_def)
  then obtain cls m' where acq: "Acquire ?ck test_driver id pool_shard (Writer pool_shard) ?m =
      (Inl (AcquireFailed ''s1'' (Writer pool_shard) ''connection refused''), cls, m')"
    by (cases "Acquire ?ck test_driver id pool_shard (Writer pool_shard) ?m") simp
  show ?thesis
    using acquire_reports_once [OF acq] acq
    by (simp add: reports_def pool_shard_def NewManager_def breaker_of_def NewRegistry_def Allow_def New_def)
qed

lemma Acquire_denied:
  assumes "breaker_of (breakers m) (ShardID shard) = b" and "state b = Open"
    and "0 \<le> ResetTimeout b" and "in_int64 (ResetTimeout b)"
    and "tAllow ck < openedAt b + ResetTimeout b"
  shows "Acquire ck drv others shard ep m = (Inl (BreakerOpen (ShardID shard) ErrOpen), [], m)"
proof -
  have allow: "Allow (tAllow ck) b = (Some ErrOpen, b)"
    using assms by (simp add: Allow_def time_Sub_ge)
  have b: "breakers m (ShardID shard) = Some b"
    using assms(1,2) by (auto simp: breaker_of_def New_def split: option.splits)
  then have "(breakers m)(ShardID shard \<mapsto> b) = breakers m"
    by auto
  with allow b show ?thesis
    by (simp add: Acquire_def Let_def For_def breaker_of_def on_breaker_def)
qed

text \<open>
  a shard that is down fails fast. While the shard's breaker is open and its reset timeout
  runs, \<open>Acquire\<close> returns \<open>ErrOpen\<close> whatever the driver, the secrets provider and the other
  goroutines would do: no pool is created, used or closed, and the breaker stays as it is.
\<close>

theorem acquire_fails_fast:
  assumes "breakers m (ShardID shard) = Some b" and "state b = Open"
    and "0 \<le> ResetTimeout b" and "in_int64 (ResetTimeout b)"
    and "tAllow ck < openedAt b + ResetTimeout b"
  shows "Acquire ck drv others shard ep m = (Inl (BreakerOpen (ShardID shard) ErrOpen), [], m)"
  using assms by (intro Acquire_denied) (simp_all add: breaker_of_def)

theorem acquire_fails_fast_witness:
  "Acquire \<lparr>tAllow = 50, tLookup = 0, tInstall = 0, tFailure = 0\<rparr> test_driver id pool_shard (Writer pool_shard)
     (NewManager DefaultConfig (Map.empty(''s1'' \<mapsto> New\<lparr>state := Open, openedAt := 1\<rparr>))) =
   (Inl (BreakerOpen (ShardID pool_shard) ErrOpen), [],
     NewManager DefaultConfig (Map.empty(''s1'' \<mapsto> New\<lparr>state := Open, openedAt := 1\<rparr>)))"
  by (rule acquire_fails_fast [where b = "New\<lparr>state := Open, openedAt := 1\<rparr>"])
    (simp_all add: NewManager_def pool_shard_def New_def Second_def in_range_def)


text \<open>Successive calls for one shard, by any goroutines, on any endpoints.\<close>

fun acquire_all :: "(clock \<times> ('c, 'd, 's) driver \<times> (pools \<Rightarrow> pools) \<times> Endpoint) list \<Rightarrow> ShardDef \<Rightarrow> Manager
    \<Rightarrow> (('d, 's) pool_error, conn) result list \<times> Manager" where
  "acquire_all [] shard m = ([], m)"
| "acquire_all ((ck, drv, others, ep) # calls) shard m =
     (let (r, cls, m) = Acquire ck drv others shard ep m;
          (rs, m) = acquire_all calls shard m
      in (r # rs, m))"

lemma acquire_all_append:
  "acquire_all (xs @ ys) shard m =
    (let (rs, m) = acquire_all xs shard m; (rs', m) = acquire_all ys shard m in (rs @ rs', m))"
  by (induction xs arbitrary: m) (auto split: prod.splits)

lemma Acquire_not_denied:
  assumes "Acquire ck drv others shard ep m = (Inl (BreakerOpen sid e), cls, m')"
  shows "state (breaker_of (breakers m) (ShardID shard)) = Open"
proof -
  have "fst (poolFor ck drv others (cfg m) shard ep (mpools m)) \<noteq> Inl (BreakerOpen sid e)"
    by (rule poolFor_error)
  with assms show ?thesis
    by (auto simp: Acquire_def Let_def Allow_def split: State.splits prod.splits if_splits option.splits sum.splits)
qed

lemma failed_Acquire:
  assumes "Acquire ck drv others shard ep m = (r, cls, m')" and "\<not> is_ok r"
    and "state (breaker_of (breakers m) (ShardID shard)) = Closed"
  shows "breaker_of (breakers m') (ShardID shard) = Failure (tFailure ck) (breaker_of (breakers m) (ShardID shard))"
proof -
  have "reports ck r = [OpAllow (tAllow ck), OpFailure (tFailure ck)]"
    using assms Acquire_not_denied [of ck drv others shard ep m]
    by (auto simp: reports_def split: sum.splits pool_error.splits)
  with Acquire_breakers [OF assms(1), of "ShardID shard"] assms(3) show ?thesis
    by (simp add: Allow_def)
qed

lemma failing_run:
  assumes "acquire_all calls shard m = (rs, m')" and "\<forall>r\<in>set rs. \<not> is_ok r"
    and "breaker_of (breakers m) (ShardID shard) = New\<lparr>consecutiveFails := k\<rparr>"
    and "0 \<le> k" and "k + int (length calls) < 5"
  shows "breaker_of (breakers m') (ShardID shard) = New\<lparr>consecutiveFails := k + int (length calls)\<rparr>"
  using assms
proof (induction calls arbitrary: m k rs)
  case (Cons call calls)
  obtain ck drv others ep where call: "call = (ck, drv, others, ep)" by (cases call)
  obtain r cls m1 where r: "Acquire ck drv others shard ep m = (r, cls, m1)"
    by (cases "Acquire ck drv others shard ep m")
  obtain rs1 where rs: "acquire_all calls shard m1 = (rs1, m')" "rs = r # rs1"
    using Cons.prems(1) r by (auto simp: call split: prod.splits)
  have "wrap64 (k + 1) = k + 1"
    using Cons.prems(4,5) by (intro wrap_id) (simp_all add: in_range_def)
  then have "breaker_of (breakers m1) (ShardID shard) = New\<lparr>consecutiveFails := k + 1\<rparr>"
    using failed_Acquire [OF r] Cons.prems rs by (simp add: Failure_def New_def)
  from Cons.IH [OF rs(1) _ this] Cons.prems rs show ?case by (simp add: algebra_simps)
qed simp

text \<open>
  one failing shard does not exhaust the callers. After five calls in a row for a shard that
  all failed, whatever failed in them, every further call within ten seconds of the fifth
  failure returns at once with \<open>ErrOpen\<close>, without touching the driver or the pools.
\<close>

theorem five_failures_trip_acquire:
  assumes "acquire_all calls shard (NewManager c NewRegistry) = (rs, m)" and "length calls = 5"
    and "\<forall>r\<in>set rs. \<not> is_ok r"
    and "tAllow ck < tFailure (fst (last calls)) + 10 * Second"
  shows "Acquire ck drv others shard ep m = (Inl (BreakerOpen (ShardID shard) ErrOpen), [], m)"
proof -
  obtain cs ck5 drv5 others5 ep5 where calls: "calls = cs @ [(ck5, drv5, others5, ep5)]" and cs: "length cs = 4"
    using assms(2) by (cases calls rule: rev_cases) (auto simp: prod_cases4)
  obtain rs1 m1 where run: "acquire_all cs shard (NewManager c NewRegistry) = (rs1, m1)"
    by (cases "acquire_all cs shard (NewManager c NewRegistry)")
  obtain r cls where r: "Acquire ck5 drv5 others5 shard ep5 m1 = (r, cls, m)" and rs: "rs = rs1 @ [r]"
    using assms(1) run by (auto simp: calls acquire_all_append split: prod.splits)
  have "breaker_of (breakers (NewManager c NewRegistry)) (ShardID shard) = New\<lparr>consecutiveFails := 0\<rparr>"
    by (simp add: NewManager_def NewRegistry_def breaker_of_def New_def)
  from failing_run [OF run _ this] have four: "breaker_of (breakers m1) (ShardID shard) = New\<lparr>consecutiveFails := 4\<rparr>"
    using assms(3) rs cs by simp
  have "wrap64 5 = 5" by (simp add: wrap_def)
  then have "breaker_of (breakers m) (ShardID shard) = New\<lparr>consecutiveFails := 5, state := Open, openedAt := tFailure ck5\<rparr>"
    using failed_Acquire [OF r] four assms(3) rs by (simp add: Failure_def New_def)
  then show ?thesis
    by (rule Acquire_denied) (use assms(4) in \<open>simp_all add: calls New_def Second_def in_range_def\<close>)
qed


definition test_calls :: "(clock \<times> (bytes, bytes, secrets_error) driver \<times> (pools \<Rightarrow> pools) \<times> Endpoint) list" where
  "test_calls = replicate 5 (\<lparr>tAllow = 1, tLookup = 2, tInstall = 3, tFailure = 4\<rparr>, test_driver, id, Writer pool_shard)"

theorem five_failures_trip_acquire_witness:
  "Acquire \<lparr>tAllow = 9999999999, tLookup = 0, tInstall = 0, tFailure = 0\<rparr> test_driver id pool_shard (Writer pool_shard)
     (snd (acquire_all test_calls pool_shard (NewManager DefaultConfig NewRegistry))) =
   (Inl (BreakerOpen (ShardID pool_shard) ErrOpen), [],
     snd (acquire_all test_calls pool_shard (NewManager DefaultConfig NewRegistry)))"
proof (rule five_failures_trip_acquire)
  show "acquire_all test_calls pool_shard (NewManager DefaultConfig NewRegistry) =
    (fst (acquire_all test_calls pool_shard (NewManager DefaultConfig NewRegistry)),
     snd (acquire_all test_calls pool_shard (NewManager DefaultConfig NewRegistry)))"
    by (rule prod.collapse [symmetric])
  have "list_all (\<lambda>r. \<not> is_ok r) (fst (acquire_all test_calls pool_shard (NewManager DefaultConfig NewRegistry)))"
    by code_simp
  then show "\<forall>r\<in>set (fst (acquire_all test_calls pool_shard (NewManager DefaultConfig NewRegistry))). \<not> is_ok r"
    by (simp add: list_all_iff)
qed (simp_all add: test_calls_def Second_def eval_nat_numeral)

text \<open>
  the pool that is already there is used as it is. While a pool for the shard and endpoint is
  in the map, \<open>Acquire\<close> neither resolves the shard's \<open>credential_ref\<close> nor creates a pool, so a
  changed reference takes effect only after the old pool has been reaped.
\<close>

theorem acquire_reuses_pool:
  assumes "mpools m (poolKey (ShardID shard) ep) = Some e"
    and "state (breaker_of (breakers m) (ShardID shard)) = Closed"
    and "AcquireConn drv (epool e) = Inr c"
  shows "fst (Acquire ck (drv\<lparr>ResolveSecret := resolve\<rparr>) others (shard\<lparr>CredentialRef := ref\<rparr>) ep m) = Inr c \<and>
    mpools (snd (snd (Acquire ck (drv\<lparr>ResolveSecret := resolve\<rparr>) others (shard\<lparr>CredentialRef := ref\<rparr>) ep m))) =
      (mpools m)(poolKey (ShardID shard) ep \<mapsto> e\<lparr>lastUsed := tLookup ck\<rparr>)"
  using assms by (simp add: Acquire_def Let_def poolFor_def lookup_pool_def Allow_def)

theorem acquire_reuses_pool_witness:
  "fst (Acquire \<lparr>tAllow = 1, tLookup = 2, tInstall = 3, tFailure = 4\<rparr>
     (test_driver\<lparr>AcquireConn := \<lambda>p. Inr (p + 40), ResolveSecret := \<lambda>r. Inl (NoUser r r)\<rparr>) id
     (pool_shard\<lparr>CredentialRef := ''rotated''\<rparr>) (Writer pool_shard)
     ((NewManager DefaultConfig NewRegistry)\<lparr>mpools := Map.empty(''s1|pg:6432/pay'' \<mapsto> \<lparr>epool = 2, lastUsed = 0\<rparr>)\<rparr>)) = Inr 42"
proof -
  have key: "poolKey (ShardID pool_shard) (Writer pool_shard) = ''s1|pg:6432/pay''"
    by code_simp
  show ?thesis
    using acquire_reuses_pool [of "(NewManager DefaultConfig NewRegistry)\<lparr>mpools := Map.empty(''s1|pg:6432/pay'' \<mapsto> \<lparr>epool = 2, lastUsed = 0\<rparr>)\<rparr>"
        pool_shard "Writer pool_shard" "\<lparr>epool = 2, lastUsed = 0\<rparr>" "test_driver\<lparr>AcquireConn := \<lambda>p. Inr (p + 40)\<rparr>" 42
        "\<lparr>tAllow = 1, tLookup = 2, tInstall = 3, tFailure = 4\<rparr>" "\<lambda>r. Inl (NoUser r r)" id "''rotated''"]
    unfolding key by (simp add: NewManager_def breaker_of_def NewRegistry_def New_def)
qed

section \<open>Reaping\<close>

lemma reap_entries:
  "distinct ks \<Longrightarrow> fst (fold (reap_entry now ttl) ks (ps, cl)) k =
     (if k \<in> set ks \<and> (\<exists>e. ps k = Some e \<and> ttl < time_Sub now (lastUsed e)) then None else ps k)"
proof (induction ks arbitrary: ps cl)
  case (Cons x ks)
  obtain ps1 cl1 where x: "reap_entry now ttl x (ps, cl) = (ps1, cl1)"
    by (cases "reap_entry now ttl x (ps, cl)")
  have ps1: "ps1 = (if \<exists>e. ps x = Some e \<and> ttl < time_Sub now (lastUsed e) then ps(x := None) else ps)"
    using x by (auto simp: reap_entry_def split: option.splits if_splits)
  show ?case
    using Cons by (auto simp: x ps1)
qed simp

lemma reap_closed:
  "distinct ks \<Longrightarrow> set (snd (fold (reap_entry now ttl) ks (ps, cl))) =
     set cl \<union> {epool e | k e. k \<in> set ks \<and> ps k = Some e \<and> ttl < time_Sub now (lastUsed e)}"
proof (induction ks arbitrary: ps cl)
  case (Cons x ks)
  show ?case
  proof (cases "\<exists>e. ps x = Some e \<and> ttl < time_Sub now (lastUsed e)")
    case True
    then obtain e where e: "ps x = Some e" "ttl < time_Sub now (lastUsed e)" by blast
    then have "reap_entry now ttl x (ps, cl) = (ps(x := None), cl @ [epool e])"
      by (simp add: reap_entry_def)
    moreover have "{epool e' | k e'. k \<in> set ks \<and> (ps(x := None)) k = Some e' \<and> ttl < time_Sub now (lastUsed e')} =
        {epool e' | k e'. k \<in> set ks \<and> ps k = Some e' \<and> ttl < time_Sub now (lastUsed e')}"
      using Cons.prems by (auto simp: fun_upd_def)
    ultimately show ?thesis using Cons e by auto
  next
    case False
    then have "reap_entry now ttl x (ps, cl) = (ps, cl)"
      by (auto simp: reap_entry_def split: option.split)
    with Cons False show ?thesis by auto
  qed
qed simp

lemma reap_distinct:
  assumes "\<And>k k' e e'. ps k = Some e \<Longrightarrow> ps k' = Some e' \<Longrightarrow> epool e = epool e' \<Longrightarrow> k = k'"
    and "distinct ks" and "distinct cl" and "\<And>k e. k \<in> set ks \<Longrightarrow> ps k = Some e \<Longrightarrow> epool e \<notin> set cl"
  shows "distinct (snd (fold (reap_entry now ttl) ks (ps, cl)))"
  using assms
proof (induction ks arbitrary: ps cl)
  case (Cons x ks)
  show ?case
  proof (cases "\<exists>e. ps x = Some e \<and> ttl < time_Sub now (lastUsed e)")
    case True
    then obtain e where e: "ps x = Some e" "ttl < time_Sub now (lastUsed e)" by blast
    have "distinct (snd (fold (reap_entry now ttl) ks (ps(x := None), cl @ [epool e])))"
    proof (rule Cons.IH)
      show "k = k'" if "(ps(x := None)) k = Some a" "(ps(x := None)) k' = Some a'" "epool a = epool a'" for k k' a a'
        using that Cons.prems(1) by (auto split: if_splits)
      show "epool a \<notin> set (cl @ [epool e])" if "k \<in> set ks" "(ps(x := None)) k = Some a" for k a
        using that e Cons.prems(1) [of k a x e] Cons.prems(4) [of k a] by (auto split: if_splits)
    qed (use Cons.prems(2,3) Cons.prems(4) [of x e] e in auto)
    moreover from e have "reap_entry now ttl x (ps, cl) = (ps(x := None), cl @ [epool e])"
      by (simp add: reap_entry_def)
    ultimately show ?thesis by simp
  next
    case False
    then have "reap_entry now ttl x (ps, cl) = (ps, cl)"
      by (auto simp: reap_entry_def split: option.split)
    moreover have "distinct (snd (fold (reap_entry now ttl) ks (ps, cl)))"
    proof (rule Cons.IH)
      show "epool a \<notin> set cl" if "k \<in> set ks" "ps k = Some a" for k a
        using that Cons.prems(4) [of k a] by simp
    qed (use Cons.prems(1,2,3) in auto)
    ultimately show ?thesis by simp
  qed
qed simp

text \<open>
  reaping closes exactly the idle pools. Whatever the iteration order of the map, one pass
  removes and closes the pools not used for longer than the TTL, and leaves every other entry,
  with its time of last use, in place.
\<close>

theorem reap_exactly_idle:
  assumes "set ks = dom ps" and "distinct ks"
  shows "fst (reapOnce now ttl ks ps) k =
      (case ps k of None \<Rightarrow> None | Some e \<Rightarrow> if ttl < time_Sub now (lastUsed e) then None else Some e) \<and>
    set (snd (reapOnce now ttl ks ps)) = {epool e | k e. ps k = Some e \<and> ttl < time_Sub now (lastUsed e)}"
  using assms reap_entries [OF assms(2), of now ttl ps "[]" k] reap_closed [OF assms(2), of now ttl ps "[]"]
  by (auto simp: reapOnce_def dom_def split: option.splits)

theorem reap_exactly_idle_witness:
  "fst (reapOnce 100 60 [''a'', ''b''] [''a'' \<mapsto> \<lparr>epool = 1, lastUsed = 40\<rparr>, ''b'' \<mapsto> \<lparr>epool = 2, lastUsed = 39\<rparr>]) ''b'' =
     (case [''a'' \<mapsto> \<lparr>epool = 1, lastUsed = 40\<rparr>, ''b'' \<mapsto> \<lparr>epool = 2, lastUsed = 39\<rparr>] ''b'' of None \<Rightarrow> None
      | Some e \<Rightarrow> if 60 < time_Sub 100 (lastUsed e) then None else Some e) \<and>
   set (snd (reapOnce 100 60 [''a'', ''b''] [''a'' \<mapsto> \<lparr>epool = 1, lastUsed = 40\<rparr>, ''b'' \<mapsto> \<lparr>epool = 2, lastUsed = 39\<rparr>])) =
     {epool e | k e. [''a'' \<mapsto> \<lparr>epool = 1, lastUsed = 40\<rparr>, ''b'' \<mapsto> \<lparr>epool = 2, lastUsed = 39\<rparr>] k = Some e \<and> 60 < time_Sub 100 (lastUsed e)}"
  by (rule reap_exactly_idle) (auto simp: dom_def)

text \<open>
  an idle pool lives at most one and a half TTLs. With the reaper ticking from \<open>start\<close>, a
  pool last used at \<open>t\<close> is removed by the pass of some tick no later than the TTL and one
  period after \<open>t\<close>, unless it is used again or a pass is delayed.
\<close>

theorem idle_pool_reaped_in_time:
  assumes "reap_period c = Some d" and "start \<le> t" and "in_int64 (reap_ttl c + d)" and "in_int64 (reap_ttl c)"
  shows "\<exists>k::nat. start + int k * d \<le> t + reap_ttl c + d \<and>
    (\<forall>ps ks key e. set ks = dom ps \<longrightarrow> distinct ks \<longrightarrow> ps key = Some e \<longrightarrow> lastUsed e = t \<longrightarrow>
      fst (reapOnce (start + int k * d) (reap_ttl c) ks ps) key = None)"
proof -
  let ?ttl = "reap_ttl c"
  have d: "0 < d" and ttl: "0 < ?ttl" and "d \<le> ?ttl"
    using assms(1) by (auto simp: reap_period_def Let_def split: if_splits)
  define k where "k = nat ((t + ?ttl - start) div d + 1)"
  have "0 \<le> (t + ?ttl - start) div d"
    using assms(2) d ttl by (simp add: pos_imp_zdiv_nonneg_iff)
  then have "int k = (t + ?ttl - start) div d + 1"
    by (simp add: k_def)
  then have "int k * d = (t + ?ttl - start) div d * d + d"
    by (simp add: algebra_simps)
  moreover have "(t + ?ttl - start) div d * d + (t + ?ttl - start) mod d = t + ?ttl - start"
    by (simp add: div_mult_mod_eq)
  moreover have "0 \<le> (t + ?ttl - start) mod d" "(t + ?ttl - start) mod d < d"
    using d by simp_all
  ultimately have hi: "start + int k * d \<le> t + ?ttl + d" and lo: "t + ?ttl < start + int k * d"
    by linarith+
  have "fst (reapOnce (start + int k * d) ?ttl ks ps) key = None"
    if "set ks = dom ps" "distinct ks" "ps key = Some e" "lastUsed e = t" for ps ks key e
  proof -
    have "?ttl + d < 2 ^ 63" using assms(3) by (simp add: in_range_def)
    then have "?ttl < time_Sub (start + int k * d) t"
      using lo d ttl by (auto simp: time_Sub_def)
    then show ?thesis
      using reap_entries [OF that(2), of "start + int k * d" ?ttl ps "[]" key] that
      by (auto simp: reapOnce_def)
  qed
  with hi show ?thesis by blast
qed


theorem idle_pool_reaped_in_time_witness:
  "\<exists>k::nat. 0 + int k * (5 * Minute) \<le> 7 + reap_ttl DefaultConfig + 5 * Minute \<and>
    (\<forall>ps ks key e. set ks = dom ps \<longrightarrow> distinct ks \<longrightarrow> ps key = Some e \<longrightarrow> lastUsed e = 7 \<longrightarrow>
      fst (reapOnce (0 + int k * (5 * Minute)) (reap_ttl DefaultConfig) ks ps) key = None)"
  by (rule idle_pool_reaped_in_time)
    (simp_all add: reap_period_def reap_ttl_def DefaultConfig_def Minute_def Second_def in_range_def Let_def)

text \<open>The reaper starts for every configuration but a TTL of one nanosecond.\<close>

lemma reap_period_panics: "reap_period c = None \<longleftrightarrow> IdlePoolTTL c = 1"
  by (auto simp: reap_period_def reap_ttl_def Let_def Minute_def Second_def)

lemma close_entries:
  "distinct ks \<Longrightarrow> fst (fold close_entry ks (ps, cl)) k = (if k \<in> set ks then None else ps k)"
proof (induction ks arbitrary: ps cl)
  case (Cons x ks)
  have "close_entry x (ps, cl) = (ps(x := None), cl @ (case ps x of None \<Rightarrow> [] | Some e \<Rightarrow> [epool e]))"
    by (auto simp: close_entry_def fun_eq_iff split: option.split)
  with Cons show ?case by auto
qed simp

lemma close_closed:
  "distinct ks \<Longrightarrow> set (snd (fold close_entry ks (ps, cl))) = set cl \<union> {epool e | k e. k \<in> set ks \<and> ps k = Some e}"
proof (induction ks arbitrary: ps cl)
  case (Cons x ks)
  have step: "close_entry x (ps, cl) = (ps(x := None), cl @ (case ps x of None \<Rightarrow> [] | Some e \<Rightarrow> [epool e]))"
    by (auto simp: close_entry_def fun_eq_iff split: option.split)
  have "{epool e | k e. k \<in> set ks \<and> (ps(x := None)) k = Some e} = {epool e | k e. k \<in> set ks \<and> ps k = Some e}"
    using Cons.prems by (auto simp: fun_upd_def)
  then show ?case by (cases "ps x"; use Cons in \<open>auto simp: step\<close>)
qed simp

section \<open>Goroutines sharing the manager\<close>

text \<open>
  The critical sections of \<open>poolFor\<close>, of the reaper and of \<open>Close\<close> as the atomic steps of any
  number of goroutines. \<open>created\<close> are the pools the driver ever made, \<open>live\<close> those not closed;
  \<open>reaping\<close> is the reaper's list \<open>toClose\<close> and \<open>readers\<close> maps a goroutine to the point it is at.
\<close>

datatype pc =
    Idle
  | Looking bytes
  | Missed bytes
  | Built bytes pool
  | Losing pool pool
  | Got pool

record pool_sys =
  spools :: pools
  readers :: "nat \<Rightarrow> pc"
  created :: "pool set"
  live :: "pool set"
  reaping :: "pool list"
  shut :: bool

definition sys_start :: "pool_sys \<Rightarrow> bool" where
  "sys_start s \<longleftrightarrow> spools s = Map.empty \<and> readers s = (\<lambda>_. Idle) \<and> created s = {} \<and> live s = {} \<and>
     reaping s = [] \<and> \<not> shut s"

inductive pool_step :: "duration \<Rightarrow> pool_sys \<Rightarrow> pool_sys \<Rightarrow> bool" for ttl :: duration where
  call: "readers s t = Idle \<or> (\<exists>p. readers s t = Got p) \<Longrightarrow>
    pool_step ttl s (s\<lparr>readers := (readers s)(t := Looking key)\<rparr>)"
| hit: "readers s t = Looking key \<Longrightarrow> lookup_pool now key (spools s) = (Some p, ps) \<Longrightarrow>
    pool_step ttl s (s\<lparr>spools := ps, readers := (readers s)(t := Got p)\<rparr>)"
| miss: "readers s t = Looking key \<Longrightarrow> lookup_pool now key (spools s) = (None, ps) \<Longrightarrow>
    pool_step ttl s (s\<lparr>spools := ps, readers := (readers s)(t := Missed key)\<rparr>)"
| return: "readers s t = Got p \<Longrightarrow>
    pool_step ttl s (s\<lparr>readers := (readers s)(t := Idle)\<rparr>)"
| build_error: "readers s t = Missed key \<Longrightarrow>
    pool_step ttl s (s\<lparr>readers := (readers s)(t := Idle)\<rparr>)"
| build: "readers s t = Missed key \<Longrightarrow> p \<notin> created s \<Longrightarrow>
    pool_step ttl s (s\<lparr>readers := (readers s)(t := Built key p),
      created := insert p (created s), live := insert p (live s)\<rparr>)"
| win: "readers s t = Built key p \<Longrightarrow> install_pool now key p (spools s) = (q, [], ps) \<Longrightarrow>
    pool_step ttl s (s\<lparr>spools := ps, readers := (readers s)(t := Got q)\<rparr>)"
| lose: "readers s t = Built key p \<Longrightarrow> install_pool now key p (spools s) = (q, [loser], ps) \<Longrightarrow>
    pool_step ttl s (s\<lparr>spools := ps, readers := (readers s)(t := Losing loser q)\<rparr>)"
| close_loser: "readers s t = Losing p q \<Longrightarrow>
    pool_step ttl s (s\<lparr>readers := (readers s)(t := Got q), live := live s - {p}\<rparr>)"
| reap: "reaping s = [] \<Longrightarrow> set ks = dom (spools s) \<Longrightarrow> distinct ks \<Longrightarrow>
    reapOnce now ttl ks (spools s) = (ps, cl) \<Longrightarrow>
    pool_step ttl s (s\<lparr>spools := ps, reaping := cl\<rparr>)"
| close_reaped: "reaping s = p # cl \<Longrightarrow>
    pool_step ttl s (s\<lparr>reaping := cl, live := live s - {p}\<rparr>)"
| close_all: "\<not> shut s \<Longrightarrow> set ks = dom (spools s) \<Longrightarrow> distinct ks \<Longrightarrow>
    fold close_entry ks (spools s, []) = (ps, cl) \<Longrightarrow>
    pool_step ttl s (s\<lparr>spools := ps, live := live s - set cl, shut := True\<rparr>)"

text \<open>Who is responsible for closing a pool.\<close>

datatype owner = InMap bytes | Goroutine nat | Reaper

fun owns :: "pool_sys \<Rightarrow> owner \<Rightarrow> pool \<Rightarrow> bool" where
  "owns s (InMap key) p = (\<exists>e. spools s key = Some e \<and> epool e = p)"
| "owns s (Goroutine t) p = ((\<exists>key. readers s t = Built key p) \<or> (\<exists>q. readers s t = Losing p q))"
| "owns s Reaper p = (p \<in> set (reaping s))"

definition pool_inv :: "pool_sys \<Rightarrow> bool" where
  "pool_inv s \<longleftrightarrow> (\<forall>p. p \<in> live s \<longleftrightarrow> (\<exists>o1. owns s o1 p)) \<and>
     (\<forall>p o1 o2. owns s o1 p \<longrightarrow> owns s o2 p \<longrightarrow> o1 = o2) \<and>
     live s \<subseteq> created s \<and> distinct (reaping s)"


lemma inv_owner: "pool_inv s \<Longrightarrow> owns s o1 p \<Longrightarrow> owns s o2 p \<longleftrightarrow> o2 = o1"
  unfolding pool_inv_def by blast

lemma inv_live: "pool_inv s \<Longrightarrow> owns s o1 p \<Longrightarrow> p \<in> live s"
  unfolding pool_inv_def by blast

text \<open>Moving pools to a new owner, and releasing pools as they are closed.\<close>

lemma inv_moved:
  assumes "pool_inv s" and "\<And>o1 p. owns s' o1 p \<longleftrightarrow> (if p \<in> M then o1 = new else owns s o1 p)"
    and "M \<subseteq> live s" and "live s' = live s" and "created s' = created s" and "distinct (reaping s')"
  shows "pool_inv s'"
  unfolding pool_inv_def
proof (intro conjI allI impI)
  fix p
  show "p \<in> live s' \<longleftrightarrow> (\<exists>o1. owns s' o1 p)"
    using assms(1,3) by (cases "p \<in> M") (auto simp: assms(2,4) pool_inv_def)
next
  fix p o1 o2
  assume "owns s' o1 p" and "owns s' o2 p"
  then show "o1 = o2"
    using inv_owner [OF assms(1)] by (auto simp: assms(2) split: if_splits)
qed (use assms in \<open>auto simp: pool_inv_def\<close>)

lemma inv_same:
  assumes "pool_inv s" and "\<And>o1 p. owns s' o1 p \<longleftrightarrow> owns s o1 p"
    and "live s' = live s" and "created s' = created s" and "reaping s' = reaping s"
  shows "pool_inv s'"
  using assms unfolding pool_inv_def by simp

lemma inv_released:
  assumes "pool_inv s" and "\<And>o1 p. owns s' o1 p \<longleftrightarrow> owns s o1 p \<and> p \<notin> R"
    and "live s' = live s - R" and "created s' = created s" and "distinct (reaping s')"
  shows "pool_inv s'"
  using assms unfolding pool_inv_def by auto

lemma pool_step_inv:
  assumes "pool_step ttl s s'" and inv: "pool_inv s"
  shows "pool_inv s'"
  using assms(1)
proof cases
  case (call t key)
  have "owns s' o1 p \<longleftrightarrow> owns s o1 p" for o1 p
    using call by (cases o1) auto
  then show ?thesis by (intro inv_same [OF inv]) (simp_all add: call)
next
  case (hit t key now p ps)
  have "owns s' o1 q \<longleftrightarrow> owns s o1 q" for o1 q
    using hit by (cases o1) (auto simp: lookup_pool_def split: option.splits if_splits)
  then show ?thesis by (intro inv_same [OF inv]) (simp_all add: hit)
next
  case (miss t key now ps)
  have "owns s' o1 q \<longleftrightarrow> owns s o1 q" for o1 q
    using miss by (cases o1) (auto simp: lookup_pool_def split: option.splits)
  then show ?thesis by (intro inv_same [OF inv]) (simp_all add: miss)
next
  case (return t p)
  have "owns s' o1 q \<longleftrightarrow> owns s o1 q" for o1 q
    using return by (cases o1) auto
  then show ?thesis by (intro inv_same [OF inv]) (simp_all add: return)
next
  case (build_error t key)
  have "owns s' o1 q \<longleftrightarrow> owns s o1 q" for o1 q
    using build_error by (cases o1) auto
  then show ?thesis by (intro inv_same [OF inv]) (simp_all add: build_error)
next
  case (build t key p)
  have "owns s' o1 q \<longleftrightarrow> owns s o1 q \<or> (o1 = Goroutine t \<and> q = p)" for o1 q
    using build by (cases o1) auto
  moreover have "\<not> owns s o1 p" for o1
    using inv build inv_live [OF inv, of o1 p] by (auto simp: pool_inv_def)
  ultimately show ?thesis
    using inv build unfolding pool_inv_def by simp blast
next
  case (win t key p now q ps)
  then have q: "q = p" and none: "spools s key = None" and ps: "ps = (spools s)(key \<mapsto> \<lparr>epool = p, lastUsed = now\<rparr>)"
    by (auto simp: install_pool_def split: option.splits)
  have own: "owns s (Goroutine t) p" using win by auto
  have "owns s' o1 r \<longleftrightarrow> (if r = p then o1 = InMap key else owns s o1 r)" for o1 r
    using inv_owner [OF inv own, of o1] win q none ps by (cases o1) auto
  then show ?thesis
    using inv inv_live [OF inv own]
    by (intro inv_moved [OF inv, of s' "{p}" "InMap key"]) (auto simp: win pool_inv_def)
next
  case (lose t key p now q loser ps)
  then have "loser = p" and "ps = spools s"
    by (auto simp: install_pool_def split: option.splits)
  then have "owns s' o1 r \<longleftrightarrow> owns s o1 r" for o1 r
    using lose by (cases o1) auto
  then show ?thesis by (intro inv_same [OF inv]) (simp_all add: lose)
next
  case (close_loser t p q)
  have own: "owns s (Goroutine t) p" using close_loser by auto
  have "owns s' o1 r \<longleftrightarrow> owns s o1 r \<and> r \<notin> {p}" for o1 r
    using inv_owner [OF inv own, of o1] close_loser by (cases o1) auto
  then show ?thesis
    using inv by (intro inv_released [OF inv, of s' "{p}"]) (auto simp: close_loser pool_inv_def)
next
  case (reap ks now ps cl)
  have fin: "ps k = (if \<exists>e. spools s k = Some e \<and> ttl < time_Sub now (lastUsed e) then None else spools s k)" for k
    using reap_entries [OF reap(4), of now ttl "spools s" "[]" k] reap(3,5) by (auto simp: reapOnce_def dom_def)
  have cl: "set cl = {epool e | k e. spools s k = Some e \<and> ttl < time_Sub now (lastUsed e)}"
    using reap_closed [OF reap(4), of now ttl "spools s" "[]"] reap(3,5) by (auto simp: reapOnce_def dom_def)
  have one: "k = k'" if "spools s k = Some e" "spools s k' = Some e'" "epool e = epool e'" for k k' e e'
    using inv_owner [OF inv, of "InMap k" "epool e" "InMap k'"] that by auto
  have dist: "distinct cl"
    using reap_distinct [of "spools s" ks "[]" now ttl] one reap(4,5) by (simp add: reapOnce_def)
  have "owns s' o1 r \<longleftrightarrow> (if r \<in> set cl then o1 = Reaper else owns s o1 r)" for o1 r
  proof (cases "r \<in> set cl")
    case True
    then obtain k e where ke: "spools s k = Some e" "epool e = r" "ttl < time_Sub now (lastUsed e)"
      by (auto simp: cl)
    then have own: "owns s (InMap k) r" by auto
    have "\<not> (\<exists>a. ps k' = Some a \<and> epool a = r)" for k'
      using one [OF ke(1), of k'] ke by (auto simp: fin split: if_splits)
    with True inv_owner [OF inv own, of o1] show ?thesis
      by (cases o1) (auto simp: reap(1))
  next
    case False
    then show ?thesis
      by (cases o1) (auto simp: reap(1,2) fin cl)
  qed
  moreover have "set cl \<subseteq> live s"
    using inv_live [OF inv, of "InMap k" for k] by (force simp: cl)
  ultimately show ?thesis
    using dist by (intro inv_moved [OF inv, of s' "set cl" Reaper]) (simp_all add: reap(1))
next
  case (close_reaped p cl)
  have own: "owns s Reaper p" using close_reaped by auto
  have "p \<notin> set cl" using inv close_reaped by (simp add: pool_inv_def)
  then have "owns s' o1 r \<longleftrightarrow> owns s o1 r \<and> r \<notin> {p}" for o1 r
    using inv_owner [OF inv own, of o1] close_reaped by (cases o1) auto
  then show ?thesis
    using inv by (intro inv_released [OF inv, of s' "{p}"]) (auto simp: close_reaped pool_inv_def)
next
  case (close_all ks ps cl)
  have ps: "ps = Map.empty"
    using close_entries [OF close_all(4), of "spools s" "[]"] close_all(3,5) by (auto simp: fun_eq_iff dom_def)
  have cl: "set cl = {epool e | k e. spools s k = Some e}"
    using close_closed [OF close_all(4), of "spools s" "[]"] close_all(3,5) by (auto simp: dom_def)
  have "owns s' o1 r \<longleftrightarrow> owns s o1 r \<and> r \<notin> set cl" for o1 r
  proof (cases "r \<in> set cl")
    case True
    then obtain k where "owns s (InMap k) r" by (auto simp: cl)
    from inv_owner [OF inv this, of o1] True show ?thesis
      by (cases o1) (auto simp: close_all(1) ps)
  next
    case False
    then show ?thesis by (cases o1) (auto simp: close_all(1) ps cl)
  qed
  then show ?thesis
    using inv by (intro inv_released [OF inv, of s' "set cl"]) (auto simp: close_all(1) pool_inv_def)
qed


lemma pool_start_inv: "sys_start s \<Longrightarrow> pool_inv s"
  unfolding pool_inv_def sys_start_def
proof (intro conjI allI impI; elim conjE)
  fix p
  assume start: "spools s = Map.empty" "readers s = (\<lambda>_. Idle)" "reaping s = []" "live s = {}"
  then have none: "\<not> owns s o1 p" for o1 p by (cases o1) auto
  show "p \<in> live s \<longleftrightarrow> (\<exists>o1. owns s o1 p)" using none start by simp
  show "o1 = o2" if "owns s o1 p" for o1 o2 using none that by blast
qed simp_all

interpretation pool_runs: inductive_invariant sys_start "pool_step ttl" pool_inv for ttl
  by unfold_locales (auto intro: pool_start_inv pool_step_inv)

text \<open>
  C23: the races over the pool map are settled safely. However the critical sections of any number
  of goroutines, of the reaper and of \<open>Close\<close> interleave, the map never holds a pool that has
  been closed and never the same pool under two keys.
\<close>

theorem shared_pools_safe:
  assumes "reach sys_start (pool_step ttl) s"
    and "spools s k = Some e" and "spools s k' = Some e'"
  shows "epool e \<in> live s \<and> (epool e = epool e' \<longrightarrow> k = k')"
proof -
  have inv: "pool_inv s" by (rule pool_runs.inv_reach [OF assms(1)])
  have own: "owns s (InMap k) (epool e)" and "owns s (InMap k') (epool e')"
    using assms(2,3) by auto
  then show ?thesis
    using inv_live [OF inv own] inv_owner [OF inv own, of "InMap k'"] by auto
qed

text \<open>
  no pool is leaked. Whenever no goroutine is between building a pool and installing or
  closing it and the reaper is not closing pools, the pools that were created and not closed are
  exactly those in the map, so one per key: the losers of all races have been closed.
\<close>

theorem shared_pools_no_leak:
  assumes "reach sys_start (pool_step ttl) s"
    and "\<forall>t. readers s t \<in> {Idle} \<union> range Looking \<union> range Missed \<union> range Got"
    and "reaping s = []"
  shows "live s = {epool e | k e. spools s k = Some e}"
proof -
  have inv: "pool_inv s" by (rule pool_runs.inv_reach [OF assms(1)])
  have only: "\<exists>k. o1 = InMap k" if "owns s o1 p" for o1 p
  proof (cases o1)
    case (Goroutine t)
    with that assms(2) [THEN spec, of t] show ?thesis by auto
  qed (use that assms(3) in auto)
  have "p \<in> live s \<longleftrightarrow> (\<exists>k. owns s (InMap k) p)" for p
    using inv only unfolding pool_inv_def by metis
  then show ?thesis by (auto simp: set_eq_iff)
qed

text \<open>A run in which two goroutines race for one key and the loser closes its pool.\<close>

definition race_result :: pool_sys where
  "race_result = \<lparr>spools = [''k'' \<mapsto> \<lparr>epool = 1, lastUsed = 5\<rparr>],
     readers = (\<lambda>_. Idle)(1 := Got 1, 2 := Got 1), created = {1, 2}, live = {1}, reaping = [], shut = False\<rparr>"

lemma race_reachable: "reach sys_start (pool_step 60) race_result"
proof -
  let ?s = "\<lambda>ps rs cr lv. \<lparr>spools = ps, readers = rs, created = cr, live = lv, reaping = [], shut = False\<rparr>"
  let ?r = "reach sys_start (pool_step 60)"
  let ?m = "[''k'' \<mapsto> \<lparr>epool = 1, lastUsed = 5\<rparr>] :: pools"
  have "?r (?s Map.empty (\<lambda>_. Idle) {} {})"
    by (rule reach_start) (simp add: sys_start_def)
  from reach_step [OF this pool_step.call [where t = 1 and key = "''k''"]]
  have "?r (?s Map.empty ((\<lambda>_. Idle)(1 := Looking ''k'')) {} {})" by simp
  from reach_step [OF this pool_step.call [where t = 2 and key = "''k''"]]
  have "?r (?s Map.empty ((\<lambda>_. Idle)(1 := Looking ''k'', 2 := Looking ''k'')) {} {})" by simp
  from reach_step [OF this pool_step.miss [where t = 1 and key = "''k''" and ps = Map.empty]]
  have "?r (?s Map.empty ((\<lambda>_. Idle)(2 := Looking ''k'', 1 := Missed ''k'')) {} {})"
    by (simp add: lookup_pool_def fun_upd_twist)
  from reach_step [OF this pool_step.miss [where t = 2 and key = "''k''" and ps = Map.empty]]
  have "?r (?s Map.empty ((\<lambda>_. Idle)(1 := Missed ''k'', 2 := Missed ''k'')) {} {})"
    by (simp add: lookup_pool_def fun_upd_twist)
  from reach_step [OF this pool_step.build [where t = 1 and p = 1]]
  have "?r (?s Map.empty ((\<lambda>_. Idle)(2 := Missed ''k'', 1 := Built ''k'' 1)) {1} {1})"
    by (simp add: fun_upd_twist)
  from reach_step [OF this pool_step.build [where t = 2 and p = 2]]
  have "?r (?s Map.empty ((\<lambda>_. Idle)(1 := Built ''k'' 1, 2 := Built ''k'' 2)) {1, 2} {1, 2})"
    by (simp add: fun_upd_twist insert_commute)
  from reach_step [OF this pool_step.win [where t = 1 and key = "''k''" and p = 1 and q = 1 and now = 5 and ps = ?m]]
  have "?r (?s ?m ((\<lambda>_. Idle)(2 := Built ''k'' 2, 1 := Got 1)) {1, 2} {1, 2})"
    by (simp add: install_pool_def fun_upd_twist)
  from reach_step [OF this pool_step.lose [where t = 2 and key = "''k''" and p = 2 and q = 1 and loser = 2 and now = 6 and ps = ?m]]
  have "?r (?s ?m ((\<lambda>_. Idle)(1 := Got 1, 2 := Losing 2 1)) {1, 2} {1, 2})"
    by (simp add: install_pool_def fun_upd_twist)
  from reach_step [OF this pool_step.close_loser [where t = 2 and p = 2 and q = 1]]
  show ?thesis
    by (simp add: race_result_def fun_upd_twist insert_Diff_if)
qed

theorem shared_pools_safe_witness: "epool \<lparr>epool = 1, lastUsed = 5\<rparr> \<in> live race_result"
  using shared_pools_safe [OF race_reachable, of "''k''" "\<lparr>epool = 1, lastUsed = 5\<rparr>" "''k''" "\<lparr>epool = 1, lastUsed = 5\<rparr>"]
  by (simp add: race_result_def)

theorem shared_pools_no_leak_witness: "live race_result = {epool e | k e. spools race_result k = Some e}"
  by (rule shared_pools_no_leak [OF race_reachable]) (auto simp: race_result_def)

end
