(* ===== verification/Metrics.thy ===== *)
theory Metrics
  imports Go_Prelude
begin

text \<open>
  \<open>internal/metrics/metrics.go\<close>: routing counters by shard. Every method runs under the mutex of
  the registry, so a concurrent run is a sequence of the operations below. A missing map entry
  reads as zero and the counters are \<open>int64\<close>.
\<close>

record MetricsRegistry =
  requestsByShard :: "bytes \<rightharpoonup> int"
  routingErrors :: int

definition NewMetrics :: MetricsRegistry where
  "NewMetrics = \<lparr>requestsByShard = Map.empty, routingErrors = 0\<rparr>"

definition count_of :: "(bytes \<rightharpoonup> int) \<Rightarrow> bytes \<Rightarrow> int" where
  "count_of f k = (case f k of None \<Rightarrow> 0 | Some n \<Rightarrow> n)"

definition IncRoutingRequest :: "bytes \<Rightarrow> int \<Rightarrow> MetricsRegistry \<Rightarrow> MetricsRegistry" where
  "IncRoutingRequest shardID bucketID r =
     r\<lparr>requestsByShard := (requestsByShard r)(shardID \<mapsto> wrap64 (count_of (requestsByShard r) shardID + 1))\<rparr>"

definition IncRoutingError :: "MetricsRegistry \<Rightarrow> MetricsRegistry" where
  "IncRoutingError r = r\<lparr>routingErrors := wrap64 (routingErrors r + 1)\<rparr>"

record MetricsSnapshot =
  RequestsByShard :: "bytes \<rightharpoonup> int"
  RoutingErrors :: int

text \<open>The copy of the map, entry by entry in the order \<open>ks\<close> of the iteration.\<close>

definition copy_counts :: "bytes list \<Rightarrow> (bytes \<rightharpoonup> int) \<Rightarrow> (bytes \<rightharpoonup> int)" where
  "copy_counts ks f = fold (\<lambda>k cp. case f k of None \<Rightarrow> cp | Some v \<Rightarrow> cp(k \<mapsto> v)) ks Map.empty"

definition Metrics_Snapshot :: "bytes list \<Rightarrow> MetricsRegistry \<Rightarrow> MetricsSnapshot" where
  "Metrics_Snapshot ks r = \<lparr>RequestsByShard = copy_counts ks (requestsByShard r), RoutingErrors = routingErrors r\<rparr>"

section \<open>What the counters count\<close>

datatype metric_op = Routed bytes int | Failed

fun apply_metric :: "metric_op \<Rightarrow> MetricsRegistry \<Rightarrow> MetricsRegistry" where
  "apply_metric (Routed sid b) r = IncRoutingRequest sid b r"
| "apply_metric Failed r = IncRoutingError r"

definition routed_to :: "bytes \<Rightarrow> metric_op list \<Rightarrow> nat" where
  "routed_to sid ops = length (filter (\<lambda>x. case x of Routed s _ \<Rightarrow> s = sid | Failed \<Rightarrow> False) ops)"

definition failures :: "metric_op list \<Rightarrow> nat" where
  "failures ops = length (filter (\<lambda>x. x = Failed) ops)"

lemma wrap64_add: "wrap64 (wrap64 a + b) = wrap64 (a + b)"
proof -
  have "(wrap64 a + b) mod 2 ^ 64 = (a + b) mod 2 ^ 64"
    using wrap_cong [of 64 a] by (metis mod_add_left_eq zero_less_numeral)
  then show ?thesis by (intro wrap_eqI) simp_all
qed

lemma wrap64_0 [simp]: "wrap64 0 = 0"
  by (simp add: wrap_def)

lemma apply_metrics:
  assumes "count_of (requestsByShard r) sid = wrap64 (int a)" and "routingErrors r = wrap64 (int b)"
  shows "count_of (requestsByShard (fold apply_metric ops r)) sid = wrap64 (int a + int (routed_to sid ops)) \<and>
    routingErrors (fold apply_metric ops r) = wrap64 (int b + int (failures ops))"
  using assms
proof (induction ops arbitrary: r a b)
  case (Cons x ops)
  show ?case
  proof (cases x)
    case (Routed s n)
    then have "count_of (requestsByShard (apply_metric x r)) sid = wrap64 (int (if s = sid then a + 1 else a))"
      "routingErrors (apply_metric x r) = wrap64 (int b)"
      using Cons.prems wrap64_add [of "int a" 1]
      by (auto simp: IncRoutingRequest_def count_of_def add.commute)
    from Cons.IH [OF this] Routed show ?thesis
      by (cases "s = sid") (simp_all add: routed_to_def failures_def add_ac)
  next
    case Failed
    then have "count_of (requestsByShard (apply_metric x r)) sid = wrap64 (int a)"
      "routingErrors (apply_metric x r) = wrap64 (int (b + 1))"
      using Cons.prems wrap64_add [of "int b" 1] by (simp_all add: IncRoutingError_def add.commute)
    from Cons.IH [OF this] Failed show ?thesis
      by (simp add: routed_to_def failures_def add_ac)
  qed
qed (simp add: routed_to_def failures_def)

lemma copy_counts_eq:
  assumes "set ks = dom f"
  shows "copy_counts ks f = f"
proof -
  have step: "fold (\<lambda>k cp. case f k of None \<Rightarrow> cp | Some v \<Rightarrow> cp(k \<mapsto> v)) xs m k =
      (if k \<in> set xs \<and> f k \<noteq> None then f k else m k)" for xs m k
  proof (induction xs arbitrary: m)
    case (Cons x xs)
    then show ?case by (auto split: option.splits)
  qed simp
  show ?thesis
  proof
    fix k
    show "copy_counts ks f k = f k"
      using assms by (cases "f k") (auto simp: copy_counts_def step dom_def)
  qed
qed

text \<open>
  the counters count. After any sequence of the operations of any goroutines, a snapshot
  taken in any order of the map holds for every shard the number of requests routed to it,
  and the number of routing errors, as \<open>int64\<close>.
\<close>

theorem metrics_count:
  assumes "set ks = dom (requestsByShard (fold apply_metric ops NewMetrics))"
  shows "count_of (RequestsByShard (Metrics_Snapshot ks (fold apply_metric ops NewMetrics))) sid = wrap64 (int (routed_to sid ops)) \<and>
    RoutingErrors (Metrics_Snapshot ks (fold apply_metric ops NewMetrics)) = wrap64 (int (failures ops))"
  using apply_metrics [of NewMetrics sid 0 0 ops] copy_counts_eq [OF assms]
  by (simp add: Metrics_Snapshot_def NewMetrics_def count_of_def)

theorem metrics_count_witness:
  "count_of (RequestsByShard (Metrics_Snapshot [''s1'', ''s2''] (fold apply_metric
     [Routed ''s1'' 3, Failed, Routed ''s2'' 4, Routed ''s1'' 5] NewMetrics))) ''s1'' = 2"
proof -
  let ?ops = "[Routed ''s1'' 3, Failed, Routed ''s2'' 4, Routed ''s1'' 5]"
  have "set [''s1'', ''s2''] = dom (requestsByShard (fold apply_metric ?ops NewMetrics))"
    by (auto simp: NewMetrics_def IncRoutingRequest_def IncRoutingError_def)
  from metrics_count [OF this, of "''s1''"] show ?thesis
    by (simp add: routed_to_def wrap_def)
qed

end
