(* ===== verification/Api.thy ===== *)
theory Api
  imports Go_Text Go_Decode Router Pool Metrics
begin

text \<open>
  \<open>internal/api/server.go\<close>: the HTTP handlers. A handler maps a request and the state of the
  server to a response, the effects on connections in their order, the goroutines it starts and
  the new state. What the database, the driver and the secrets provider answer, how a database
  value is encoded as JSON and the texts of foreign errors are fields of a \<open>world\<close> argument.
\<close>

section \<open>The outside world\<close>

text \<open>The rows of a query: what \<open>FieldDescriptions\<close>, the calls of \<open>Values\<close> and \<open>Err\<close> return.\<close>

record ('d, 'v) db_rows =
  FieldNames :: "bytes list"
  RowValues :: "('d, 'v list) result list"
  RowsErr :: "'d option"

record ('c, 'd, 's, 'v) world =
  Clock :: clock
  Driver :: "('c, 'd, 's) driver"
  Others :: "pools \<Rightarrow> pools"
  ConnQuery :: "conn \<Rightarrow> bytes \<Rightarrow> any list \<Rightarrow> ('d, ('d, 'v) db_rows) result"
  ConnExec :: "conn \<Rightarrow> bytes \<Rightarrow> any list \<Rightarrow> ('d, int) result"
  EncodeValue :: "'v \<Rightarrow> bytes option"
  DriverText :: "'d \<Rightarrow> bytes"
  SecretText :: "'s \<Rightarrow> bytes"
  DecodeText :: "bytes \<Rightarrow> bytes"
  Printable :: "nat \<Rightarrow> bool"

datatype effect =
    PoolClosed pool
  | Connected ShardDef Endpoint conn
  | Queried conn bytes "any list"
  | Executed conn bytes "any list"
  | Released conn

section \<open>The server\<close>

text \<open>\<open>main\<close> gives the server and the pool manager the same breaker registry, so it is kept once,
  in the manager.\<close>

record Server =
  srvRouter :: Router
  srvPool :: Manager
  srvMetrics :: MetricsRegistry

definition NewServer :: "Router \<Rightarrow> Manager \<Rightarrow> MetricsRegistry \<Rightarrow> Server" where
  "NewServer r p m = \<lparr>srvRouter = r, srvPool = p, srvMetrics = m\<rparr>"

record response =
  rStatus :: int
  rType :: bytes
  rBody :: bytes

section \<open>Writing responses\<close>

text \<open>\<open>json.NewEncoder(w).Encode(v)\<close> writes the value and a newline, or nothing if \<open>v\<close> cannot be
  encoded; the status is out by then and the error is dropped. \<open>None\<close> is a value that cannot.\<close>

definition writeJSON :: "int \<Rightarrow> bytes option \<Rightarrow> response" where
  "writeJSON status v = \<lparr>rStatus = status, rType = ''application/json'',
     rBody = (case v of None \<Rightarrow> [] | Some t \<Rightarrow> t @ [CHR 0x0A])\<rparr>"

definition writeError :: "int \<Rightarrow> bytes \<Rightarrow> response" where
  "writeError status msg = writeJSON status (Some (marshal (JObj [(''error'', JStr msg)])))"

fun router_error_text :: "(nat \<Rightarrow> bool) \<Rightarrow> router_error \<Rightarrow> bytes" where
  "router_error_text pr ErrNoMapping = ''shard router: no shard mapping loaded yet''"
| "router_error_text pr (ErrShardUnavailable sid) = ''shard router: shard '' @ Quote pr sid @ '' is not ACTIVE''"
| "router_error_text pr (ErrUnknownBucket b) = ''shard router: bucket '' @ fmt_int b @ '' has no shard assignment''"
| "router_error_text pr (ErrUnknownShard sid b) =
     ''shard router: bucket '' @ fmt_int b @ '' references unknown shard '' @ Quote pr sid"

definition writeRouterError :: "(nat \<Rightarrow> bool) \<Rightarrow> router_error \<Rightarrow> response" where
  "writeRouterError pr err =
     (case err of
        ErrShardUnavailable _ \<Rightarrow> writeError 503 (router_error_text pr err)
      | ErrUnknownBucket _ \<Rightarrow> writeError 500 (router_error_text pr err)
      | ErrUnknownShard _ _ \<Rightarrow> writeError 500 (router_error_text pr err)
      | ErrNoMapping \<Rightarrow> writeError 503 (router_error_text pr err))"

fun pool_error_text :: "('d \<Rightarrow> bytes) \<Rightarrow> ('s \<Rightarrow> bytes) \<Rightarrow> ('d, 's) pool_error \<Rightarrow> bytes" where
  "pool_error_text dt st (BreakerOpen sid e) = ''pool: shard '' @ sid @ '': breaker: circuit open''"
| "pool_error_text dt st (ResolveCredentials sid e) = ''pool: resolve credentials for shard '' @ sid @ '': '' @ st e"
| "pool_error_text dt st (ParseConfigFailed sid e) = ''pool: parse config for shard '' @ sid @ '': '' @ dt e"
| "pool_error_text dt st (CreatePool sid ep e) =
     ''pool: create pool for shard '' @ sid @ '' ('' @ Endpoint_String ep @ ''): '' @ dt e"
| "pool_error_text dt st (AcquireFailed sid ep e) =
     ''pool: acquire from shard '' @ sid @ '' ('' @ Endpoint_String ep @ ''): '' @ dt e"

definition writePoolError :: "('c, 'd, 's, 'v) world \<Rightarrow> bytes \<Rightarrow> ('d, 's) pool_error \<Rightarrow> response" where
  "writePoolError w shardID err =
     writeError 503 (''shard '' @ shardID @ '' unavailable: '' @ pool_error_text (DriverText w) (SecretText w) err)"

section \<open>Health and routes\<close>

definition handleHealth :: "(nat \<Rightarrow> bool) \<Rightarrow> Store \<Rightarrow> Server \<Rightarrow> response" where
  "handleHealth pr store s =
     (case Resolve (srvRouter s) store (AnyString ''healthcheck-probe-key'') of
        Inl err \<Rightarrow> writeJSON 503 (Some (marshal (JObj
          [(''reason'', JStr (router_error_text pr err)), (''status'', JStr ''not_ready'')])))
      | Inr _ \<Rightarrow> writeJSON 200 (Some (marshal (JObj [(''status'', JStr ''ok'')]))))"

record routeResponse =
  rrBucketID :: int
  rrReadShardID :: bytes
  rrWriteShardIDs :: "bytes list"
  rrMigrationState :: bytes
  rrWriterEndpoint :: bytes
  rrReaderEndpoint :: bytes

definition omit_empty :: "bytes \<Rightarrow> bytes \<Rightarrow> (bytes \<times> json) list" where
  "omit_empty name s = (if s = [] then [] else [(name, JStr s)])"

definition routeResponse_json :: "routeResponse \<Rightarrow> json" where
  "routeResponse_json r = JObj
     ([(''bucket_id'', JNum (fmt_int (rrBucketID r))), (''read_shard_id'', JStr (rrReadShardID r)),
       (''write_shard_ids'', if rrWriteShardIDs r = [] then JNull else JArr (map JStr (rrWriteShardIDs r)))] @
      omit_empty ''migration_state'' (rrMigrationState r) @
      [(''writer_endpoint'', JStr (rrWriterEndpoint r))] @
      omit_empty ''reader_endpoint'' (rrReaderEndpoint r))"

definition routeResponse_of :: "Resolved \<Rightarrow> routeResponse" where
  "routeResponse_of res = \<lparr>rrBucketID = ResBucketID res, rrReadShardID = ShardID (ReadShard res),
     rrWriteShardIDs = map ShardID (WriteShards res), rrMigrationState = ResMigrationState res,
     rrWriterEndpoint = Endpoint_String (Writer (ReadShard res)),
     rrReaderEndpoint = (case Reader (ReadShard res) of None \<Rightarrow> [] | Some e \<Rightarrow> Endpoint_String e)\<rparr>"

definition handleRoute :: "(nat \<Rightarrow> bool) \<Rightarrow> Store \<Rightarrow> bytes \<Rightarrow> Server \<Rightarrow> response \<times> Server" where
  "handleRoute pr store rawQuery s =
     (let shardKey = Query_Get rawQuery ''shard_key'' in
      if shardKey = [] then (writeError 400 ''shard_key query parameter is required'', s)
      else case Resolve (srvRouter s) store (AnyString shardKey) of
        Inl err \<Rightarrow> (writeRouterError pr err, s\<lparr>srvMetrics := IncRoutingError (srvMetrics s)\<rparr>)
      | Inr res \<Rightarrow>
          (writeJSON 200 (Some (marshal (routeResponse_json (routeResponse_of res)))),
           s\<lparr>srvMetrics := IncRoutingRequest (ShardID (ReadShard res)) (ResBucketID res) (srvMetrics s)\<rparr>))"

section \<open>Queries\<close>

record queryRequest =
  qShardKey :: any
  qSQL :: bytes
  qArgs :: "any list"
  qConsistency :: bytes
  qWrite :: bool

definition zero_queryRequest :: queryRequest where
  "zero_queryRequest = \<lparr>qShardKey = AnyNil, qSQL = [], qArgs = [], qConsistency = [], qWrite = False\<rparr>"

definition queryRequest_fields :: "queryRequest field list" where
  "queryRequest_fields =
     [(''shard_key'', any_field (\<lambda>x. qShardKey_update (\<lambda>_. x))),
      (''sql'', str_field (\<lambda>x. qSQL_update (\<lambda>_. x))),
      (''args'', sub_field (dec_slice (\<lambda>j _. dec_any j) AnyNil) qArgs (\<lambda>x. qArgs_update (\<lambda>_. x))),
      (''consistency'', str_field (\<lambda>x. qConsistency_update (\<lambda>_. x))),
      (''write'', bool_field (\<lambda>x. qWrite_update (\<lambda>_. x)))]"

record 'v queryResponse =
  qrBucketID :: int
  qrShardID :: bytes
  qrColumns :: "bytes list"
  qrRows :: "'v list list"
  qrRowsAffected :: int

definition array_text :: "bytes list \<Rightarrow> bytes" where
  "array_text ts = CHR ''['' # sep_by (CHR '','') ts @ [CHR '']'']"

definition object_text :: "(bytes \<times> bytes) list \<Rightarrow> bytes" where
  "object_text kvs = CHR ''{'' # sep_by (CHR '','') (map (\<lambda>(k, t). json_quote k @ CHR '':'' # t) kvs) @ [CHR ''}'']"

text \<open>\<open>None\<close> as soon as one value cannot be encoded.\<close>

definition rows_text :: "('v \<Rightarrow> bytes option) \<Rightarrow> 'v list list \<Rightarrow> bytes option" where
  "rows_text enc rows = map_option array_text (those (map (\<lambda>row. map_option array_text (those (map enc row))) rows))"

definition queryResponse_text :: "('v \<Rightarrow> bytes option) \<Rightarrow> 'v queryResponse \<Rightarrow> bytes option" where
  "queryResponse_text enc r =
     map_option (\<lambda>rows. object_text
       ([(''bucket_id'', fmt_int (qrBucketID r)), (''shard_id'', json_quote (qrShardID r))] @
        (if qrColumns r = [] then [] else [(''columns'', array_text (map json_quote (qrColumns r)))]) @
        (if qrRows r = [] then [] else [(''rows'', rows)]) @
        (if qrRowsAffected r = 0 then [] else [(''rows_affected'', fmt_int (qrRowsAffected r))])))
     (rows_text enc (qrRows r))"

text \<open>A goroutine started by \<open>handleWrite\<close>: the shard and the statement it is for.\<close>

record dual_write =
  dwShard :: ShardDef
  dwSQL :: bytes
  dwArgs :: "any list"

record outcome =
  oResponse :: response
  oEffects :: "effect list"
  oStarted :: "dual_write list"
  oServer :: Server

text \<open>The loop over \<open>rows.Next\<close>.\<close>

fun read_rows :: "('d, 'v list) result list \<Rightarrow> ('d, 'v list list) result" where
  "read_rows [] = Inr []"
| "read_rows (Inl e # rs) = Inl e"
| "read_rows (Inr vals # rs) = (case read_rows rs of Inl e \<Rightarrow> Inl e | Inr out \<Rightarrow> Inr (vals # out))"

definition read_response :: "('c, 'd, 's, 'v) world \<Rightarrow> Resolved \<Rightarrow> ('d, ('d, 'v) db_rows) result \<Rightarrow> response" where
  "read_response w res r =
     (case r of
        Inl e \<Rightarrow> writeError 502 (''query failed on shard '' @ ShardID (ReadShard res) @ '': '' @ DriverText w e)
      | Inr rows \<Rightarrow>
          (case read_rows (RowValues rows) of
             Inl e \<Rightarrow> writeError 502 (''reading row values: '' @ DriverText w e)
           | Inr out \<Rightarrow>
               (case RowsErr rows of
                  Some e \<Rightarrow> writeError 502 (''row iteration error: '' @ DriverText w e)
                | None \<Rightarrow> writeJSON 200 (queryResponse_text (EncodeValue w)
                    \<lparr>qrBucketID = ResBucketID res, qrShardID = ShardID (ReadShard res),
                     qrColumns = FieldNames rows, qrRows = out, qrRowsAffected = 0\<rparr>))))"

definition handleRead :: "('c, 'd, 's, 'v) world \<Rightarrow> Resolved \<Rightarrow> queryRequest \<Rightarrow> Server \<Rightarrow> outcome" where
  "handleRead w res req s =
     (let ep = ReadEndpoint res (ParseReadConsistency (qConsistency req));
          (r, cls, m) = Acquire (Clock w) (Driver w) (Others w) (ReadShard res) ep (srvPool s);
          s = s\<lparr>srvPool := m\<rparr>
      in case r of
           Inl err \<Rightarrow> \<lparr>oResponse = writePoolError w (ShardID (ReadShard res)) err,
             oEffects = map PoolClosed cls, oStarted = [], oServer = s\<rparr>
         | Inr conn \<Rightarrow> \<lparr>oResponse = read_response w res (ConnQuery w conn (qSQL req) (qArgs req)),
             oEffects = map PoolClosed cls @ [Connected (ReadShard res) ep conn, Queried conn (qSQL req) (qArgs req), Released conn],
             oStarted = [], oServer = s\<rparr>)"

text \<open>\<open>None\<close> is the panic of \<open>PrimaryWriteShard\<close> on an empty list.\<close>

definition handleWrite :: "('c, 'd, 's, 'v) world \<Rightarrow> Resolved \<Rightarrow> queryRequest \<Rightarrow> Server \<Rightarrow> outcome option" where
  "handleWrite w res req s =
     (case PrimaryWriteShard res of
        None \<Rightarrow> None
      | Some primary \<Rightarrow>
          (let (r, cls, m) = Acquire (Clock w) (Driver w) (Others w) primary (Writer primary) (srvPool s);
               s = s\<lparr>srvPool := m\<rparr>
           in Some (case r of
                Inl err \<Rightarrow> \<lparr>oResponse = writePoolError w (ShardID primary) err,
                  oEffects = map PoolClosed cls, oStarted = [], oServer = s\<rparr>
              | Inr conn \<Rightarrow>
                  (let eff = map PoolClosed cls @ [Connected primary (Writer primary) conn, Executed conn (qSQL req) (qArgs req), Released conn]
                   in case ConnExec w conn (qSQL req) (qArgs req) of
                        Inl e \<Rightarrow> \<lparr>oResponse = writeError 502 (''write failed on shard '' @ ShardID primary @ '': '' @ DriverText w e),
                          oEffects = eff, oStarted = [], oServer = s\<rparr>
                      | Inr affected \<Rightarrow> \<lparr>oResponse = writeJSON 200 (queryResponse_text (EncodeValue w)
                            \<lparr>qrBucketID = ResBucketID res, qrShardID = ShardID primary, qrColumns = [], qrRows = [],
                             qrRowsAffected = affected\<rparr>),
                          oEffects = eff,
                          oStarted = map (\<lambda>shard. \<lparr>dwShard = shard, dwSQL = qSQL req, dwArgs = qArgs req\<rparr>) (drop 1 (WriteShards res)),
                          oServer = s\<rparr>))))"

text \<open>What one of these goroutines does when it runs.\<close>

definition run_dual_write :: "('c, 'd, 's, 'v) world \<Rightarrow> dual_write \<Rightarrow> Manager \<Rightarrow> effect list \<times> Manager" where
  "run_dual_write w d m =
     (let (r, cls, m) = Acquire (Clock w) (Driver w) (Others w) (dwShard d) (Writer (dwShard d)) m
      in (map PoolClosed cls @
          (case r of
             Inl _ \<Rightarrow> []
           | Inr conn \<Rightarrow> [Connected (dwShard d) (Writer (dwShard d)) conn, Executed conn (dwSQL d) (dwArgs d), Released conn]), m))"

definition handleQuery :: "('c, 'd, 's, 'v) world \<Rightarrow> Store \<Rightarrow> bytes \<Rightarrow> Server \<Rightarrow> outcome option" where
  "handleQuery w store body s =
     (case Decode (dec_struct queryRequest_fields) zero_queryRequest body of
        Inl _ \<Rightarrow> Some \<lparr>oResponse = writeError 400 (''invalid JSON body: '' @ DecodeText w body),
          oEffects = [], oStarted = [], oServer = s\<rparr>
      | Inr (req, _) \<Rightarrow>
          if qShardKey req = AnyNil \<or> qSQL req = []
          then Some \<lparr>oResponse = writeError 400 ''shard_key and sql are required'',
            oEffects = [], oStarted = [], oServer = s\<rparr>
          else case Resolve (srvRouter s) store (qShardKey req) of
            Inl err \<Rightarrow> Some \<lparr>oResponse = writeRouterError (Printable w) err, oEffects = [], oStarted = [],
              oServer = s\<lparr>srvMetrics := IncRoutingError (srvMetrics s)\<rparr>\<rparr>
          | Inr res \<Rightarrow>
              let s = s\<lparr>srvMetrics := IncRoutingRequest (ShardID (ReadShard res)) (ResBucketID res) (srvMetrics s)\<rparr>
              in if qWrite req then handleWrite w res req s else Some (handleRead w res req s))"

section \<open>Metrics\<close>

definition breakerStateValue :: "State \<Rightarrow> int" where
  "breakerStateValue s = (case s of HalfOpen \<Rightarrow> 1 | Open \<Rightarrow> 2 | _ \<Rightarrow> 0)"

text \<open>\<open>ks\<close> are the keys in the order the map is iterated in.\<close>

definition sortedKeys :: "bytes list \<Rightarrow> bytes list" where
  "sortedKeys ks = sort ks"

definition requests_line :: "(nat \<Rightarrow> bool) \<Rightarrow> bytes \<Rightarrow> int \<Rightarrow> bytes" where
  "requests_line pr shardID n =
     ''shard_router_routing_requests_total{shard_id='' @ Quote pr shardID @ ''} '' @ fmt_int n @ [CHR 0x0A]"

definition breaker_line :: "(nat \<Rightarrow> bool) \<Rightarrow> bytes \<Rightarrow> State \<Rightarrow> bytes" where
  "breaker_line pr shardID st =
     ''shard_router_breaker_state{shard_id='' @ Quote pr shardID @ ''} '' @ fmt_int (breakerStateValue st) @ [CHR 0x0A]"

text \<open>Indexing the snapshot of the breakers with a key it lacks reads as the zero value \<open>Closed\<close>.\<close>

definition state_at :: "(bytes \<rightharpoonup> State) \<Rightarrow> bytes \<Rightarrow> State" where
  "state_at f k = (case f k of None \<Rightarrow> Closed | Some st \<Rightarrow> st)"

definition requests_help :: bytes where
  "requests_help = ''# HELP shard_router_routing_requests_total Routing decisions made, by shard_id'' @ [CHR 0x0A] @
     ''# TYPE shard_router_routing_requests_total counter'' @ [CHR 0x0A]"

definition errors_help :: bytes where
  "errors_help = ''# HELP shard_router_routing_errors_total Routing resolution failures'' @ [CHR 0x0A] @
     ''# TYPE shard_router_routing_errors_total counter'' @ [CHR 0x0A]"

definition breaker_help :: bytes where
  "breaker_help = ''# HELP shard_router_breaker_state Circuit breaker state by shard_id (0=closed,1=half_open,2=open)'' @ [CHR 0x0A] @
     ''# TYPE shard_router_breaker_state gauge'' @ [CHR 0x0A]"

definition errors_line :: "int \<Rightarrow> bytes" where
  "errors_line n = ''shard_router_routing_errors_total '' @ fmt_int n @ [CHR 0x0A]"

definition handleMetrics :: "(nat \<Rightarrow> bool) \<Rightarrow> bytes list \<Rightarrow> bytes list \<Rightarrow> bytes list \<Rightarrow> Server \<Rightarrow> response" where
  "handleMetrics pr copied ks bs s =
     (let snap = Metrics_Snapshot copied (srvMetrics s);
          states = Snapshot (breakers (srvPool s))
      in \<lparr>rStatus = 200, rType = ''text/plain; version=0.0.4'', rBody =
        requests_help @ concat (map (\<lambda>k. requests_line pr k (count_of (RequestsByShard snap) k)) (sortedKeys ks)) @
        errors_help @ errors_line (RoutingErrors snap) @
        breaker_help @ concat (map (\<lambda>k. breaker_line pr k (state_at states k)) (sortedKeys bs))\<rparr>)"

section \<open>Dispatch\<close>

datatype handler = HandleHealth | HandleRoute | HandleQuery | HandleMetrics

definition routes :: "((bytes \<times> bytes) \<times> handler) list" where
  "routes = [((''GET'', ''/healthz''), HandleHealth), ((''GET'', ''/v1/route''), HandleRoute),
     ((''POST'', ''/v1/query''), HandleQuery), ((''GET'', ''/metrics''), HandleMetrics)]"

text \<open>The mux on clean paths: a \<open>GET\<close> pattern also matches \<open>HEAD\<close>; \<open>None\<close> is a reply of the mux itself.\<close>

definition dispatch :: "bytes \<Rightarrow> bytes \<Rightarrow> handler option" where
  "dispatch meth path = map_of routes (if meth = ''HEAD'' then ''GET'' else meth, path)"

end
