(* ===== verification/Api_Pages.thy ===== *)
theory Api_Pages
  imports Api
begin

text \<open>
  What the read-only pages say: the routing decision of \<open>/v1/route\<close> read back by a client, the
  metrics page for any order of Go's map iterations, and what \<open>/healthz\<close> looks at.
\<close>

section \<open>The route page read back\<close>

definition zero_routeResponse :: routeResponse where
  "zero_routeResponse = \<lparr>rrBucketID = 0, rrReadShardID = [], rrWriteShardIDs = [], rrMigrationState = [],
     rrWriterEndpoint = [], rrReaderEndpoint = []\<rparr>"

definition dec_string :: "json \<Rightarrow> bytes \<Rightarrow> bytes option" where
  "dec_string j s = str_field (\<lambda>x _. x) s j"

text \<open>The same structure with the same tags on the side of a client.\<close>

definition routeResponse_fields :: "routeResponse field list" where
  "routeResponse_fields =
     [(''bucket_id'', int_field (\<lambda>x. rrBucketID_update (\<lambda>_. x))),
      (''read_shard_id'', str_field (\<lambda>x. rrReadShardID_update (\<lambda>_. x))),
      (''write_shard_ids'', sub_field (dec_slice dec_string []) rrWriteShardIDs (\<lambda>x. rrWriteShardIDs_update (\<lambda>_. x))),
      (''migration_state'', str_field (\<lambda>x. rrMigrationState_update (\<lambda>_. x))),
      (''writer_endpoint'', str_field (\<lambda>x. rrWriterEndpoint_update (\<lambda>_. x))),
      (''reader_endpoint'', str_field (\<lambda>x. rrReaderEndpoint_update (\<lambda>_. x)))]"

lemma find_route_field [simp]:
  "find_field routeResponse_fields ''bucket_id'' = Some (int_field (\<lambda>x. rrBucketID_update (\<lambda>_. x)))"
  "find_field routeResponse_fields ''read_shard_id'' = Some (str_field (\<lambda>x. rrReadShardID_update (\<lambda>_. x)))"
  "find_field routeResponse_fields ''write_shard_ids'' =
     Some (sub_field (dec_slice dec_string []) rrWriteShardIDs (\<lambda>x. rrWriteShardIDs_update (\<lambda>_. x)))"
  "find_field routeResponse_fields ''migration_state'' = Some (str_field (\<lambda>x. rrMigrationState_update (\<lambda>_. x)))"
  "find_field routeResponse_fields ''writer_endpoint'' = Some (str_field (\<lambda>x. rrWriterEndpoint_update (\<lambda>_. x)))"
  "find_field routeResponse_fields ''reader_endpoint'' = Some (str_field (\<lambda>x. rrReaderEndpoint_update (\<lambda>_. x)))"
  by (simp_all add: find_field_def routeResponse_fields_def)

lemma dec_strings [simp]: "dec_elems dec_string [] [] (map JStr xs) = Some xs"
  by (induction xs) (simp_all add: dec_string_def str_field_def)

lemma dec_routeResponse:
  assumes "in_int64 (rrBucketID r)"
  shows "dec_struct routeResponse_fields (routeResponse_json r) zero_routeResponse = Some r"
  using assms
  by (cases r) (simp add: routeResponse_json_def omit_empty_def dec_struct_obj int_field_def str_field_def sub_field_def
      dec_slice_def Atoi_fmt_int zero_routeResponse_def)

definition ascii_shard :: "ShardDef \<Rightarrow> bool" where
  "ascii_shard s \<longleftrightarrow> ascii_bytes (ShardID s) \<and> ascii_bytes (Host (Writer s)) \<and> ascii_bytes (Database (Writer s)) \<and>
     (case Reader s of None \<Rightarrow> True | Some e \<Rightarrow> ascii_bytes (Host e) \<and> ascii_bytes (Database e))"

lemma ascii_Endpoint_String: "ascii_bytes (Host e) \<Longrightarrow> ascii_bytes (Database e) \<Longrightarrow> ascii_bytes (Endpoint_String e)"
  by (simp add: Endpoint_String_def ascii_Cons)

lemma plain_routeResponse:
  assumes "ascii_shard (ReadShard res)" and "list_all ascii_shard (WriteShards res)" and "ascii_bytes (ResMigrationState res)"
    and "in_int64 (ResBucketID res)"
  shows "plain_json (routeResponse_json (routeResponse_of res))"
    and "json_depth (routeResponse_json (routeResponse_of res)) \<le> maxNestingDepth"
proof -
  have names: "ascii_bytes ''bucket_id''" "ascii_bytes ''read_shard_id''" "ascii_bytes ''write_shard_ids''"
    "ascii_bytes ''migration_state''" "ascii_bytes ''writer_endpoint''" "ascii_bytes ''reader_endpoint''"
    by (simp_all add: ascii_bytes_def)
  have reader: "ascii_bytes (rrReaderEndpoint (routeResponse_of res))"
    using assms(1) by (auto simp: routeResponse_of_def ascii_shard_def ascii_Endpoint_String split: option.splits)
  have writer: "ascii_bytes (rrWriterEndpoint (routeResponse_of res))"
    using assms(1) by (simp add: routeResponse_of_def ascii_shard_def ascii_Endpoint_String)
  have ids: "list_all (\<lambda>s. ascii_bytes (ShardID s)) (WriteShards res)"
    using assms(2) by (auto simp: list_all_iff ascii_shard_def)
  show "plain_json (routeResponse_json (routeResponse_of res))"
    using names reader writer ids assms
    by (simp add: routeResponse_json_def omit_empty_def list_all_iff)
      (simp add: routeResponse_of_def ascii_shard_def Atoi_fmt_int)
  have "fold max (map json_depth (map JStr xs)) 0 \<le> 0" for xs
    by (rule fold_max_le) (simp_all add: list_all_iff)
  then show "json_depth (routeResponse_json (routeResponse_of res)) \<le> maxNestingDepth"
    by (simp add: routeResponse_json_def omit_empty_def maxNestingDepth_def)
qed

lemma Resolve_bucket: "Resolve r store k = Inr res \<Longrightarrow> ResBucketID res = BucketFor k (bucketCount r)"
  by (auto simp: Resolve_route check_available_ok Let_def split: option.splits)

lemma BucketFor_int64: "in_int64 (BucketFor k n)"
  by (simp add: BucketFor_def Let_def wrap_in_range)

text \<open>
  the debugging page tells the truth. For a key that resolves, \<open>/v1/route\<close> answers 200 with a body
  from which a client, reading it into the same structure, gets back the bucket, the shards, the
  migration state and the endpoints of the decision, and the request is counted for the shard.
\<close>

theorem route_page_roundtrip:
  assumes "Query_Get q ''shard_key'' = c # key" and "Resolve (srvRouter s) store (AnyString (c # key)) = Inr res"
    and "ascii_shard (ReadShard res)" and "list_all ascii_shard (WriteShards res)" and "ascii_bytes (ResMigrationState res)"
  shows "\<exists>resp. handleRoute pr store q s =
      (resp, s\<lparr>srvMetrics := IncRoutingRequest (ShardID (ReadShard res)) (ResBucketID res) (srvMetrics s)\<rparr>) \<and>
    rStatus resp = 200 \<and>
    Unmarshal (dec_struct routeResponse_fields) zero_routeResponse (rBody resp) = Inr (routeResponse_of res)"
proof -
  have i: "in_int64 (ResBucketID res)" using Resolve_bucket [OF assms(2)] BucketFor_int64 by simp
  have "json_parse (marshal (routeResponse_json (routeResponse_of res)) @ [CHR 0x0A]) = Some (routeResponse_json (routeResponse_of res))"
    using plain_routeResponse [OF assms(3-5) i] by (rule json_parse_marshal_line)
  moreover have "dec_struct routeResponse_fields (routeResponse_json (routeResponse_of res)) zero_routeResponse = Some (routeResponse_of res)"
    using i by (intro dec_routeResponse) (simp add: routeResponse_of_def)
  ultimately show ?thesis
    using assms(1,2) by (simp add: handleRoute_def writeJSON_def Unmarshal_def)
qed

theorem route_page_roundtrip_witness:
  "\<exists>resp. fst (handleRoute (\<lambda>_. False) (Some (test_mapping ''ACTIVE'' ''ACTIVE'' ''DUAL_WRITE'')) ''shard_key=tenant-1''
      (NewServer (Router.New 1) (NewManager DefaultConfig NewRegistry) NewMetrics)) = resp \<and> rStatus resp = 200 \<and>
    map_option rrWriteShardIDs (case Unmarshal (dec_struct routeResponse_fields) zero_routeResponse (rBody resp) of
      Inl _ \<Rightarrow> None | Inr r \<Rightarrow> Some r) = Some [''shard-01'', ''shard-05'']"
proof -
  let ?s = "NewServer (Router.New 1) (NewManager DefaultConfig NewRegistry) NewMetrics"
  let ?src = "test_shard ''shard-01'' ''ACTIVE''" and ?dst = "test_shard ''shard-05'' ''ACTIVE''"
  let ?res = "\<lparr>ResBucketID = 0, ReadShard = ?src, WriteShards = [?src, ?dst], ResMigrationState = ''DUAL_WRITE''\<rparr>"
  have q: "Query_Get ''shard_key=tenant-1'' ''shard_key'' = CHR ''t'' # ''enant-1''"
    by code_simp
  have r: "Resolve (srvRouter ?s) (Some (test_mapping ''ACTIVE'' ''ACTIVE'' ''DUAL_WRITE'')) (AnyString (CHR ''t'' # ''enant-1'')) = Inr ?res"
    by (simp add: NewServer_def fixture_defs)
  have a: "ascii_shard ?src" "ascii_shard ?dst" "ascii_bytes ''DUAL_WRITE''"
    by (simp_all add: ascii_shard_def test_shard_def ascii_bytes_def)
  from route_page_roundtrip [OF q r, of "\<lambda>_. False"] a show ?thesis
    by (auto simp: routeResponse_of_def test_shard_def)
qed

section \<open>The metrics page\<close>

lemma sortedKeys_set: "distinct ks \<Longrightarrow> sortedKeys ks = sorted_list_of_set (set ks)"
  by (simp add: sortedKeys_def sorted_list_of_set_sort_remdups distinct_remdups_id)

text \<open>
  the metrics page does not depend on Go's map order. Whatever orders the three iterations take,
  the page lists each shard that had a request exactly once, in the order of the names, with its
  counter, then the error counter, then each shard that has a breaker with the breaker's state.
\<close>

theorem metrics_page:
  assumes "set copied = dom (requestsByShard (srvMetrics s))"
    and "set ks = dom (requestsByShard (srvMetrics s))" and "distinct ks"
    and "set bs = dom (breakers (srvPool s))" and "distinct bs"
  shows "rBody (handleMetrics pr copied ks bs s) =
    requests_help @ concat (map (\<lambda>k. requests_line pr k (count_of (requestsByShard (srvMetrics s)) k))
      (sorted_list_of_set (dom (requestsByShard (srvMetrics s))))) @
    errors_help @ errors_line (routingErrors (srvMetrics s)) @
    breaker_help @ concat (map (\<lambda>k. breaker_line pr k (state (breaker_of (breakers (srvPool s)) k)))
      (sorted_list_of_set (dom (breakers (srvPool s)))))"
proof -
  have "state_at (Snapshot (breakers (srvPool s))) k = state (breaker_of (breakers (srvPool s)) k)" for k
    by (auto simp: state_at_def Snapshot_def breaker_of_def Breaker.New_def split: option.split)
  then show ?thesis
    using assms by (simp add: handleMetrics_def Metrics_Snapshot_def copy_counts_eq sortedKeys_set)
qed

theorem metrics_page_witness:
  "rBody (handleMetrics (\<lambda>_. False) [''s2'', ''s1''] [''s2'', ''s1''] [''s1'']
     \<lparr>srvRouter = Router.New 1, srvPool = NewManager DefaultConfig [''s1'' \<mapsto> Breaker.New\<lparr>state := HalfOpen\<rparr>],
      srvMetrics = \<lparr>requestsByShard = [''s1'' \<mapsto> 3, ''s2'' \<mapsto> 1], routingErrors = 2\<rparr>\<rparr>) =
   requests_help @ requests_line (\<lambda>_. False) ''s1'' 3 @ requests_line (\<lambda>_. False) ''s2'' 1 @
   errors_help @ errors_line 2 @ breaker_help @ breaker_line (\<lambda>_. False) ''s1'' HalfOpen"
proof -
  let ?s = "\<lparr>srvRouter = Router.New 1, srvPool = NewManager DefaultConfig [''s1'' \<mapsto> Breaker.New\<lparr>state := HalfOpen\<rparr>],
      srvMetrics = \<lparr>requestsByShard = [''s1'' \<mapsto> 3, ''s2'' \<mapsto> 1], routingErrors = 2\<rparr>\<rparr>"
  have doms: "set [''s2'', ''s1''] = dom (requestsByShard (srvMetrics ?s))" "set [''s1''] = dom (breakers (srvPool ?s))"
    by (auto simp: NewManager_def)
  have lists: "sorted_list_of_set (dom (requestsByShard (srvMetrics ?s))) = [''s1'', ''s2'']"
    "sorted_list_of_set (dom (breakers (srvPool ?s))) = [''s1'']"
    unfolding doms [symmetric] by code_simp+
  show ?thesis
    using metrics_page [OF doms(1) doms(1) _ doms(2), of "\<lambda>_. False"] unfolding lists
    by (simp add: count_of_def breaker_of_def NewManager_def)
qed

section \<open>Health\<close>

text \<open>
  the health check looks at one bucket. Without a map it answers 503; with one, its answer is a
  function of the shards and of the one bucket of the probe key, so it says nothing about any
  other bucket: with all of them unassigned the answer is the same.
\<close>

theorem health_sees_one_bucket:
  assumes "Shards m' = Shards m"
    and "Buckets m' (BucketFor (AnyString ''healthcheck-probe-key'') (bucketCount (srvRouter s))) =
      Buckets m (BucketFor (AnyString ''healthcheck-probe-key'') (bucketCount (srvRouter s)))"
  shows "rStatus (handleHealth pr None s) = 503 \<and> handleHealth pr (Some m') s = handleHealth pr (Some m) s"
proof -
  have "Resolve (srvRouter s) (Some m') (AnyString ''healthcheck-probe-key'') =
      Resolve (srvRouter s) (Some m) (AnyString ''healthcheck-probe-key'')"
    by (simp only: Resolve_route Load_def Let_def option.case assms)
  then show ?thesis
    by (simp add: handleHealth_def) (simp add: Resolve_route Load_def writeJSON_def)
qed

theorem health_sees_one_bucket_witness:
  "handleHealth (\<lambda>_. False) (Some ((test_mapping ''ACTIVE'' ''ACTIVE'' ''COPYING'')\<lparr>Revision := 9\<rparr>))
     (NewServer (Router.New 1) (NewManager DefaultConfig NewRegistry) NewMetrics) =
   handleHealth (\<lambda>_. False) (Some (test_mapping ''ACTIVE'' ''ACTIVE'' ''COPYING''))
     (NewServer (Router.New 1) (NewManager DefaultConfig NewRegistry) NewMetrics)"
  using health_sees_one_bucket [of "(test_mapping ''ACTIVE'' ''ACTIVE'' ''COPYING'')\<lparr>Revision := 9\<rparr>" "test_mapping ''ACTIVE'' ''ACTIVE'' ''COPYING''"]
  by simp

end
