(* ===== verification/Api_Query.thy ===== *)
theory Api_Query
  imports Api
begin

text \<open>
  What a query does: which statement runs on which connection, what it leaves behind, how it is
  answered, and what the goroutines of a dual write do to the order of the statements.
\<close>

section \<open>The outcome of a routed query\<close>

definition use_connection :: "effect list \<Rightarrow> ShardDef \<Rightarrow> Endpoint \<Rightarrow> effect \<Rightarrow> bool" where
  "use_connection eff shard ep use \<longleftrightarrow> (\<exists>cls conn sql args.
     eff = map PoolClosed cls @ [Connected shard ep conn, use, Released conn] \<and>
     use \<in> {Queried conn sql args, Executed conn sql args})"

lemma handleRead_cases:
  assumes "handleRead w res req s = out"
  obtains (refused) err cls m where
      "Acquire (Clock w) (Driver w) (Others w) (ReadShard res) (ReadEndpoint res (ParseReadConsistency (qConsistency req))) (srvPool s) = (Inl err, cls, m)"
      "oResponse out = writePoolError w (ShardID (ReadShard res)) err" "oEffects out = map PoolClosed cls"
      "oStarted out = []" "oServer out = s\<lparr>srvPool := m\<rparr>"
  | (connected) conn cls m where
      "Acquire (Clock w) (Driver w) (Others w) (ReadShard res) (ReadEndpoint res (ParseReadConsistency (qConsistency req))) (srvPool s) = (Inr conn, cls, m)"
      "oResponse out = read_response w res (ConnQuery w conn (qSQL req) (qArgs req))"
      "oEffects out = map PoolClosed cls @ [Connected (ReadShard res) (ReadEndpoint res (ParseReadConsistency (qConsistency req))) conn,
         Queried conn (qSQL req) (qArgs req), Released conn]"
      "oStarted out = []" "oServer out = s\<lparr>srvPool := m\<rparr>"
proof -
  obtain r cls m where a: "Acquire (Clock w) (Driver w) (Others w) (ReadShard res)
      (ReadEndpoint res (ParseReadConsistency (qConsistency req))) (srvPool s) = (r, cls, m)"
    by (metis prod.exhaust)
  show thesis
  proof (cases r)
    case (Inl err)
    with a assms show thesis by (intro refused) (auto simp: handleRead_def)
  next
    case (Inr conn)
    with a assms show thesis by (intro connected) (auto simp: handleRead_def)
  qed
qed

lemma handleWrite_cases:
  assumes "handleWrite w res req s = Some out" and "PrimaryWriteShard res = Some primary"
  obtains (refused) err cls m where
      "Acquire (Clock w) (Driver w) (Others w) primary (Writer primary) (srvPool s) = (Inl err, cls, m)"
      "oResponse out = writePoolError w (ShardID primary) err" "oEffects out = map PoolClosed cls"
      "oStarted out = []" "oServer out = s\<lparr>srvPool := m\<rparr>"
  | (failed) conn cls m e where
      "Acquire (Clock w) (Driver w) (Others w) primary (Writer primary) (srvPool s) = (Inr conn, cls, m)"
      "ConnExec w conn (qSQL req) (qArgs req) = Inl e" "rStatus (oResponse out) = 502"
      "oEffects out = map PoolClosed cls @ [Connected primary (Writer primary) conn, Executed conn (qSQL req) (qArgs req), Released conn]"
      "oStarted out = []" "oServer out = s\<lparr>srvPool := m\<rparr>"
  | (written) conn cls m affected where
      "Acquire (Clock w) (Driver w) (Others w) primary (Writer primary) (srvPool s) = (Inr conn, cls, m)"
      "ConnExec w conn (qSQL req) (qArgs req) = Inr affected" "rStatus (oResponse out) = 200"
      "oEffects out = map PoolClosed cls @ [Connected primary (Writer primary) conn, Executed conn (qSQL req) (qArgs req), Released conn]"
      "oStarted out = map (\<lambda>shard. \<lparr>dwShard = shard, dwSQL = qSQL req, dwArgs = qArgs req\<rparr>) (drop 1 (WriteShards res))"
      "oServer out = s\<lparr>srvPool := m\<rparr>"
proof -
  obtain r cls m where a: "Acquire (Clock w) (Driver w) (Others w) primary (Writer primary) (srvPool s) = (r, cls, m)"
    by (metis prod.exhaust)
  show thesis
  proof (cases r)
    case (Inl err)
    with a assms show thesis by (intro refused) (auto simp: handleWrite_def)
  next
    case (Inr conn)
    show thesis
    proof (cases "ConnExec w conn (qSQL req) (qArgs req)")
      case (Inl e)
      with Inr a assms show thesis by (intro failed) (auto simp: handleWrite_def writeError_def writeJSON_def)
    next
      case (Inr affected)
      with \<open>r = Inr conn\<close> a assms show thesis by (intro written) (auto simp: handleWrite_def writeJSON_def)
    qed
  qed
qed

lemma write_connects:
  assumes "Acquire (Clock w) (Driver w) (Others w) primary (Writer primary) (srvPool s) = (Inr conn, cls, m)"
    and "PrimaryWriteShard res = Some primary"
  shows "\<exists>out. handleWrite w res req s = Some out \<and> oServer out = s\<lparr>srvPool := m\<rparr> \<and> oEffects out =
    map PoolClosed cls @ [Connected primary (Writer primary) conn, Executed conn (qSQL req) (qArgs req), Released conn]"
  using assms by (cases "ConnExec w conn (qSQL req) (qArgs req)") (simp_all add: handleWrite_def)

lemma read_connects:
  assumes "Acquire (Clock w) (Driver w) (Others w) (ReadShard res) (ReadEndpoint res (ParseReadConsistency (qConsistency req)))
    (srvPool s) = (Inr conn, cls, m)"
  shows "oEffects (handleRead w res req s) = map PoolClosed cls @
    [Connected (ReadShard res) (ReadEndpoint res (ParseReadConsistency (qConsistency req))) conn,
     Queried conn (qSQL req) (qArgs req), Released conn]"
    and "oResponse (handleRead w res req s) = read_response w res (ConnQuery w conn (qSQL req) (qArgs req))"
  using assms by (simp_all add: handleRead_def)

text \<open>The request a body holds, if it is complete.\<close>

definition query_of :: "bytes \<Rightarrow> queryRequest option" where
  "query_of body =
     (case Decode (dec_struct queryRequest_fields) zero_queryRequest body of
        Inl _ \<Rightarrow> None
      | Inr (req, _) \<Rightarrow> if qShardKey req = AnyNil \<or> qSQL req = [] then None else Some req)"

lemma handleQuery_invalid:
  assumes "query_of body = None"
  shows "\<exists>msg. handleQuery w store body s =
    Some \<lparr>oResponse = writeError 400 msg, oEffects = [], oStarted = [], oServer = s\<rparr>"
  using assms by (auto simp: handleQuery_def query_of_def split: sum.splits if_splits)

lemma handleQuery_unrouted:
  assumes "query_of body = Some req" and "Resolve (srvRouter s) store (qShardKey req) = Inl err"
  shows "handleQuery w store body s = Some \<lparr>oResponse = writeRouterError (Printable w) err, oEffects = [],
    oStarted = [], oServer = s\<lparr>srvMetrics := IncRoutingError (srvMetrics s)\<rparr>\<rparr>"
  using assms by (auto simp: handleQuery_def query_of_def split: sum.splits if_splits)

definition counted :: "Resolved \<Rightarrow> Server \<Rightarrow> Server" where
  "counted res s = s\<lparr>srvMetrics := IncRoutingRequest (ShardID (ReadShard res)) (ResBucketID res) (srvMetrics s)\<rparr>"

lemma counted_simps [simp]: "srvPool (counted res s) = srvPool s" "srvRouter (counted res s) = srvRouter s"
  by (simp_all add: counted_def)

lemma handleQuery_routed:
  assumes "query_of body = Some req" and "Resolve (srvRouter s) store (qShardKey req) = Inr res"
  shows "handleQuery w store body s =
    (if qWrite req then handleWrite w res req (counted res s) else Some (handleRead w res req (counted res s)))"
  using assms by (auto simp: handleQuery_def query_of_def counted_def Let_def split: sum.splits if_splits)

lemma handleWrite_total:
  assumes "Resolve r store k = Inr res"
  shows "\<exists>out. handleWrite w res req s = Some out"
  using Resolve_primary [OF assms] by (simp add: handleWrite_def Let_def split: prod.splits)

text \<open>Every way a query can go, with the request, the route and the outcome of the handler it ends in.\<close>

lemma handleQuery_cases:
  obtains (invalid) msg where "query_of body = None" and "handleQuery w store body s =
      Some \<lparr>oResponse = writeError 400 msg, oEffects = [], oStarted = [], oServer = s\<rparr>"
  | (unrouted) req err where "query_of body = Some req" "Resolve (srvRouter s) store (qShardKey req) = Inl err"
      "handleQuery w store body s = Some \<lparr>oResponse = writeRouterError (Printable w) err, oEffects = [],
        oStarted = [], oServer = s\<lparr>srvMetrics := IncRoutingError (srvMetrics s)\<rparr>\<rparr>"
  | (reads) req res where "query_of body = Some req" "Resolve (srvRouter s) store (qShardKey req) = Inr res" "\<not> qWrite req"
      "handleQuery w store body s = Some (handleRead w res req (counted res s))"
  | (writes) req res out where "query_of body = Some req" "Resolve (srvRouter s) store (qShardKey req) = Inr res" "qWrite req"
      "PrimaryWriteShard res = Some (ReadShard res)"
      "handleQuery w store body s = Some out" "handleWrite w res req (counted res s) = Some out"
proof (cases "query_of body")
  case None
  with handleQuery_invalid [OF None, of w store s] invalid show thesis by blast
next
  case req: (Some req)
  show thesis
  proof (cases "Resolve (srvRouter s) store (qShardKey req)")
    case (Inl err)
    with req handleQuery_unrouted show thesis by (intro unrouted)
  next
    case (Inr res)
    show thesis
    proof (cases "qWrite req")
      case True
      obtain out where "handleWrite w res req (counted res s) = Some out"
        using handleWrite_total [OF Inr] by blast
      with True req Inr handleQuery_routed [OF req Inr, of w] Resolve_primary [OF Inr] show thesis
        by (intro writes) simp_all
    next
      case False
      with req Inr handleQuery_routed [OF req Inr, of w] show thesis by (intro reads) simp_all
    qed
  qed
qed

section \<open>Where a statement runs\<close>

text \<open>
  C4: a query runs once, where the table says. For every body, server and map the handler of
  \<open>/v1/query\<close> answers without a panic, and either runs no statement at all or exactly one: the
  statement of the request, on a connection of the shard that the routing table gives for the
  key's bucket, at its writer, or for an eventually consistent read at its reader if it has
  one; and the connection is released.
\<close>

theorem query_runs_where_routed:
  "\<exists>out cls. handleQuery w (Some m) body s = Some out \<and>
    (oEffects out = map PoolClosed cls \<or>
     (\<exists>req res conn. query_of body = Some req \<and>
        resolve_spec m (BucketFor (qShardKey req) (bucketCount (srvRouter s))) = Some res \<and>
        oEffects out = map PoolClosed cls @
          [Connected (ReadShard res)
             (if \<not> qWrite req \<and> qConsistency req = ''EVENTUAL'' \<and> Reader (ReadShard res) \<noteq> None
              then the (Reader (ReadShard res)) else Writer (ReadShard res)) conn,
           if qWrite req then Executed conn (qSQL req) (qArgs req) else Queried conn (qSQL req) (qArgs req),
           Released conn]))"
proof (cases rule: handleQuery_cases [where w = w and store = "Some m" and body = body and s = s])
  case (invalid msg)
  then show ?thesis by auto
next
  case (unrouted req err)
  then show ?thesis by auto
next
  case (reads req res)
  then have spec: "resolve_spec m (BucketFor (qShardKey req) (bucketCount (srvRouter s))) = Some res"
    by (simp add: Resolve_refines)
  have ep: "ReadEndpoint res (ParseReadConsistency (qConsistency req)) =
      (if qConsistency req = ''EVENTUAL'' \<and> Reader (ReadShard res) \<noteq> None
       then the (Reader (ReadShard res)) else Writer (ReadShard res))"
    using ParseReadConsistency_eventual [of "qConsistency req"]
    by (auto simp: ReadEndpoint_def ReadEventual_def split: option.split)
  have "\<exists>out. handleRead w res req (counted res s) = out" by simp
  then obtain out where out: "handleRead w res req (counted res s) = out" ..
  from out show ?thesis
  proof (cases rule: handleRead_cases)
    case (refused err cls m')
    with reads out show ?thesis by auto
  next
    case (connected conn cls m')
    with reads out spec show ?thesis
      by (intro exI [of _ out] exI [of _ cls] conjI disjI2 exI [of _ req] exI [of _ res] exI [of _ conn]) (simp_all add: ep)
  qed
next
  case (writes req res out)
  then have spec: "resolve_spec m (BucketFor (qShardKey req) (bucketCount (srvRouter s))) = Some res"
    by (simp add: Resolve_refines)
  from writes(6,4) show ?thesis
    by (cases rule: handleWrite_cases) (use writes spec in fastforce)+
qed

section \<open>How a query is answered\<close>

definition acquired :: "('c, 'd, 's, 'v) world \<Rightarrow> queryRequest \<Rightarrow> Resolved \<Rightarrow> Server \<Rightarrow> (('d, 's) pool_error, conn) result" where
  "acquired w req res s = fst (Acquire (Clock w) (Driver w) (Others w) (ReadShard res)
     (if qWrite req then Writer (ReadShard res) else ReadEndpoint res (ParseReadConsistency (qConsistency req))) (srvPool s))"

definition statement_fails :: "('c, 'd, 's, 'v) world \<Rightarrow> queryRequest \<Rightarrow> conn \<Rightarrow> bool" where
  "statement_fails w req conn \<longleftrightarrow>
     (if qWrite req then \<not> is_ok (ConnExec w conn (qSQL req) (qArgs req))
      else case ConnQuery w conn (qSQL req) (qArgs req) of
        Inl _ \<Rightarrow> True | Inr rows \<Rightarrow> \<not> list_all is_ok (RowValues rows) \<or> RowsErr rows \<noteq> None)"

lemma read_rows_ok: "is_ok (read_rows rs) \<longleftrightarrow> list_all is_ok rs"
  by (induction rs rule: read_rows.induct) (auto split: sum.splits)

lemma status_simps [simp]: "rStatus (writeError n msg) = n" "rStatus (writeJSON n v) = n"
  "rStatus (writePoolError w sid err) = 503"
  by (simp_all add: writeError_def writeJSON_def writePoolError_def)

lemma read_response_status:
  "rStatus (read_response w res r) = (case r of Inl _ \<Rightarrow> 502 | Inr rows \<Rightarrow>
     if list_all is_ok (RowValues rows) \<and> RowsErr rows = None then 200 else 502)"
proof (cases r)
  case (Inr rows)
  then show ?thesis
    using read_rows_ok [of "RowValues rows"]
    by (cases "read_rows (RowValues rows)"; cases "RowsErr rows") (simp_all add: read_response_def)
qed (simp add: read_response_def)

lemma writeRouterError_status:
  "rStatus (writeRouterError pr err) =
    (case err of ErrNoMapping \<Rightarrow> 503 | ErrShardUnavailable _ \<Rightarrow> 503 | _ \<Rightarrow> 500)"
  by (cases err) (simp_all add: writeRouterError_def)

text \<open>The status by what went wrong first.\<close>

definition query_status :: "('c, 'd, 's, 'v) world \<Rightarrow> Store \<Rightarrow> bytes \<Rightarrow> Server \<Rightarrow> int" where
  "query_status w store body s =
     (case query_of body of None \<Rightarrow> 400 | Some req \<Rightarrow>
      case Resolve (srvRouter s) store (qShardKey req) of
        Inl ErrNoMapping \<Rightarrow> 503 | Inl (ErrShardUnavailable _) \<Rightarrow> 503 | Inl _ \<Rightarrow> 500
      | Inr res \<Rightarrow>
          (case acquired w req res s of
             Inl _ \<Rightarrow> 503 | Inr conn \<Rightarrow> if statement_fails w req conn then 502 else 200))"

text \<open>
  C8: every failure has its status, and every success is one. A query is answered with 400 exactly if
  its body is no complete request, with 503 if there is no map, a shard is not ACTIVE or the
  pool refuses, with 500 if the map is inconsistent, with 502 if the statement or the reading
  of its rows fails, and with 200 in all other cases.
  With 400 and 500 nothing has been done: no connection was taken and no goroutine started.
\<close>

theorem query_status_exact:
  "\<exists>out. handleQuery w store body s = Some out \<and> rStatus (oResponse out) = query_status w store body s \<and>
    (rStatus (oResponse out) \<in> {400, 500} \<longrightarrow> oEffects out = [] \<and> oStarted out = [] \<and> srvPool (oServer out) = srvPool s)"
proof (cases rule: handleQuery_cases [where w = w and store = store and body = body and s = s])
  case (unrouted req err)
  then show ?thesis by (cases err) (simp_all add: query_status_def writeRouterError_status)
next
  case (reads req res)
  have "\<exists>out. handleRead w res req (counted res s) = out" by simp
  then obtain out where out: "handleRead w res req (counted res s) = out" ..
  from out show ?thesis
  proof (cases rule: handleRead_cases)
    case (refused err cls m')
    with reads out show ?thesis by (simp add: query_status_def acquired_def)
  next
    case (connected conn cls m')
    with reads out show ?thesis
      by (auto simp: query_status_def acquired_def read_response_status statement_fails_def split: sum.split)
  qed
next
  case (writes req res out)
  from writes(6,4) show ?thesis
    by (cases rule: handleWrite_cases)
      (use writes in \<open>simp_all add: query_status_def acquired_def statement_fails_def\<close>)
qed (simp add: query_status_def)

section \<open>Fixtures\<close>

definition read_body :: bytes where
  "read_body = quoted ''{`shard_key`:`tenant-1`,`sql`:`SELECT 1`}''"

definition write_body :: "bytes \<Rightarrow> bytes" where
  "write_body sql = quoted ''{`shard_key`:`tenant-1`,`write`:true,`sql`:`'' @ sql @ quoted ''`}''"

definition read_req :: queryRequest where
  "read_req = zero_queryRequest\<lparr>qShardKey := AnyString ''tenant-1'', qSQL := ''SELECT 1''\<rparr>"

definition write_req :: "bytes \<Rightarrow> queryRequest" where
  "write_req sql = zero_queryRequest\<lparr>qShardKey := AnyString ''tenant-1'', qSQL := sql, qWrite := True\<rparr>"

lemma fixture_queries:
  "query_of read_body = Some read_req" "query_of (write_body ''A'') = Some (write_req ''A'')"
  "query_of (write_body ''B'') = Some (write_req ''B'')"
  by code_simp+

lemma fixture_reqs [simp]:
  "qShardKey read_req = AnyString ''tenant-1''" "qShardKey (write_req sql) = AnyString ''tenant-1''"
  "\<not> qWrite read_req" "qWrite (write_req sql)" "qSQL (write_req sql) = sql" "qArgs (write_req sql) = []"
  "qConsistency read_req = []" "qSQL read_req = ''SELECT 1''" "qArgs read_req = []"
  by (simp_all add: read_req_def write_req_def zero_queryRequest_def)

text \<open>A database that answers every statement, and one value of which JSON has no encoding.\<close>

definition test_world :: "(bytes, bytes, secrets_error, any) world" where
  "test_world = \<lparr>Clock = \<lparr>tAllow = 1, tLookup = 2, tInstall = 3, tFailure = 4\<rparr>,
     Driver = test_driver\<lparr>AcquireConn := (\<lambda>p. Inr 7)\<rparr>, Others = id,
     ConnQuery = (\<lambda>c sql args. Inr \<lparr>FieldNames = [''n''], RowValues = [Inr [AnyNil]], RowsErr = None\<rparr>),
     ConnExec = (\<lambda>c sql args. Inr 1), EncodeValue = (\<lambda>v. if v = AnyNil then None else Some (fmt_v v)),
     DriverText = id, SecretText = (\<lambda>e. []), DecodeText = id, Printable = (\<lambda>r. False)\<rparr>"

definition test_server :: Server where
  "test_server = NewServer (Router.New 1) (NewManager DefaultConfig NewRegistry) NewMetrics"

definition test_store :: "MigrationState \<Rightarrow> Store" where
  "test_store st = Some (test_mapping ''ACTIVE'' ''ACTIVE'' st)"

definition source_shard :: ShardDef where "source_shard = test_shard ''shard-01'' ''ACTIVE''"
definition dest_shard :: ShardDef where "dest_shard = test_shard ''shard-05'' ''ACTIVE''"

lemma fixture_routes:
  "Resolve (srvRouter test_server) (test_store ''DUAL_WRITE'') k =
     Inr \<lparr>ResBucketID = 0, ReadShard = source_shard, WriteShards = [source_shard, dest_shard], ResMigrationState = ''DUAL_WRITE''\<rparr>"
  "Resolve (srvRouter test_server) (test_store ''CUTOVER'') k =
     Inr \<lparr>ResBucketID = 0, ReadShard = dest_shard, WriteShards = [dest_shard], ResMigrationState = ''CUTOVER''\<rparr>"
  by (simp_all add: test_server_def NewServer_def test_store_def source_shard_def dest_shard_def fixture_defs)

definition all_closed :: "Manager \<Rightarrow> bool" where
  "all_closed m \<longleftrightarrow> (\<forall>sid. state (breaker_of (breakers m) sid) = Closed)"

lemma all_closed_server [simp]: "all_closed (srvPool test_server)"
  by (simp add: all_closed_def test_server_def NewServer_def NewManager_def breaker_of_def NewRegistry_def Breaker.New_def)

lemma test_world_connects:
  assumes "all_closed m"
  shows "\<exists>cls m'. Acquire (Clock test_world) (Driver test_world) (Others test_world) shard ep m = (Inr 7, cls, m') \<and> all_closed m'"
proof -
  have "Allow t (breaker_of (breakers m) (ShardID shard)) = (None, breaker_of (breakers m) (ShardID shard))" for t
    using assms by (simp add: all_closed_def Allow_def)
  then have "fst (Acquire (Clock test_world) (Driver test_world) (Others test_world) shard ep m) = Inr 7"
    by (auto simp: Acquire_def poolFor_def build_pool_def lookup_pool_def install_pool_def Let_def
        test_world_def test_driver_def split: option.split)
  then obtain cls m' where acq: "Acquire (Clock test_world) (Driver test_world) (Others test_world) shard ep m = (Inr 7, cls, m')"
    by (metis prod.collapse)
  have "all_closed m'"
    using assms Acquire_breakers [OF acq] by (auto simp: all_closed_def reports_def Allow_def Success_def)
  with acq show ?thesis by blast
qed

theorem query_status_exact_witness:
  "(\<exists>out. handleQuery test_world (Some ((test_mapping ''ACTIVE'' ''ACTIVE'' ''STABLE'')\<lparr>Buckets := Map.empty\<rparr>)) read_body test_server = Some out \<and>
      rStatus (oResponse out) = 500 \<and> oEffects out = [] \<and> srvPool (oServer out) = srvPool test_server) \<and>
   (\<exists>out. handleQuery test_world (test_store ''CUTOVER'') (write_body ''A'') test_server = Some out \<and> rStatus (oResponse out) = 200)"
proof
  have "query_status test_world (Some ((test_mapping ''ACTIVE'' ''ACTIVE'' ''STABLE'')\<lparr>Buckets := Map.empty\<rparr>)) read_body test_server = 500"
    using fixture_queries(1) by (simp add: query_status_def Resolve_def Load_def test_mapping_def)
  then show "\<exists>out. handleQuery test_world (Some ((test_mapping ''ACTIVE'' ''ACTIVE'' ''STABLE'')\<lparr>Buckets := Map.empty\<rparr>)) read_body test_server = Some out \<and>
      rStatus (oResponse out) = 500 \<and> oEffects out = [] \<and> srvPool (oServer out) = srvPool test_server"
    using query_status_exact [of test_world _ read_body test_server] by fastforce
next
  have "acquired test_world (write_req ''A'') \<lparr>ResBucketID = 0, ReadShard = dest_shard, WriteShards = [dest_shard],
      ResMigrationState = ''CUTOVER''\<rparr> test_server = Inr 7"
    using test_world_connects [OF all_closed_server, of dest_shard "Writer dest_shard"] by (auto simp: acquired_def)
  then have "query_status test_world (test_store ''CUTOVER'') (write_body ''A'') test_server = 200"
    using fixture_queries(2) fixture_routes(2)
    by (simp add: query_status_def statement_fails_def) (simp add: test_world_def)
  then show "\<exists>out. handleQuery test_world (test_store ''CUTOVER'') (write_body ''A'') test_server = Some out \<and> rStatus (oResponse out) = 200"
    using query_status_exact [of test_world "test_store ''CUTOVER''" "write_body ''A''" test_server] by auto
qed

section \<open>Consequences\<close>

text \<open>
  C30: a read sees where its write went. If a write and a read of the same key, the read not declared
  eventually consistent, are routed by the same map and both get a connection, then both
  connections are to the writer endpoint of the same shard, in every migration state.
\<close>

theorem reads_follow_writes:
  assumes "handleQuery w store body s = Some out" and "handleQuery w' store body' s' = Some out'"
    and "srvRouter s = srvRouter s'" and "query_of body = Some req" and "query_of body' = Some req'"
    and "qShardKey req = qShardKey req'" and "qWrite req" and "\<not> qWrite req'" and "qConsistency req' \<noteq> ''EVENTUAL''"
    and "Connected shard ep conn \<in> set (oEffects out)" and "Connected shard' ep' conn' \<in> set (oEffects out')"
  shows "shard = shard' \<and> ep = ep' \<and> ep = Writer shard"
proof (cases rule: handleQuery_cases [where w = w and store = store and body = body and s = s])
  case w: (writes req1 res out1)
  show ?thesis
  proof (cases rule: handleQuery_cases [where w = w' and store = store and body = body' and s = s'])
    case r: (reads req2 res')
    have res: "res' = res" using w(2) r(2) assms(3-6) w(1) r(1) by simp
    have ep: "ReadEndpoint res (ParseReadConsistency (qConsistency req')) = Writer (ReadShard res)"
      using assms(9) ParseReadConsistency_eventual [of "qConsistency req'"] by (simp add: ReadEndpoint_def ReadEventual_def)
    have out': "handleRead w' res' req2 (counted res' s') = out'" using r(4) assms(2) by simp
    have "shard' = ReadShard res \<and> ep' = Writer (ReadShard res)"
      using out' by (cases rule: handleRead_cases) (use assms(5,11) r(1) res ep in auto)
    moreover have "shard = ReadShard res \<and> ep = Writer (ReadShard res)"
      using w(6,4) by (cases rule: handleWrite_cases) (use w(5) assms(1,10) in auto)
    ultimately show ?thesis by simp
  qed (use assms in auto)
qed (use assms in auto)

theorem reads_follow_writes_witness:
  "\<exists>out out' ep. handleQuery test_world (test_store ''CUTOVER'') (write_body ''A'') test_server = Some out \<and>
    handleQuery test_world (test_store ''CUTOVER'') read_body test_server = Some out' \<and>
    Connected dest_shard ep 7 \<in> set (oEffects out) \<and> Connected dest_shard ep 7 \<in> set (oEffects out') \<and> ep = Writer dest_shard"
proof -
  let ?s = "test_server"
  have pool: "\<exists>cls m'. Acquire (Clock test_world) (Driver test_world) (Others test_world) dest_shard ep (srvPool ?s) = (Inr 7, cls, m')" for ep
    using test_world_connects [OF all_closed_server] by blast
  let ?res = "\<lparr>ResBucketID = 0, ReadShard = dest_shard, WriteShards = [dest_shard], ResMigrationState = ''CUTOVER''\<rparr>"
  have wr: "\<exists>out. handleQuery test_world (test_store ''CUTOVER'') (write_body ''A'') ?s = Some out \<and>
      Connected dest_shard (Writer dest_shard) 7 \<in> set (oEffects out)"
  proof -
    obtain cls m' where "Acquire (Clock test_world) (Driver test_world) (Others test_world) dest_shard (Writer dest_shard)
        (srvPool (counted ?res ?s)) = (Inr 7, cls, m')"
      using pool [of "Writer dest_shard"] by auto
    from write_connects [OF this, of ?res "write_req ''A''"]
    show ?thesis
      using handleQuery_routed [OF fixture_queries(2), of ?s _ ?res test_world] fixture_routes(2)
      by (force simp: PrimaryWriteShard_def)
  qed
  have rd: "\<exists>out ep. handleQuery test_world (test_store ''CUTOVER'') read_body ?s = Some out \<and>
      Connected dest_shard ep 7 \<in> set (oEffects out)"
  proof -
    obtain cls m' where "Acquire (Clock test_world) (Driver test_world) (Others test_world) (ReadShard ?res)
        (ReadEndpoint ?res (ParseReadConsistency (qConsistency read_req))) (srvPool (counted ?res ?s)) = (Inr 7, cls, m')"
      using pool [of "ReadEndpoint ?res (ParseReadConsistency (qConsistency read_req))"] by auto
    from read_connects [OF this]
    have "Connected dest_shard (ReadEndpoint ?res (ParseReadConsistency (qConsistency read_req))) 7
        \<in> set (oEffects (handleRead test_world ?res read_req (counted ?res ?s)))" by simp
    then show ?thesis
      using handleQuery_routed [OF fixture_queries(1), of ?s _ ?res test_world] fixture_routes(2) by auto
  qed
  obtain out where out: "handleQuery test_world (test_store ''CUTOVER'') (write_body ''A'') ?s = Some out"
    "Connected dest_shard (Writer dest_shard) 7 \<in> set (oEffects out)" using wr by blast
  obtain out' ep where out': "handleQuery test_world (test_store ''CUTOVER'') read_body ?s = Some out'"
    "Connected dest_shard ep 7 \<in> set (oEffects out')" using rd by blast
  have "dest_shard = dest_shard \<and> Writer dest_shard = ep \<and> Writer dest_shard = Writer dest_shard"
    by (rule reads_follow_writes [OF out(1) out'(1) refl fixture_queries(2,1) _ _ _ _ out(2) out'(2)]) simp_all
  with out out' show ?thesis by blast
qed

text \<open>
  every complete query is counted once. It counts as a request to the shard that serves reads of
  its bucket, or as a routing error if it cannot be routed, whatever happens to it afterwards;
  an incomplete one is not counted.
\<close>

theorem query_counted_once:
  "\<exists>out. handleQuery w store body s = Some out \<and> srvMetrics (oServer out) =
    (case query_of body of None \<Rightarrow> srvMetrics s | Some req \<Rightarrow>
      case Resolve (srvRouter s) store (qShardKey req) of
        Inl err \<Rightarrow> IncRoutingError (srvMetrics s)
      | Inr res \<Rightarrow> IncRoutingRequest (ShardID (ReadShard res)) (ResBucketID res) (srvMetrics s))"
proof (cases rule: handleQuery_cases [where w = w and store = store and body = body and s = s])
  case (reads req res)
  have "srvMetrics (oServer (handleRead w res req (counted res s))) = srvMetrics (counted res s)"
    by (cases rule: handleRead_cases [OF refl, of w res req "counted res s"]) simp_all
  with reads show ?thesis by (simp add: counted_def)
next
  case (writes req res out)
  from writes(6,4) have "srvMetrics (oServer out) = srvMetrics (counted res s)"
    by (cases rule: handleWrite_cases) simp_all
  with writes show ?thesis by (simp add: counted_def)
qed simp_all

text \<open>
  the breaker sees connections, not statements. Whatever the database answers to the statements,
  the server is left in the same state, breakers and pools included; so a shard that accepts
  connections and fails every statement never opens its breaker.
\<close>

theorem statements_do_not_reach_breaker:
  "map_option oServer (handleQuery (w\<lparr>ConnQuery := q, ConnExec := x\<rparr>) store body s) =
   map_option oServer (handleQuery w store body s)"
proof -
  have "oServer (handleRead (w\<lparr>ConnQuery := q, ConnExec := x\<rparr>) res req s') = oServer (handleRead w res req s')" for res req s'
    by (auto simp: handleRead_def Let_def split: prod.split sum.split)
  moreover have "map_option oServer (handleWrite (w\<lparr>ConnQuery := q, ConnExec := x\<rparr>) res req s') =
      map_option oServer (handleWrite w res req s')" for res req s'
    by (auto simp: handleWrite_def Let_def split: prod.split sum.split option.split)
  ultimately show ?thesis
    by (auto simp: handleQuery_def Let_def split: sum.split)
qed

text \<open>
  a shard that is down answers at once. While its breaker is open and the reset timeout runs, each
  query routed to the shard gets 503, whatever the driver would do: no connection, no statement,
  no goroutine, and breakers and pools as before.
\<close>

theorem open_breaker_answers_503:
  assumes "query_of body = Some req" and "Resolve (srvRouter s) store (qShardKey req) = Inr res"
    and "breakers (srvPool s) (ShardID (ReadShard res)) = Some b" and "state b = Open"
    and "0 \<le> ResetTimeout b" and "in_int64 (ResetTimeout b)" and "tAllow (Clock w) < openedAt b + ResetTimeout b"
  shows "\<exists>out. handleQuery w store body s = Some out \<and> rStatus (oResponse out) = 503 \<and> oEffects out = [] \<and>
    oStarted out = [] \<and> srvPool (oServer out) = srvPool s"
proof -
  have "breaker_of (breakers (srvPool s)) (ShardID (ReadShard res)) = b" using assms(3) by (simp add: breaker_of_def)
  from Acquire_denied [OF this assms(4-6) assms(7)]
  have denied: "Acquire (Clock w) (Driver w) (Others w) (ReadShard res) ep (srvPool s) =
      (Inl (BreakerOpen (ShardID (ReadShard res)) ErrOpen), [], srvPool s)" for ep .
  show ?thesis
    using handleQuery_routed [OF assms(1,2), of w] denied Resolve_primary [OF assms(2)]
    by (cases "qWrite req") (simp_all add: handleRead_def handleWrite_def)
qed

theorem open_breaker_answers_503_witness:
  "\<exists>out. handleQuery test_world (test_store ''CUTOVER'') read_body
      (test_server\<lparr>srvPool := NewManager DefaultConfig (Map.empty(''shard-05'' \<mapsto> Breaker.New\<lparr>state := Open, openedAt := 0\<rparr>))\<rparr>) = Some out \<and>
    rStatus (oResponse out) = 503 \<and> oEffects out = []"
proof -
  let ?b = "Breaker.New\<lparr>state := Open, openedAt := 0\<rparr>"
  let ?s = "test_server\<lparr>srvPool := NewManager DefaultConfig (Map.empty(''shard-05'' \<mapsto> ?b))\<rparr>"
  have "Resolve (srvRouter ?s) (test_store ''CUTOVER'') (qShardKey read_req) =
      Inr \<lparr>ResBucketID = 0, ReadShard = dest_shard, WriteShards = [dest_shard], ResMigrationState = ''CUTOVER''\<rparr>"
    using fixture_routes(2) by simp
  from open_breaker_answers_503 [OF fixture_queries(1) this, of ?b test_world] show ?thesis
    by (auto simp: NewManager_def dest_shard_def test_shard_def Breaker.New_def Second_def test_world_def in_range_def)
qed

lemma read_rows_mem: "Inr vs \<in> set rs \<Longrightarrow> read_rows rs = Inr out \<Longrightarrow> vs \<in> set out"
  by (induction rs arbitrary: out rule: read_rows.induct) (auto split: sum.splits)

lemma those_None: "None \<in> set xs \<Longrightarrow> those xs = None"
  by (induction xs) (auto split: option.split)

text \<open>
  C40: a row that JSON cannot hold is lost silently. If a query succeeds and one of its values has no JSON
  encoding, as a floating-point NaN has none, the answer is the status 200 with an empty body.
\<close>

theorem unencodable_row_empty_200:
  assumes "query_of body = Some req" and "\<not> qWrite req" and "Resolve (srvRouter s) store (qShardKey req) = Inr res"
    and "acquired w req res s = Inr conn" and "ConnQuery w conn (qSQL req) (qArgs req) = Inr rows"
    and "list_all is_ok (RowValues rows)" and "RowsErr rows = None"
    and "Inr vals \<in> set (RowValues rows)" and "v \<in> set vals" and "EncodeValue w v = None"
  shows "\<exists>out. handleQuery w store body s = Some out \<and> rStatus (oResponse out) = 200 \<and> rBody (oResponse out) = []"
proof -
  obtain out where out: "read_rows (RowValues rows) = Inr out"
    using assms(6) read_rows_ok [of "RowValues rows"] is_ok_iff [of "read_rows (RowValues rows)"] by auto
  have "those (map (EncodeValue w) vals) = None"
    using assms(9,10) by (intro those_None) force
  then have "rows_text (EncodeValue w) out = None"
    using read_rows_mem [OF assms(8) out] unfolding rows_text_def by (intro option.map_disc_iff [THEN iffD2] those_None) force
  then have resp: "read_response w res (Inr rows) = writeJSON 200 None"
    using out assms(7) by (simp add: read_response_def queryResponse_text_def)
  obtain cls m where "Acquire (Clock w) (Driver w) (Others w) (ReadShard res)
      (ReadEndpoint res (ParseReadConsistency (qConsistency req))) (srvPool s) = (Inr conn, cls, m)"
    using assms(2,4) by (auto simp: acquired_def) (metis prod.collapse)
  then have "Acquire (Clock w) (Driver w) (Others w) (ReadShard res)
      (ReadEndpoint res (ParseReadConsistency (qConsistency req))) (srvPool (counted res s)) = (Inr conn, cls, m)"
    by simp
  from read_connects(2) [OF this] assms(5)
  have "oResponse (handleRead w res req (counted res s)) = read_response w res (Inr rows)" by simp
  with resp show ?thesis
    using handleQuery_routed [OF assms(1,3), of w] assms(2) by (simp add: writeJSON_def)
qed

theorem unencodable_row_empty_200_witness:
  "\<exists>out. handleQuery test_world (test_store ''CUTOVER'') read_body test_server = Some out \<and>
    rStatus (oResponse out) = 200 \<and> rBody (oResponse out) = []"
proof (rule unencodable_row_empty_200)
  show "query_of read_body = Some read_req" by (rule fixture_queries)
  show "Resolve (srvRouter test_server) (test_store ''CUTOVER'') (qShardKey read_req) =
      Inr \<lparr>ResBucketID = 0, ReadShard = dest_shard, WriteShards = [dest_shard], ResMigrationState = ''CUTOVER''\<rparr>"
    by (rule fixture_routes)
  have "\<exists>cls m'. Acquire (Clock test_world) (Driver test_world) (Others test_world) dest_shard ep (srvPool test_server) = (Inr 7, cls, m')" for ep
    using test_world_connects [OF all_closed_server] by blast
  then show "acquired test_world read_req \<lparr>ResBucketID = 0, ReadShard = dest_shard, WriteShards = [dest_shard], ResMigrationState = ''CUTOVER''\<rparr>
      test_server = Inr 7"
    by (simp add: acquired_def) (metis fst_conv)
  show "ConnQuery test_world 7 (qSQL read_req) (qArgs read_req) = Inr \<lparr>FieldNames = [''n''], RowValues = [Inr [AnyNil]], RowsErr = None\<rparr>"
    by (simp add: test_world_def)
  show "Inr [AnyNil] \<in> set (RowValues \<lparr>FieldNames = [''n''], RowValues = [Inr [AnyNil]], RowsErr = None\<rparr>)" "AnyNil \<in> set [AnyNil]"
    by simp_all
qed (simp_all add: test_world_def)

end
