(* ===== verification/Dual_Write.thy ===== *)
theory Dual_Write
  imports Api_Query
begin

text \<open>
  Writes during a migration: requests and the goroutines they start, in any interleaving. A step
  is a whole request or a whole goroutine; \<open>wPending\<close> are the goroutines not yet run and \<open>wLog\<close> is
  everything done on connections so far. Each step has a world and a map of its own, so the
  database, the clock and the routing table may change in between.
\<close>

record write_system =
  wServer :: Server
  wPending :: "dual_write list"
  wLog :: "effect list"

inductive write_step :: "('c, 'd, 's, 'v) world set \<Rightarrow> Store set \<Rightarrow> write_system \<Rightarrow> write_system \<Rightarrow> bool" for ws stores where
  request: "w \<in> ws \<Longrightarrow> store \<in> stores \<Longrightarrow> handleQuery w store body (wServer x) = Some out \<Longrightarrow>
    write_step ws stores x \<lparr>wServer = oServer out, wPending = wPending x @ oStarted out, wLog = wLog x @ oEffects out\<rparr>"
| goroutine: "w \<in> ws \<Longrightarrow> wPending x = ds @ d # ds' \<Longrightarrow> run_dual_write w d (srvPool (wServer x)) = (eff, m) \<Longrightarrow>
    write_step ws stores x \<lparr>wServer = (wServer x)\<lparr>srvPool := m\<rparr>, wPending = ds @ ds', wLog = wLog x @ eff\<rparr>"

definition idle :: "write_system \<Rightarrow> bool" where
  "idle x \<longleftrightarrow> wPending x = [] \<and> wLog x = []"

text \<open>Every connection in the log is used for one statement and released before the next is taken.\<close>

fun balanced :: "effect list \<Rightarrow> bool" where
  "balanced [] = True"
| "balanced (PoolClosed p # es) = balanced es"
| "balanced (Connected shard ep c # Executed c' sql args # Released c'' # es) = (c = c' \<and> c = c'' \<and> balanced es)"
| "balanced (Connected shard ep c # Queried c' sql args # Released c'' # es) = (c = c' \<and> c = c'' \<and> balanced es)"
| "balanced _ = False"

text \<open>The statements executed, with the shards they were executed on.\<close>

fun writes_in :: "effect list \<Rightarrow> (bytes \<times> bytes) list" where
  "writes_in (Connected shard ep c # Executed c' sql args # es) = (ShardID shard, sql) # writes_in es"
| "writes_in (e # es) = writes_in es"
| "writes_in [] = []"

lemma balanced_append: "balanced xs \<Longrightarrow> balanced (xs @ ys) = balanced ys"
  by (induction xs rule: balanced.induct) simp_all

lemma writes_in_append: "balanced xs \<Longrightarrow> writes_in (xs @ ys) = writes_in xs @ writes_in ys"
  by (induction xs rule: balanced.induct) simp_all

lemma balanced_closed [simp]: "balanced (map PoolClosed cls)"
  by (induction cls) simp_all

lemma writes_in_closed [simp]: "writes_in (map PoolClosed cls) = []"
  by (induction cls) simp_all

lemma handleQuery_balanced:
  assumes "handleQuery w store body s = Some out"
  shows "balanced (oEffects out) \<and> (\<forall>d\<in>set (oStarted out). \<exists>sid. (sid, dwSQL d) \<in> set (writes_in (oEffects out)))"
proof (cases rule: handleQuery_cases [where w = w and store = store and body = body and s = s])
  case (reads req res)
  then have "handleRead w res req (counted res s) = out" using assms by simp
  then show ?thesis
    by (cases rule: handleRead_cases) (simp_all add: balanced_append)
next
  case (writes req res out')
  then have out: "out' = out" using assms by simp
  from writes(6,4) show ?thesis
    unfolding out by (cases rule: handleWrite_cases) (auto simp: balanced_append writes_in_append)
qed (use assms in simp_all)

lemma run_dual_write_effects:
  assumes "run_dual_write w d m = (eff, m')"
  shows "balanced eff \<and> set (writes_in eff) \<subseteq> {(ShardID (dwShard d), dwSQL d)}"
  using assms by (auto simp: run_dual_write_def balanced_append writes_in_append split: prod.splits sum.splits)

definition write_inv :: "write_system \<Rightarrow> bool" where
  "write_inv x \<longleftrightarrow> balanced (wLog x) \<and> (\<forall>d\<in>set (wPending x). \<exists>sid. (sid, dwSQL d) \<in> set (writes_in (wLog x)))"

lemma write_reach_inv:
  assumes "reach idle (write_step ws stores) x"
  shows "write_inv x"
proof -
  have step: "write_inv y" if "write_step ws stores x y" and "write_inv x" for x y
    using that
  proof (induction rule: write_step.induct)
    case (request w store body x out)
    then show ?case
      using handleQuery_balanced [OF request(3)]
      by (auto simp: write_inv_def balanced_append writes_in_append)
  next
    case (goroutine w x ds d ds' eff m)
    then show ?case
      using run_dual_write_effects [OF goroutine(3)]
      by (auto simp: write_inv_def balanced_append writes_in_append)
  qed
  have "inductive_invariant idle (write_step ws stores) write_inv"
  proof
    show "idle x \<Longrightarrow> write_inv x" for x by (simp add: idle_def write_inv_def)
    show "write_step ws stores x y \<Longrightarrow> write_inv x \<Longrightarrow> write_inv y" for x y by (rule step)
  qed
  then show ?thesis using assms by (rule inductive_invariant.inv_reach)
qed

text \<open>
  no connection leaks and no dual write comes alone. In every interleaving of requests and
  goroutines, with any behaviour of the database, the driver and the map, each connection
  taken runs one statement and is released, and each goroutine waiting to write to the
  destination of a migration has its statement executed on a primary shard before.
\<close>

theorem writes_are_orderly:
  assumes "reach idle (write_step ws stores) x"
  shows "balanced (wLog x) \<and> (\<forall>d\<in>set (wPending x). \<exists>sid. (sid, dwSQL d) \<in> set (writes_in (wLog x)))"
  using write_reach_inv [OF assms] by (simp add: write_inv_def)

section \<open>Order\<close>

lemma test_request:
  assumes "all_closed (srvPool s)" and "srvRouter s = srvRouter test_server"
    and "query_of (write_body sql) = Some (write_req sql)"
  shows "\<exists>out cls. handleQuery test_world (test_store ''DUAL_WRITE'') (write_body sql) s = Some out \<and>
    all_closed (srvPool (oServer out)) \<and> srvRouter (oServer out) = srvRouter s \<and>
    oStarted out = [\<lparr>dwShard = dest_shard, dwSQL = sql, dwArgs = []\<rparr>] \<and>
    oEffects out = map PoolClosed cls @ [Connected source_shard (Writer source_shard) 7, Executed 7 sql [], Released 7]"
proof -
  let ?res = "\<lparr>ResBucketID = 0, ReadShard = source_shard, WriteShards = [source_shard, dest_shard], ResMigrationState = ''DUAL_WRITE''\<rparr>"
  have res: "Resolve (srvRouter s) (test_store ''DUAL_WRITE'') (qShardKey (write_req sql)) = Inr ?res"
    using fixture_routes(1) assms(2) by simp
  obtain cls m where "Acquire (Clock test_world) (Driver test_world) (Others test_world) source_shard (Writer source_shard)
      (srvPool (counted ?res s)) = (Inr 7, cls, m)" "all_closed m"
    using test_world_connects [OF assms(1), of source_shard "Writer source_shard"] by auto
  then show ?thesis
    using handleQuery_routed [OF assms(3) res, of test_world]
    by (auto simp: handleWrite_def PrimaryWriteShard_def test_world_def [THEN arg_cong [where f = ConnExec], simplified])
qed

lemma test_goroutine:
  assumes "all_closed m"
  shows "\<exists>cls m'. run_dual_write test_world \<lparr>dwShard = dest_shard, dwSQL = sql, dwArgs = []\<rparr> m =
    (map PoolClosed cls @ [Connected dest_shard (Writer dest_shard) 7, Executed 7 sql [], Released 7], m') \<and> all_closed m'"
  using test_world_connects [OF assms, of dest_shard "Writer dest_shard"] by (auto simp: run_dual_write_def)

text \<open>
  C27: the destination of a migration can end up with the older value. There is a run of two writes to
  one key in the state DUAL_WRITE in which every statement succeeds, the source executes them in
  the order of the requests and the destination in the opposite order: the goroutines that write
  to the destination are not ordered.
\<close>

theorem dual_writes_can_reorder:
  "\<exists>x. reach idle (write_step {test_world} {test_store ''DUAL_WRITE''}) x \<and> wPending x = [] \<and>
    writes_in (wLog x) = [(''shard-01'', ''A''), (''shard-01'', ''B''), (''shard-05'', ''B''), (''shard-05'', ''A'')]"
proof -
  let ?r = "reach idle (write_step {test_world} {test_store ''DUAL_WRITE''})"
  let ?d = "\<lambda>sql. \<lparr>dwShard = dest_shard, dwSQL = sql, dwArgs = []\<rparr>"
  let ?src = "\<lambda>sql. [Connected source_shard (Writer source_shard) 7, Executed 7 sql [], Released 7]"
  let ?dst = "\<lambda>sql. [Connected dest_shard (Writer dest_shard) 7, Executed 7 sql [], Released 7]"
  have r0: "?r \<lparr>wServer = test_server, wPending = [], wLog = []\<rparr>"
    by (rule reach_start) (simp add: idle_def)
  obtain out1 c1 where o1: "handleQuery test_world (test_store ''DUAL_WRITE'') (write_body ''A'') test_server = Some out1"
      "all_closed (srvPool (oServer out1))" "srvRouter (oServer out1) = srvRouter test_server" "oStarted out1 = [?d ''A'']"
      "oEffects out1 = map PoolClosed c1 @ ?src ''A''"
    using test_request [OF all_closed_server refl fixture_queries(2)] by blast
  have r1: "?r \<lparr>wServer = oServer out1, wPending = [?d ''A''], wLog = map PoolClosed c1 @ ?src ''A''\<rparr>"
    using reach_step [OF r0 write_step.request [where w = test_world and store = "test_store ''DUAL_WRITE''"
      and body = "write_body ''A''" and out = out1]] o1 by simp
  obtain out2 c2 where o2: "handleQuery test_world (test_store ''DUAL_WRITE'') (write_body ''B'') (oServer out1) = Some out2"
      "all_closed (srvPool (oServer out2))" "oStarted out2 = [?d ''B'']" "oEffects out2 = map PoolClosed c2 @ ?src ''B''"
    using test_request [OF o1(2) o1(3) fixture_queries(3)] by blast
  have r2: "?r \<lparr>wServer = oServer out2, wPending = [?d ''A'', ?d ''B''],
      wLog = map PoolClosed c1 @ ?src ''A'' @ map PoolClosed c2 @ ?src ''B''\<rparr>"
    using reach_step [OF r1 write_step.request [where w = test_world and store = "test_store ''DUAL_WRITE''"
      and body = "write_body ''B''" and out = out2]] o2 by simp
  obtain c3 m3 where g3: "run_dual_write test_world (?d ''B'') (srvPool (oServer out2)) = (map PoolClosed c3 @ ?dst ''B'', m3)" "all_closed m3"
    using test_goroutine [OF o2(2)] by blast
  have r3: "?r \<lparr>wServer = (oServer out2)\<lparr>srvPool := m3\<rparr>, wPending = [?d ''A''],
      wLog = (map PoolClosed c1 @ ?src ''A'' @ map PoolClosed c2 @ ?src ''B'') @ map PoolClosed c3 @ ?dst ''B''\<rparr>"
    using reach_step [OF r2 write_step.goroutine [where w = test_world and ds = "[?d ''A'']" and d = "?d ''B''" and ds' = "[]"
      and eff = "map PoolClosed c3 @ ?dst ''B''" and m = m3]] g3(1) by simp
  obtain c4 m4 where g4: "run_dual_write test_world (?d ''A'') m3 = (map PoolClosed c4 @ ?dst ''A'', m4)"
    using test_goroutine [OF g3(2)] by blast
  have "?r \<lparr>wServer = (oServer out2)\<lparr>srvPool := m4\<rparr>, wPending = [],
      wLog = ((map PoolClosed c1 @ ?src ''A'' @ map PoolClosed c2 @ ?src ''B'') @ map PoolClosed c3 @ ?dst ''B'') @ map PoolClosed c4 @ ?dst ''A''\<rparr>"
    using reach_step [OF r3 write_step.goroutine [where w = test_world and ds = "[]" and d = "?d ''A''" and ds' = "[]"
      and eff = "map PoolClosed c4 @ ?dst ''A''" and m = m4]] g4 by simp
  moreover have "writes_in (((map PoolClosed c1 @ ?src ''A'' @ map PoolClosed c2 @ ?src ''B'') @ map PoolClosed c3 @ ?dst ''B'') @ map PoolClosed c4 @ ?dst ''A'') =
      [(''shard-01'', ''A''), (''shard-01'', ''B''), (''shard-05'', ''B''), (''shard-05'', ''A'')]"
    by (simp add: writes_in_append balanced_append source_shard_def dest_shard_def test_shard_def)
  ultimately show ?thesis by (intro exI conjI) (assumption, simp_all)
qed

theorem writes_are_orderly_witness:
  "balanced (wLog \<lparr>wServer = test_server, wPending = [], wLog = []\<rparr>)"
  using writes_are_orderly [OF reach_start [of idle "\<lparr>wServer = test_server, wPending = [], wLog = []\<rparr>"
    "write_step {test_world} {}"]] by (simp add: idle_def)

end
