(* ===== verification/Step_Measure.thy ===== *)
theory Step_Measure
  imports Go_Prelude
begin

text \<open>
  Step relations in which every step does a part of what is left to do: no run is longer than that,
  and every state has a run to a state without a successor.
\<close>

locale decreasing_steps =
  fixes step :: "'s \<Rightarrow> 's \<Rightarrow> bool" and left :: "'s \<Rightarrow> nat" and inv :: "'s \<Rightarrow> bool"
  assumes step_decreases: "inv s \<Longrightarrow> step s t \<Longrightarrow> left t < left s"
    and step_keeps: "inv s \<Longrightarrow> step s t \<Longrightarrow> inv t"
begin

lemma steps_keep: "rtranclp step s t \<Longrightarrow> inv s \<Longrightarrow> inv t"
  by (induction rule: rtranclp_induct) (auto intro: step_keeps)

lemma run_bounded: "inv s \<Longrightarrow> (step ^^ n) s t \<Longrightarrow> n + left t \<le> left s"
proof (induction n arbitrary: t)
  case (Suc n)
  then obtain u where u: "(step ^^ n) s u" "step u t" by auto
  then have "inv u" using steps_keep [of s u] Suc.prems(1) by (simp add: relpowp_imp_rtranclp)
  with Suc.IH [OF Suc.prems(1) u(1)] step_decreases [OF _ u(2)] show ?case by simp
qed simp

lemma no_infinite_run: "inv (f 0) \<Longrightarrow> \<exists>n. \<not> step (f n) (f (Suc n))"
proof (rule ccontr)
  assume inv: "inv (f 0)" and "\<nexists>n. \<not> step (f n) (f (Suc n))"
  then have "(step ^^ n) (f 0) (f n)" for n by (induction n) auto
  from run_bounded [OF inv this [of "Suc (left (f 0))"]] show False by simp
qed

lemma run_to_end: "inv s \<Longrightarrow> \<exists>t. rtranclp step s t \<and> (\<forall>u. \<not> step t u)"
proof (induction "left s" arbitrary: s rule: less_induct)
  case less
  show ?case
  proof (cases "\<exists>u. step s u")
    case True
    then obtain u where u: "step s u" by blast
    from less.hyps [OF step_decreases [OF less.prems u] step_keeps [OF less.prems u]] u show ?thesis
      by (meson converse_rtranclp_into_rtranclp)
  qed auto
qed

end

end
