(* ===== verification/Goroutines.thy ===== *)
theory Goroutines
  imports Dual_Write Step_Measure
begin

text \<open>
  The handlers of \<open>internal/api/server.go\<close> and the methods of \<open>Manager\<close> they call, cut at the
  critical sections of the code, as goroutines that run side by side. \<open>Api\<close> runs a handler in one
  piece; here a goroutine is at a stage, each step takes one goroutine to its next stage, and any
  goroutine may move next. The world, the clock and the map may differ from step to step.

  One step does \<open>breakers.For\<close> and \<open>Allow\<close>, or a driver call, or one critical section of the manager,
  a breaker or the metrics, or the whole of a statement.
\<close>

section \<open>Stages of a goroutine\<close>

text \<open>What a goroutine wants a connection for.\<close>

datatype task =
    Reading queryRequest Resolved
  | Writing queryRequest Resolved ShardDef
  | SecondWrite dual_write

fun target :: "task \<Rightarrow> ShardDef \<times> Endpoint" where
  "target (Reading req res) = (ReadShard res, ReadEndpoint res (ParseReadConsistency (qConsistency req)))"
| "target (Writing req res primary) = (primary, Writer primary)"
| "target (SecondWrite d) = (dwShard d, Writer (dwShard d))"

abbreviation task_shard :: "task \<Rightarrow> ShardDef" where "task_shard t \<equiv> fst (target t)"
abbreviation task_sid :: "task \<Rightarrow> bytes" where "task_sid t \<equiv> ShardID (fst (target t))"
abbreviation task_key :: "task \<Rightarrow> bytes" where "task_key t \<equiv> poolKey (ShardID (fst (target t))) (snd (target t))"

text \<open>The end of a goroutine is its response; that of a second write is none.\<close>

datatype stage =
    Received bytes
  | Unrouted router_error
  | Counting queryRequest Resolved
  | Admitting task
  | LookingUp task
  | Building task
  | Installing task pool
  | Dropping task pool pool
  | Dialing task pool
  | Failing task "response option"
  | Succeeding task pool conn
  | Using task pool conn
  | Releasing pool conn "response option"
  | Finished "response option"

text \<open>\<open>gCreated\<close> are the pools the driver ever made and \<open>gLive\<close> those not closed; \<open>gReaping\<close> is the
  reaper's list \<open>toClose\<close>.\<close>

record system =
  gServer :: Server
  gStages :: "stage list"
  gLog :: "effect list"
  gCreated :: "pool set"
  gLive :: "pool set"
  gReaping :: "pool list"

definition at_stage :: "system \<Rightarrow> nat \<Rightarrow> stage \<Rightarrow> bool" where
  "at_stage s i st \<longleftrightarrow> i < length (gStages s) \<and> gStages s ! i = st"

definition move :: "nat \<Rightarrow> stage \<Rightarrow> system \<Rightarrow> system" where
  "move i st s = s\<lparr>gStages := (gStages s)[i := st]\<rparr>"

definition pools_of :: "system \<Rightarrow> pools" where
  "pools_of s = mpools (srvPool (gServer s))"

definition set_pools :: "pools \<Rightarrow> system \<Rightarrow> system" where
  "set_pools ps s = s\<lparr>gServer := (gServer s)\<lparr>srvPool := (srvPool (gServer s))\<lparr>mpools := ps\<rparr>\<rparr>\<rparr>"

definition breakers_of :: "system \<Rightarrow> BreakerRegistry" where
  "breakers_of s = breakers (srvPool (gServer s))"

definition set_breakers :: "BreakerRegistry \<Rightarrow> system \<Rightarrow> system" where
  "set_breakers bs s = s\<lparr>gServer := (gServer s)\<lparr>srvPool := (srvPool (gServer s))\<lparr>breakers := bs\<rparr>\<rparr>\<rparr>"

definition set_metrics :: "(MetricsRegistry \<Rightarrow> MetricsRegistry) \<Rightarrow> system \<Rightarrow> system" where
  "set_metrics f s = s\<lparr>gServer := (gServer s)\<lparr>srvMetrics := f (srvMetrics (gServer s))\<rparr>\<rparr>"

definition logged :: "effect list \<Rightarrow> system \<Rightarrow> system" where
  "logged es s = s\<lparr>gLog := gLog s @ es\<rparr>"

fun holds :: "stage \<Rightarrow> (pool \<times> conn) option" where
  "holds (Succeeding t p c) = Some (p, c)"
| "holds (Using t p c) = Some (p, c)"
| "holds (Releasing p c r) = Some (p, c)"
| "holds _ = None"

definition held :: "system \<Rightarrow> conn set" where
  "held s = {c. \<exists>st\<in>set (gStages s). \<exists>p. holds st = Some (p, c)}"

section \<open>The pieces of the handlers\<close>

text \<open>\<open>handleQuery\<close> up to \<open>Resolve\<close>: the response to a request that is not complete, or the request.\<close>

definition decode_query :: "('c, 'd, 's, 'v) world \<Rightarrow> bytes \<Rightarrow> response + queryRequest" where
  "decode_query w body =
     (case Decode (dec_struct queryRequest_fields) zero_queryRequest body of
        Inl _ \<Rightarrow> Inl (writeError 400 (''invalid JSON body: '' @ DecodeText w body))
      | Inr (req, _) \<Rightarrow>
          if qShardKey req = AnyNil \<or> qSQL req = [] then Inl (writeError 400 ''shard_key and sql are required'')
          else Inr req)"

text \<open>The choice of the handler; \<open>None\<close> is the panic of \<open>PrimaryWriteShard\<close>.\<close>

definition task_of :: "queryRequest \<Rightarrow> Resolved \<Rightarrow> task option" where
  "task_of req res = (if qWrite req then map_option (Writing req res) (PrimaryWriteShard res) else Some (Reading req res))"

text \<open>The answer to a request that gets no connection.\<close>

fun refusal :: "('c, 'd, 's, 'v) world \<Rightarrow> task \<Rightarrow> ('d, 's) pool_error \<Rightarrow> response option" where
  "refusal w (Reading req res) err = Some (writePoolError w (ShardID (ReadShard res)) err)"
| "refusal w (Writing req res primary) err = Some (writePoolError w (ShardID primary) err)"
| "refusal w (SecondWrite d) err = None"

text \<open>What is done on a connection: the effect, the response, the goroutines started.\<close>

fun statement :: "('c, 'd, 's, 'v) world \<Rightarrow> task \<Rightarrow> conn \<Rightarrow> effect \<times> response option \<times> dual_write list" where
  "statement w (Reading req res) conn =
     (Queried conn (qSQL req) (qArgs req), Some (read_response w res (ConnQuery w conn (qSQL req) (qArgs req))), [])"
| "statement w (Writing req res primary) conn =
     (Executed conn (qSQL req) (qArgs req),
      case ConnExec w conn (qSQL req) (qArgs req) of
        Inl e \<Rightarrow> (Some (writeError 502 (''write failed on shard '' @ ShardID primary @ '': '' @ DriverText w e)), [])
      | Inr affected \<Rightarrow>
          (Some (writeJSON 200 (queryResponse_text (EncodeValue w)
             \<lparr>qrBucketID = ResBucketID res, qrShardID = ShardID primary, qrColumns = [], qrRows = [], qrRowsAffected = affected\<rparr>)),
           map (\<lambda>shard. \<lparr>dwShard = shard, dwSQL = qSQL req, dwArgs = qArgs req\<rparr>) (drop 1 (WriteShards res))))"
| "statement w (SecondWrite d) conn = (Executed conn (dwSQL d) (dwArgs d), None, [])"

section \<open>Steps\<close>

inductive work_step :: "('c, 'd, 's, 'v) world set \<Rightarrow> Store set \<Rightarrow> nat \<Rightarrow> system \<Rightarrow> system \<Rightarrow> bool" for ws stores i where
  invalid: "at_stage s i (Received body) \<Longrightarrow> w \<in> ws \<Longrightarrow> decode_query w body = Inl resp \<Longrightarrow>
    work_step ws stores i s (move i (Finished (Some resp)) s)"
| unrouted: "at_stage s i (Received body) \<Longrightarrow> w \<in> ws \<Longrightarrow> decode_query w body = Inr req \<Longrightarrow> store \<in> stores \<Longrightarrow>
    Resolve (srvRouter (gServer s)) store (qShardKey req) = Inl err \<Longrightarrow>
    work_step ws stores i s (move i (Unrouted err) s)"
| route: "at_stage s i (Received body) \<Longrightarrow> w \<in> ws \<Longrightarrow> decode_query w body = Inr req \<Longrightarrow> store \<in> stores \<Longrightarrow>
    Resolve (srvRouter (gServer s)) store (qShardKey req) = Inr res \<Longrightarrow>
    work_step ws stores i s (move i (Counting req res) s)"
| count_error: "at_stage s i (Unrouted err) \<Longrightarrow> w \<in> ws \<Longrightarrow>
    work_step ws stores i s (set_metrics IncRoutingError (move i (Finished (Some (writeRouterError (Printable w) err))) s))"
| count: "at_stage s i (Counting req res) \<Longrightarrow> task_of req res = Some t \<Longrightarrow>
    work_step ws stores i s
      (set_metrics (IncRoutingRequest (ShardID (ReadShard res)) (ResBucketID res)) (move i (Admitting t) s))"
| deny: "at_stage s i (Admitting t) \<Longrightarrow> w \<in> ws \<Longrightarrow> bs = For (task_sid t) (breakers_of s) \<Longrightarrow>
    Allow now (breaker_of bs (task_sid t)) = (Some e, b) \<Longrightarrow>
    work_step ws stores i s (set_breakers (on_breaker (task_sid t) (\<lambda>_. b) bs)
      (move i (Finished (refusal w t (BreakerOpen (task_sid t) e))) s))"
| allow: "at_stage s i (Admitting t) \<Longrightarrow> bs = For (task_sid t) (breakers_of s) \<Longrightarrow>
    Allow now (breaker_of bs (task_sid t)) = (None, b) \<Longrightarrow>
    work_step ws stores i s (set_breakers (on_breaker (task_sid t) (\<lambda>_. b) bs) (move i (LookingUp t) s))"
| hit: "at_stage s i (LookingUp t) \<Longrightarrow> lookup_pool now (task_key t) (pools_of s) = (Some p, ps) \<Longrightarrow>
    work_step ws stores i s (set_pools ps (move i (Dialing t p) s))"
| miss: "at_stage s i (LookingUp t) \<Longrightarrow> lookup_pool now (task_key t) (pools_of s) = (None, ps) \<Longrightarrow>
    work_step ws stores i s (set_pools ps (move i (Building t) s))"
| build_error: "at_stage s i (Building t) \<Longrightarrow> w \<in> ws \<Longrightarrow>
    build_pool (Driver w) (cfg (srvPool (gServer s))) (task_shard t) (snd (target t)) = Inl e \<Longrightarrow>
    work_step ws stores i s (move i (Failing t (refusal w t e)) s)"
| build: "at_stage s i (Building t) \<Longrightarrow> w \<in> ws \<Longrightarrow>
    build_pool (Driver w) (cfg (srvPool (gServer s))) (task_shard t) (snd (target t)) = Inr p \<Longrightarrow> p \<notin> gCreated s \<Longrightarrow>
    work_step ws stores i s (move i (Installing t p) (s\<lparr>gCreated := insert p (gCreated s), gLive := insert p (gLive s)\<rparr>))"
| win: "at_stage s i (Installing t p) \<Longrightarrow> install_pool now (task_key t) p (pools_of s) = (q, [], ps) \<Longrightarrow>
    work_step ws stores i s (set_pools ps (move i (Dialing t q) s))"
| lose: "at_stage s i (Installing t p) \<Longrightarrow> install_pool now (task_key t) p (pools_of s) = (q, [loser], ps) \<Longrightarrow>
    work_step ws stores i s (set_pools ps (move i (Dropping t loser q) s))"
| close_loser: "at_stage s i (Dropping t p q) \<Longrightarrow>
    work_step ws stores i s (logged [PoolClosed p] (move i (Dialing t q) (s\<lparr>gLive := gLive s - {p}\<rparr>)))"
| dial_error: "at_stage s i (Dialing t p) \<Longrightarrow> w \<in> ws \<Longrightarrow> AcquireConn (Driver w) p = Inl e \<or> p \<notin> gLive s \<Longrightarrow>
    work_step ws stores i s (move i (Failing t (refusal w t (AcquireFailed (task_sid t) (snd (target t)) e))) s)"
| dial: "at_stage s i (Dialing t p) \<Longrightarrow> w \<in> ws \<Longrightarrow> AcquireConn (Driver w) p = Inr c \<Longrightarrow> p \<in> gLive s \<Longrightarrow> c \<notin> held s \<Longrightarrow>
    work_step ws stores i s (logged [Connected (task_shard t) (snd (target t)) c] (move i (Succeeding t p c) s))"
| fail: "at_stage s i (Failing t r) \<Longrightarrow>
    work_step ws stores i s (set_breakers (on_breaker (task_sid t) (Failure now) (breakers_of s)) (move i (Finished r) s))"
| succeed: "at_stage s i (Succeeding t p c) \<Longrightarrow>
    work_step ws stores i s (set_breakers (on_breaker (task_sid t) Success (breakers_of s)) (move i (Using t p c) s))"
| use: "at_stage s i (Using t p c) \<Longrightarrow> w \<in> ws \<Longrightarrow> statement w t c = (eff, r, ds) \<Longrightarrow>
    work_step ws stores i s (logged [eff] (s\<lparr>gStages := (gStages s)[i := Releasing p c r] @ map (Admitting \<circ> SecondWrite) ds\<rparr>))"
| release: "at_stage s i (Releasing p c r) \<Longrightarrow>
    work_step ws stores i s (logged [Released c] (move i (Finished r) s))"

text \<open>The reaper: a tick that finds something to reap, and the closing of what it took out of the map.\<close>

inductive reap_step :: "system \<Rightarrow> system \<Rightarrow> bool" where
  reap: "gReaping s = [] \<Longrightarrow> set ks = dom (pools_of s) \<Longrightarrow> distinct ks \<Longrightarrow>
    reapOnce now (reap_ttl (cfg (srvPool (gServer s)))) ks (pools_of s) = (ps, cl) \<Longrightarrow> cl \<noteq> [] \<Longrightarrow>
    reap_step s ((set_pools ps s)\<lparr>gReaping := cl\<rparr>)"
| close_reaped: "gReaping s = p # cl \<Longrightarrow>
    reap_step s (logged [PoolClosed p] (s\<lparr>gReaping := cl, gLive := gLive s - {p}\<rparr>))"

text \<open>A request arrives; a goroutine moves; the reaper moves.\<close>

inductive svc_step :: "('c, 'd, 's, 'v) world set \<Rightarrow> Store set \<Rightarrow> system \<Rightarrow> system \<Rightarrow> bool" for ws stores where
  accept: "svc_step ws stores s (s\<lparr>gStages := gStages s @ [Received body]\<rparr>)"
| work: "work_step ws stores i s s' \<Longrightarrow> svc_step ws stores s s'"
| reaper: "reap_step s s' \<Longrightarrow> svc_step ws stores s s'"

definition svc_start :: "system \<Rightarrow> bool" where
  "svc_start s \<longleftrightarrow> pools_of s = Map.empty \<and> gStages s = [] \<and> gLog s = [] \<and> gCreated s = {} \<and> gLive s = {} \<and> gReaping s = [] \<and>
     breakers_of s = NewRegistry \<and> srvMetrics (gServer s) = NewMetrics \<and> \<not> stopReap (srvPool (gServer s))"

section \<open>Components of a state after a step\<close>

lemma system_simps [simp]:
  "gStages (move i st s) = (gStages s)[i := st]" "gServer (move i st s) = gServer s" "gLog (move i st s) = gLog s"
  "gCreated (move i st s) = gCreated s" "gLive (move i st s) = gLive s" "gReaping (move i st s) = gReaping s"
  "gStages (set_pools ps s) = gStages s" "gLog (set_pools ps s) = gLog s" "gCreated (set_pools ps s) = gCreated s"
  "gLive (set_pools ps s) = gLive s" "gReaping (set_pools ps s) = gReaping s" "srvRouter (gServer (set_pools ps s)) = srvRouter (gServer s)"
  "gStages (set_breakers bs s) = gStages s" "gLog (set_breakers bs s) = gLog s" "gCreated (set_breakers bs s) = gCreated s"
  "gLive (set_breakers bs s) = gLive s" "gReaping (set_breakers bs s) = gReaping s" "srvRouter (gServer (set_breakers bs s)) = srvRouter (gServer s)"
  "gStages (set_metrics f s) = gStages s" "gLog (set_metrics f s) = gLog s" "gCreated (set_metrics f s) = gCreated s"
  "gLive (set_metrics f s) = gLive s" "gReaping (set_metrics f s) = gReaping s" "srvRouter (gServer (set_metrics f s)) = srvRouter (gServer s)"
  "gStages (logged es s) = gStages s" "gLog (logged es s) = gLog s @ es" "gCreated (logged es s) = gCreated s"
  "gLive (logged es s) = gLive s" "gReaping (logged es s) = gReaping s" "gServer (logged es s) = gServer s"
  by (simp_all add: move_def set_pools_def set_breakers_def set_metrics_def logged_def)

lemma pools_of_simps [simp]:
  "pools_of (move i st s) = pools_of s" "pools_of (set_pools ps s) = ps" "pools_of (set_breakers bs s) = pools_of s"
  "pools_of (set_metrics f s) = pools_of s" "pools_of (logged es s) = pools_of s"
  "pools_of (s\<lparr>gStages := sts\<rparr>) = pools_of s" "pools_of (s\<lparr>gReaping := cl\<rparr>) = pools_of s"
  "pools_of (s\<lparr>gLive := ls\<rparr>) = pools_of s" "pools_of (s\<lparr>gCreated := cs\<rparr>) = pools_of s"
  by (simp_all add: pools_of_def set_pools_def set_breakers_def set_metrics_def)

section \<open>Who holds a connection\<close>

definition conn_at :: "system \<Rightarrow> nat \<rightharpoonup> conn" where
  "conn_at s i = (if i < length (gStages s) then map_option snd (holds (gStages s ! i)) else None)"

lemma held_ran: "held s = ran (conn_at s)"
proof
  show "held s \<subseteq> ran (conn_at s)"
  proof
    fix c assume "c \<in> held s"
    then obtain i p where "i < length (gStages s)" "holds (gStages s ! i) = Some (p, c)"
      by (auto simp: held_def in_set_conv_nth)
    then have "conn_at s i = Some c" by (simp add: conn_at_def)
    then show "c \<in> ran (conn_at s)" by (rule ranI)
  qed
  show "ran (conn_at s) \<subseteq> held s"
    by (force simp: held_def conn_at_def ran_def split: if_splits)
qed

lemma at_stage_conn: "at_stage s i st \<Longrightarrow> conn_at s i = map_option snd (holds st)"
  by (simp add: at_stage_def conn_at_def)

lemma conn_at_update:
  assumes "at_stage s i st" and "gStages s' = (gStages s)[i := st'] @ map (Admitting \<circ> SecondWrite) ds"
  shows "conn_at s' = (conn_at s)(i := map_option snd (holds st'))"
proof
  fix j
  show "conn_at s' j = ((conn_at s)(i := map_option snd (holds st'))) j"
    using assms by (auto simp: conn_at_def at_stage_def nth_append nth_list_update)
qed

lemma conn_at_move: "at_stage s i st \<Longrightarrow> gStages s' = (gStages s)[i := st'] \<Longrightarrow> conn_at s' = (conn_at s)(i := map_option snd (holds st'))"
  using conn_at_update [of s i st s' st' "[]"] by simp

lemma conn_at_accept: "gStages s' = gStages s @ [Received body] \<Longrightarrow> conn_at s' = conn_at s"
  by (auto simp: conn_at_def fun_eq_iff nth_append)

text \<open>The connections in use, read off the log: a connection is taken when it is free, and used and
  released when it is taken.\<close>

fun conn_ok :: "conn set \<Rightarrow> effect \<Rightarrow> bool" where
  "conn_ok H (Connected shard ep c) = (c \<notin> H)"
| "conn_ok H (Queried c sql args) = (c \<in> H)"
| "conn_ok H (Executed c sql args) = (c \<in> H)"
| "conn_ok H (Released c) = (c \<in> H)"
| "conn_ok H (PoolClosed p) = True"

fun conn_next :: "effect \<Rightarrow> conn set \<Rightarrow> conn set" where
  "conn_next (Connected shard ep c) H = insert c H"
| "conn_next (Released c) H = H - {c}"
| "conn_next _ H = H"

definition conn_inv :: "system \<Rightarrow> bool" where
  "conn_inv s \<longleftrightarrow> inj_on (conn_at s) (dom (conn_at s)) \<and> events_ok conn_next conn_ok (gLog s) {} \<and>
     fold conn_next (gLog s) {} = ran (conn_at s)"

lemma conn_inv_same:
  assumes "conn_inv s" and "conn_at s' = conn_at s" and "gLog s' = gLog s @ map PoolClosed cls"
  shows "conn_inv s'"
proof -
  have "fold conn_next (map PoolClosed cls) H = H" "events_ok conn_next conn_ok (map PoolClosed cls) H" for H
    by (induction cls) simp_all
  with assms show ?thesis by (simp add: conn_inv_def events_ok_append)
qed

lemma conn_inv_take:
  assumes "conn_inv s" and "conn_at s i = None" and "c \<notin> ran (conn_at s)"
    and "conn_at s' = (conn_at s)(i \<mapsto> c)" and "gLog s' = gLog s @ [Connected shard ep c]"
  shows "conn_inv s'"
proof -
  have "inj_on ((conn_at s)(i \<mapsto> c)) (insert i (dom (conn_at s)))"
    using assms(1,3) by (auto simp: conn_inv_def inj_on_def ran_def)
  then show ?thesis
    using assms by (auto simp: conn_inv_def events_ok_append)
qed

lemma conn_inv_use:
  assumes "conn_inv s" and "conn_at s i = Some c" and "conn_at s' = conn_at s"
    and "gLog s' = gLog s @ [eff]" and "eff = Queried c sql args \<or> eff = Executed c sql args"
  shows "conn_inv s'"
  using assms by (auto simp: conn_inv_def events_ok_append ran_def)

lemma conn_inv_release:
  assumes "conn_inv s" and "conn_at s i = Some c" and "conn_at s' = (conn_at s)(i := None)"
    and "gLog s' = gLog s @ [Released c]"
  shows "conn_inv s'"
proof -
  have inj: "inj_on (conn_at s) (dom (conn_at s))" using assms(1) by (simp add: conn_inv_def)
  have "ran ((conn_at s)(i := None)) = ran (conn_at s) - {c}"
  proof -
    have "conn_at s j \<noteq> Some c" if "j \<noteq> i" for j
      using inj assms(2) that by (metis domI inj_onD)
    then show ?thesis using assms(2) by (auto simp: ran_def) (metis option.inject)
  qed
  moreover have "inj_on ((conn_at s)(i := None)) (dom ((conn_at s)(i := None)))"
    using inj by (auto simp: inj_on_def)
  ultimately show ?thesis
    using assms by (auto simp: conn_inv_def events_ok_append intro: ranI)
qed

lemma conn_at_stays:
  assumes "at_stage s i st" and "gStages s' = (gStages s)[i := st']" and "holds st = None" and "holds st' = None"
  shows "conn_at s' = conn_at s"
  using conn_at_move [OF assms(1,2)] at_stage_conn [OF assms(1)] assms(3,4) by (auto simp: fun_upd_idem)

lemma conn_inv_stays:
  assumes "conn_inv s" and "at_stage s i st" and "gStages s' = (gStages s)[i := st']"
    and "gLog s' = gLog s" and "holds st = None" and "holds st' = None"
  shows "conn_inv s'"
  by (rule conn_inv_same [OF assms(1) conn_at_stays [OF assms(2,3,5,6)], of "[]"]) (simp add: assms(4))

lemma statement_effect:
  "statement w t c = (eff, r, ds) \<Longrightarrow> \<exists>sql args. eff = Queried c sql args \<or> eff = Executed c sql args"
  by (cases t) (auto split: sum.splits)

lemma conn_inv_work:
  assumes "work_step ws stores i s s'" and inv: "conn_inv s"
  shows "conn_inv s'"
  using assms(1)
proof cases
  case (close_loser t p q)
  then show ?thesis
    by (intro conn_inv_same [OF inv conn_at_stays [OF close_loser(2), of s' "Dialing t q"], of "[p]"]) simp_all
next
  case (dial t p w c)
  then show ?thesis
    using conn_at_move [OF dial(2)] at_stage_conn [OF dial(2)] by (intro conn_inv_take [OF inv]) (simp_all add: held_ran)
next
  case (succeed t p c)
  then have "conn_at s' = conn_at s"
    using conn_at_move [OF succeed(2), of s'] at_stage_conn [OF succeed(2)] by (simp add: fun_upd_idem)
  with succeed show ?thesis by (intro conn_inv_same [OF inv, of _ "[]"]) simp_all
next
  case (use t p c w eff r ds)
  then have "conn_at s' = conn_at s"
    using conn_at_update [OF use(2), of s'] at_stage_conn [OF use(2)] by (simp add: fun_upd_idem)
  with use statement_effect [OF use(4)] at_stage_conn [OF use(2)] show ?thesis
    by (elim exE) (rule conn_inv_use [OF inv], simp_all)
next
  case (release p c r)
  then show ?thesis
    using conn_at_move [OF release(2)] at_stage_conn [OF release(2)] by (intro conn_inv_release [OF inv]) simp_all
qed (simp, rule conn_inv_stays [OF inv], assumption, simp, simp, simp, simp; fail)+

lemma conn_inv_reap:
  assumes "reap_step s s'" and inv: "conn_inv s"
  shows "conn_inv s'"
  using assms(1)
proof cases
  case (reap ks now ps cl)
  then show ?thesis by (intro conn_inv_same [OF inv, of _ "[]"]) (simp_all add: conn_at_def fun_eq_iff)
next
  case (close_reaped p cl)
  then show ?thesis by (intro conn_inv_same [OF inv, of _ "[p]"]) (simp_all add: conn_at_def fun_eq_iff)
qed

lemma conn_inv_step: "svc_step ws stores s s' \<Longrightarrow> conn_inv s \<Longrightarrow> conn_inv s'"
  by (induction rule: svc_step.induct)
    (auto intro: conn_inv_work conn_inv_reap conn_inv_same [of _ _ "[]"] simp: conn_at_accept)

lemma conn_inv_start: "svc_start s \<Longrightarrow> conn_inv s"
  by (auto simp: svc_start_def conn_inv_def conn_at_def dom_def ran_def)

interpretation conn_runs: inductive_invariant svc_start "svc_step ws stores" conn_inv for ws stores
  by unfold_locales (auto intro: conn_inv_start conn_inv_step)

section \<open>The pools of the running service\<close>

fun pc_of :: "stage \<Rightarrow> pc" where
  "pc_of (LookingUp t) = Looking (task_key t)"
| "pc_of (Building t) = Missed (task_key t)"
| "pc_of (Installing t p) = Built (task_key t) p"
| "pc_of (Dropping t p q) = Losing p q"
| "pc_of (Dialing t p) = Got p"
| "pc_of _ = Idle"

definition pool_view :: "system \<Rightarrow> pool_sys" where
  "pool_view s = \<lparr>spools = pools_of s, readers = (\<lambda>i. if i < length (gStages s) then pc_of (gStages s ! i) else Idle),
     created = gCreated s, live = gLive s, reaping = gReaping s, shut = stopReap (srvPool (gServer s))\<rparr>"

definition ttl_of :: "system \<Rightarrow> duration" where
  "ttl_of s = reap_ttl (cfg (srvPool (gServer s)))"

lemma config_simps [simp]:
  "cfg (srvPool (gServer (set_pools ps s))) = cfg (srvPool (gServer s))" "cfg (srvPool (gServer (set_breakers bs s))) = cfg (srvPool (gServer s))"
  "cfg (srvPool (gServer (set_metrics f s))) = cfg (srvPool (gServer s))"
  "stopReap (srvPool (gServer (set_pools ps s))) = stopReap (srvPool (gServer s))"
  "stopReap (srvPool (gServer (set_breakers bs s))) = stopReap (srvPool (gServer s))"
  "stopReap (srvPool (gServer (set_metrics f s))) = stopReap (srvPool (gServer s))"
  by (simp_all add: set_pools_def set_breakers_def set_metrics_def)

lemma ttl_of_simps [simp]: "ttl_of (move i st s) = ttl_of s" "ttl_of (set_pools ps s) = ttl_of s" "ttl_of (set_breakers bs s) = ttl_of s"
  "ttl_of (set_metrics f s) = ttl_of s" "ttl_of (logged es s) = ttl_of s"
  by (simp_all add: ttl_of_def)

lemma readers_move:
  assumes "at_stage s i st" and "gStages s' = (gStages s)[i := st'] @ map (Admitting \<circ> SecondWrite) ds"
  shows "readers (pool_view s') = (readers (pool_view s))(i := pc_of st')"
  using assms by (auto simp: pool_view_def at_stage_def fun_eq_iff nth_append nth_list_update)

lemma readers_at: "at_stage s i st \<Longrightarrow> readers (pool_view s) i = pc_of st"
  by (simp add: pool_view_def at_stage_def)

text \<open>A step that leaves the pools alone and does not come from or go to a stage of \<open>poolFor\<close>.\<close>

lemma view_same:
  assumes "at_stage s i st" and "gStages s' = (gStages s)[i := st'] @ map (Admitting \<circ> SecondWrite) ds"
    and "pc_of st' = pc_of st" and "pools_of s' = pools_of s" and "gCreated s' = gCreated s" and "gLive s' = gLive s"
    and "gReaping s' = gReaping s" and "stopReap (srvPool (gServer s')) = stopReap (srvPool (gServer s))"
  shows "pool_view s' = pool_view s"
  using assms readers_move [OF assms(1,2)] readers_at [OF assms(1)] by (simp add: pool_view_def fun_upd_idem)

lemma pool_view_simps [simp]:
  "spools (pool_view s) = pools_of s" "created (pool_view s) = gCreated s" "live (pool_view s) = gLive s"
  "reaping (pool_view s) = gReaping s" "shut (pool_view s) = stopReap (srvPool (gServer s))"
  by (simp_all add: pool_view_def)

lemma view_move:
  assumes "at_stage s i st" and "gStages s' = (gStages s)[i := st']" and "pc_of st' = l" and "pools_of s' = ps"
    and "gCreated s' = cr" and "gLive s' = lv" and "gReaping s' = gReaping s"
    and "stopReap (srvPool (gServer s')) = stopReap (srvPool (gServer s))"
  shows "pool_view s' = (pool_view s)\<lparr>spools := ps, readers := (readers (pool_view s))(i := l), created := cr, live := lv\<rparr>"
  using readers_move [OF assms(1), of s' st' "[]"] assms by (intro pool_sys.equality) simp_all

lemma work_pools:
  assumes "work_step ws stores i s s'"
  shows "pool_view s' = pool_view s \<or> pool_step (ttl_of s) (pool_view s) (pool_view s')"
  using assms
proof cases
  case (allow t bs now b)
  then have "pool_view s' = (pool_view s)\<lparr>readers := (readers (pool_view s))(i := Looking (task_key t))\<rparr>"
    using view_move [OF allow(2), of s' "LookingUp t"] by simp
  moreover have "readers (pool_view s) i = Idle" using readers_at [OF allow(2)] by simp
  ultimately show ?thesis by (simp add: pool_step.call)
next
  case (hit t now p ps)
  then have "pool_view s' = (pool_view s)\<lparr>spools := ps, readers := (readers (pool_view s))(i := Got p)\<rparr>"
    using view_move [OF hit(2), of s' "Dialing t p"] by simp
  moreover have "readers (pool_view s) i = Looking (task_key t)" using readers_at [OF hit(2)] by simp
  ultimately show ?thesis using hit(3) by (simp add: pool_step.hit)
next
  case (miss t now ps)
  then have "pool_view s' = (pool_view s)\<lparr>spools := ps, readers := (readers (pool_view s))(i := Missed (task_key t))\<rparr>"
    using view_move [OF miss(2), of s' "Building t"] by simp
  moreover have "readers (pool_view s) i = Looking (task_key t)" using readers_at [OF miss(2)] by simp
  ultimately show ?thesis using miss(3) by (simp add: pool_step.miss)
next
  case (build_error t w e)
  then have "pool_view s' = (pool_view s)\<lparr>readers := (readers (pool_view s))(i := Idle)\<rparr>"
    using view_move [OF build_error(2), of s' "Failing t (refusal w t e)"] by simp
  moreover have "readers (pool_view s) i = Missed (task_key t)" using readers_at [OF build_error(2)] by simp
  ultimately show ?thesis by (simp add: pool_step.build_error)
next
  case (build t w p)
  then have "pool_view s' = (pool_view s)\<lparr>readers := (readers (pool_view s))(i := Built (task_key t) p),
      created := insert p (created (pool_view s)), live := insert p (live (pool_view s))\<rparr>"
    using view_move [OF build(2), of s' "Installing t p"] by simp
  moreover have "readers (pool_view s) i = Missed (task_key t)" using readers_at [OF build(2)] by simp
  ultimately show ?thesis using pool_step.build [of "pool_view s" i "task_key t" p] build(5) by simp
next
  case (win t p now q ps)
  then have "pool_view s' = (pool_view s)\<lparr>spools := ps, readers := (readers (pool_view s))(i := Got q)\<rparr>"
    using view_move [OF win(2), of s' "Dialing t q"] by simp
  moreover have "readers (pool_view s) i = Built (task_key t) p" using readers_at [OF win(2)] by simp
  ultimately show ?thesis using win(3) by (simp add: pool_step.win)
next
  case (lose t p now q loser ps)
  then have "pool_view s' = (pool_view s)\<lparr>spools := ps, readers := (readers (pool_view s))(i := Losing loser q)\<rparr>"
    using view_move [OF lose(2), of s' "Dropping t loser q"] by simp
  moreover have "readers (pool_view s) i = Built (task_key t) p" using readers_at [OF lose(2)] by simp
  ultimately show ?thesis using lose(3) by (simp add: pool_step.lose)
next
  case (close_loser t p q)
  then have "pool_view s' = (pool_view s)\<lparr>readers := (readers (pool_view s))(i := Got q), live := live (pool_view s) - {p}\<rparr>"
    using view_move [OF close_loser(2), of s' "Dialing t q"] by simp
  moreover have "readers (pool_view s) i = Losing p q" using readers_at [OF close_loser(2)] by simp
  ultimately show ?thesis using pool_step.close_loser [of "pool_view s" i p q] by simp
next
  case (dial_error t p w e)
  then have "pool_view s' = (pool_view s)\<lparr>readers := (readers (pool_view s))(i := Idle)\<rparr>"
    using view_move [OF dial_error(2), of s' "Failing t (refusal w t (AcquireFailed (task_sid t) (snd (target t)) e))"] by simp
  moreover have "readers (pool_view s) i = Got p" using readers_at [OF dial_error(2)] by simp
  ultimately show ?thesis by (simp add: pool_step.return)
next
  case (dial t p w c)
  then have "pool_view s' = (pool_view s)\<lparr>readers := (readers (pool_view s))(i := Idle)\<rparr>"
    using view_move [OF dial(2), of s' "Succeeding t p c"] by simp
  moreover have "readers (pool_view s) i = Got p" using readers_at [OF dial(2)] by simp
  ultimately show ?thesis by (simp add: pool_step.return)
next
  case (use t p c w eff r ds)
  then show ?thesis
    using view_same [OF use(2), of s' "Releasing p c r" ds] by simp
qed (simp, intro disjI1, rule view_same [where ds = "[]"], assumption, simp, simp, simp, simp, simp, simp, simp; fail)+

lemma reap_pools:
  assumes "reap_step s s'"
  shows "pool_step (ttl_of s) (pool_view s) (pool_view s')"
  using assms
proof cases
  case (reap ks now ps cl)
  then have "pool_view s' = (pool_view s)\<lparr>spools := ps, reaping := cl\<rparr>"
    by (intro pool_sys.equality) (simp_all add: pool_view_def fun_eq_iff)
  then show ?thesis
    using pool_step.reap [of "pool_view s" ks now "ttl_of s" ps cl] reap by (simp add: ttl_of_def)
next
  case (close_reaped p cl)
  then have "pool_view s' = (pool_view s)\<lparr>reaping := cl, live := live (pool_view s) - {p}\<rparr>"
    by (intro pool_sys.equality) (simp_all add: pool_view_def pools_of_def fun_eq_iff)
  then show ?thesis
    using pool_step.close_reaped [of "pool_view s" p cl "ttl_of s"] close_reaped by simp
qed

lemma accept_pools: "pool_view (s\<lparr>gStages := gStages s @ [Received body]\<rparr>) = pool_view s"
  by (auto simp: pool_view_def pools_of_def nth_append fun_eq_iff)

lemma svc_pools: "svc_step ws stores s s' \<Longrightarrow> pool_view s' = pool_view s \<or> pool_step (ttl_of s) (pool_view s) (pool_view s')"
  by (induction rule: svc_step.induct) (auto simp: accept_pools dest: work_pools reap_pools)

lemma work_config: "work_step ws stores i s s' \<Longrightarrow>
    cfg (srvPool (gServer s')) = cfg (srvPool (gServer s)) \<and> srvRouter (gServer s') = srvRouter (gServer s)"
  by (induction rule: work_step.induct) simp_all

lemma reap_config: "reap_step s s' \<Longrightarrow>
    cfg (srvPool (gServer s')) = cfg (srvPool (gServer s)) \<and> srvRouter (gServer s') = srvRouter (gServer s)"
  by (induction rule: reap_step.induct) simp_all

lemma svc_config: "svc_step ws stores s s' \<Longrightarrow>
    cfg (srvPool (gServer s')) = cfg (srvPool (gServer s)) \<and> srvRouter (gServer s') = srvRouter (gServer s)"
  by (induction rule: svc_step.induct) (simp_all add: work_config reap_config)

lemma svc_reach_pools:
  assumes "reach svc_start (svc_step ws stores) s"
  shows "reach sys_start (pool_step (ttl_of s)) (pool_view s)"
  using assms
proof (induction rule: reach.induct)
  case (reach_start s)
  then show ?case
    by (intro reach.reach_start) (simp add: svc_start_def sys_start_def pool_view_def)
next
  case (reach_step s s')
  have "ttl_of s' = ttl_of s" using svc_config [OF reach_step(2)] by (simp add: ttl_of_def)
  with reach_step.IH svc_pools [OF reach_step(2)] show ?case
    by (auto intro: reach.reach_step)
qed

section \<open>Counting goroutines\<close>

lemma filter_update: "i < length xs \<Longrightarrow>
    length (filter P (xs[i := y])) + of_bool (P (xs ! i)) = length (filter P xs) + of_bool (P y)"
proof (induction xs arbitrary: i)
  case (Cons x xs)
  show ?case
  proof (cases i)
    case (Suc k)
    with Cons.IH [of k] Cons.prems show ?thesis by simp
  qed simp
qed simp

text \<open>The goroutines at a stage of some kind, when one of them moves and starts second writes of another kind.\<close>

lemma stage_count:
  assumes "at_stage s i st" and "gStages s' = (gStages s)[i := st'] @ map (Admitting \<circ> SecondWrite) ds"
    and "\<And>d. \<not> P (Admitting (SecondWrite d))"
  shows "length (filter P (gStages s')) + of_bool (P st) = length (filter P (gStages s)) + of_bool (P st')"
proof -
  have "filter P (map (Admitting \<circ> SecondWrite) ds) = []" using assms(3) by (auto simp: filter_empty_conv)
  then show ?thesis using assms(1,2) filter_update [of i "gStages s" P st'] by (simp add: at_stage_def)
qed

section \<open>Where connections go\<close>

text \<open>The tasks that routing with one of the maps can give.\<close>

inductive routed_task :: "Router \<Rightarrow> Store set \<Rightarrow> task \<Rightarrow> bool" for r stores where
  "store \<in> stores \<Longrightarrow> Resolve r store (qShardKey req) = Inr res \<Longrightarrow> task_of req res = Some t \<Longrightarrow> routed_task r stores t"
| "store \<in> stores \<Longrightarrow> Resolve r store (qShardKey (req :: queryRequest)) = Inr res \<Longrightarrow> qWrite req \<Longrightarrow> dwShard d \<in> set (drop 1 (WriteShards res)) \<Longrightarrow>
    dwSQL d = qSQL req \<Longrightarrow> dwArgs d = qArgs req \<Longrightarrow> routed_task r stores (SecondWrite d)"

fun stage_ok :: "Router \<Rightarrow> Store set \<Rightarrow> stage \<Rightarrow> bool" where
  "stage_ok r stores (Counting req res) = (\<exists>store\<in>stores. Resolve r store (qShardKey req) = Inr res)"
| "stage_ok r stores (Admitting t) = routed_task r stores t"
| "stage_ok r stores (LookingUp t) = routed_task r stores t"
| "stage_ok r stores (Building t) = routed_task r stores t"
| "stage_ok r stores (Installing t p) = routed_task r stores t"
| "stage_ok r stores (Dropping t p q) = routed_task r stores t"
| "stage_ok r stores (Dialing t p) = routed_task r stores t"
| "stage_ok r stores (Failing t resp) = routed_task r stores t"
| "stage_ok r stores (Succeeding t p c) = routed_task r stores t"
| "stage_ok r stores (Using t p c) = routed_task r stores t"
| "stage_ok r stores _ = True"

definition origin_inv :: "Store set \<Rightarrow> system \<Rightarrow> bool" where
  "origin_inv stores s \<longleftrightarrow> list_all (stage_ok (srvRouter (gServer s)) stores) (gStages s) \<and>
     (\<forall>shard ep c. Connected shard ep c \<in> set (gLog s) \<longrightarrow> (\<exists>t. routed_task (srvRouter (gServer s)) stores t \<and> target t = (shard, ep)))"

lemma statement_starts:
  assumes "routed_task r stores t" and "statement w t c = (eff, resp, ds)" and "d \<in> set ds"
  shows "routed_task r stores (SecondWrite d)"
  using assms(1)
proof cases
  case (1 store req res)
  with assms(2,3) show ?thesis
    by (intro routed_task.intros(2) [of store stores r req res])
      (auto simp: task_of_def split: if_splits sum.splits)
next
  case (2 store req res d')
  with assms(2,3) show ?thesis by simp
qed

lemma stage_at_ok: "origin_inv stores s \<Longrightarrow> at_stage s i st \<Longrightarrow> stage_ok (srvRouter (gServer s)) stores st"
  by (auto simp: origin_inv_def at_stage_def list_all_length)

lemma origin_move:
  assumes "origin_inv stores s" and "gStages s' = (gStages s)[i := st'] @ map (Admitting \<circ> SecondWrite) ds"
    and "srvRouter (gServer s') = srvRouter (gServer s)" and "stage_ok (srvRouter (gServer s)) stores st'"
    and "\<And>d. d \<in> set ds \<Longrightarrow> routed_task (srvRouter (gServer s)) stores (SecondWrite d)"
    and "gLog s' = gLog s @ es" and "\<And>shard ep c. Connected shard ep c \<in> set es \<Longrightarrow>
      \<exists>t. routed_task (srvRouter (gServer s)) stores t \<and> target t = (shard, ep)"
  shows "origin_inv stores s'"
proof -
  have "list_all (stage_ok (srvRouter (gServer s)) stores) ((gStages s)[i := st'])"
    using assms(1,4) set_update_subset_insert [of "gStages s" i st'] by (auto simp: origin_inv_def list_all_iff)
  with assms show ?thesis by (auto simp: origin_inv_def list_all_iff)
qed

lemma origin_work:
  assumes "work_step ws stores i s s'" and inv: "origin_inv stores s"
  shows "origin_inv stores s'"
  using assms(1)
proof cases
  case (route body w req store res)
  then show ?thesis
    by (intro origin_move [OF inv, of _ i "Counting req res" "[]" "[]"]) (auto simp: move_def)
next
  case (count req res t)
  then obtain store where "store \<in> stores" "Resolve (srvRouter (gServer s)) store (qShardKey req) = Inr res"
    using stage_at_ok [OF inv count(2)] by auto
  then have "routed_task (srvRouter (gServer s)) stores t" using count(3) by (rule routed_task.intros)
  with count show ?thesis by (intro origin_move [OF inv, of _ i "Admitting t" "[]" "[]"]) auto
next
  case (dial t p w c)
  then show ?thesis
    using stage_at_ok [OF inv dial(2)]
    by (intro origin_move [OF inv, of _ i "Succeeding t p c" "[]" "[Connected (task_shard t) (snd (target t)) c]"])
      (auto intro: exI [of _ t])
next
  case (use t p c w eff r ds)
  then show ?thesis
    using stage_at_ok [OF inv use(2)] statement_effect [OF use(4)]
    by (intro origin_move [OF inv, of _ i "Releasing p c r" ds "[eff]"]) (auto intro: statement_starts)
next
  case (close_loser t p q)
  then show ?thesis
    using stage_at_ok [OF inv close_loser(2)]
    by (intro origin_move [OF inv, of _ i "Dialing t q" "[]" "[PoolClosed p]"]) auto
next
  case (release p c r)
  then show ?thesis
    by (intro origin_move [OF inv, of _ i "Finished r" "[]" "[Released c]"]) auto
qed (frule stage_at_ok [OF inv], simp, rule origin_move [OF inv, where ds = "[]" and es = "[]"], simp, simp, simp, simp, simp, simp; fail)+

lemma origin_reap: "reap_step s s' \<Longrightarrow> origin_inv stores s \<Longrightarrow> origin_inv stores s'"
  by (induction rule: reap_step.induct) (auto simp: origin_inv_def)

lemma origin_step:
  assumes "svc_step ws stores s s'" and "origin_inv stores s"
  shows "origin_inv stores s'"
  using assms(1)
proof cases
  case (accept body)
  with assms(2) show ?thesis by (auto simp: origin_inv_def)
qed (use assms(2) in \<open>auto intro: origin_work origin_reap\<close>)

interpretation origin_runs: inductive_invariant svc_start "svc_step ws stores" "origin_inv stores" for ws stores
proof
  show "svc_start s \<Longrightarrow> origin_inv stores s" for s by (simp add: svc_start_def origin_inv_def)
qed (rule origin_step)

lemma ReadEndpoint_choice: "ReadEndpoint res c = Writer (ReadShard res) \<or> Reader (ReadShard res) = Some (ReadEndpoint res c)"
  by (auto simp: ReadEndpoint_def split: option.split)

lemma routed_target:
  assumes "routed_task r (Some ` ms) t" and "target t = (shard, ep)"
  shows "\<exists>m\<in>ms. \<exists>key res. resolve_spec m (BucketFor key (bucketCount r)) = Some res \<and> shard \<in> {ReadShard res} \<union> set (WriteShards res) \<and>
    (ep = Writer shard \<or> shard = ReadShard res \<and> Reader shard = Some ep)"
  using assms(1)
proof cases
  case (1 store req res)
  then obtain m where m: "m \<in> ms" "resolve_spec m (BucketFor (qShardKey req) (bucketCount r)) = Some res"
    by (auto simp: Resolve_refines)
  have "shard \<in> {ReadShard res} \<union> set (WriteShards res) \<and> (ep = Writer shard \<or> shard = ReadShard res \<and> Reader shard = Some ep)"
    using 1(3) assms(2) ReadEndpoint_choice [of res "ParseReadConsistency (qConsistency req)"] Resolve_primary [OF 1(2)]
    by (auto simp: task_of_def split: if_splits)
  with m show ?thesis by blast
next
  case (2 store req res d)
  then obtain m where m: "m \<in> ms" "resolve_spec m (BucketFor (qShardKey req) (bucketCount r)) = Some res"
    by (auto simp: Resolve_refines)
  have "shard \<in> set (WriteShards res)" "ep = Writer shard"
    using 2 assms(2) by (auto dest: in_set_dropD)
  with m show ?thesis by blast
qed

section \<open>Every goroutine comes to its end\<close>

text \<open>The second writes a task can start, and an upper bound on the steps left to a goroutine and
  to those it starts.\<close>

fun spawns :: "task \<Rightarrow> nat" where
  "spawns (Writing req res primary) = length (WriteShards res) - 1"
| "spawns _ = 0"

fun todo :: "stage \<Rightarrow> nat" where
  "todo (Received body) = 20"
| "todo (Unrouted err) = 1"
| "todo (Counting req res) = 10 + 9 * (length (WriteShards res) - 1)"
| "todo (Admitting t) = 9 + 9 * spawns t"
| "todo (LookingUp t) = 8 + 9 * spawns t"
| "todo (Building t) = 7 + 9 * spawns t"
| "todo (Installing t p) = 6 + 9 * spawns t"
| "todo (Dropping t p q) = 5 + 9 * spawns t"
| "todo (Dialing t p) = 4 + 9 * spawns t"
| "todo (Failing t r) = 1"
| "todo (Succeeding t p c) = 3 + 9 * spawns t"
| "todo (Using t p c) = 2 + 9 * spawns t"
| "todo (Releasing p c r) = 1"
| "todo (Finished r) = 0"

definition remaining :: "system \<Rightarrow> nat" where
  "remaining s = sum_list (map todo (gStages s))"

lemma statement_spawns: "statement w t c = (eff, r, ds) \<Longrightarrow> length ds \<le> spawns t"
  by (cases t) (auto split: sum.splits)

lemma task_of_spawns: "task_of req res = Some t \<Longrightarrow> spawns t \<le> length (WriteShards res) - 1"
  by (auto simp: task_of_def split: if_splits)

lemma Resolve_writes: "Resolve r store k = Inr res \<Longrightarrow> length (WriteShards res) \<in> {1, 2}"
  by (cases store) (auto simp: resolve_defs split: option.splits if_splits sum.splits)

lemma todo_spawned: "sum_list (map todo (map (Admitting \<circ> SecondWrite) ds)) = 9 * length ds"
  by (induction ds) simp_all

lemma remaining_update:
  assumes "at_stage s i st" and "gStages s' = (gStages s)[i := st'] @ map (Admitting \<circ> SecondWrite) ds"
    and "todo st' + 9 * length ds < todo st"
  shows "remaining s' < remaining s"
proof -
  have "todo st \<le> sum_list (map todo (gStages s))"
    using assms(1) by (auto simp: at_stage_def intro!: member_le_sum_list)
  then show ?thesis
    using assms by (simp add: remaining_def at_stage_def map_update sum_list_update todo_spawned del: map_map)
qed

lemma work_decreases:
  assumes "work_step ws stores i s s'"
  shows "remaining s' < remaining s"
  using assms
proof cases
  case (route body w req store res)
  then show ?thesis
    using Resolve_writes [OF route(6)] by (intro remaining_update [OF route(2), of _ "Counting req res" "[]"]) auto
next
  case (count req res t)
  then show ?thesis
    using task_of_spawns [OF count(3)] by (intro remaining_update [OF count(2), of _ "Admitting t" "[]"]) auto
next
  case (use t p c w eff r ds)
  then show ?thesis
    using statement_spawns [OF use(4)] by (intro remaining_update [OF use(2), of _ "Releasing p c r" ds]) auto
qed (simp, rule remaining_update [where ds = "[]"], assumption, simp, simp; fail)+

text \<open>The driver answers every call: it fails, or gives a pool not given before and a connection not in use.\<close>

definition answers :: "('c, 'd, 's, 'v) world set \<Rightarrow> bool" where
  "answers ws \<longleftrightarrow>
     (\<forall>H c shard ep. finite H \<longrightarrow> (\<exists>w\<in>ws. \<forall>p. build_pool (Driver w) c shard ep = Inr p \<longrightarrow> p \<notin> H)) \<and>
     (\<forall>H p. finite H \<longrightarrow> (\<exists>w\<in>ws. \<forall>c. AcquireConn (Driver w) p = Inr c \<longrightarrow> c \<notin> H))"

lemma held_finite: "finite (held s)"
proof -
  have "held s \<subseteq> (\<lambda>st. snd (the (holds st))) ` set (gStages s)"
    unfolding held_def by force
  then show ?thesis by (rule finite_subset) simp
qed

lemma work_enabled:
  assumes "at_stage s i st" and "\<forall>r. st \<noteq> Finished r" and "answers ws" and "store \<in> stores"
    and "origin_inv stores s" and "finite (gCreated s)"
  shows "\<exists>s'. work_step ws stores i s s'"
proof -
  obtain w where w: "w \<in> ws" using assms(3) by (force simp: answers_def)
  have build: "\<exists>w\<in>ws. \<forall>p. build_pool (Driver w) c shard ep = Inr p \<longrightarrow> p \<notin> gCreated s" for c shard ep
    using assms(3,6) by (simp add: answers_def)
  have conn: "\<exists>w\<in>ws. \<forall>c. AcquireConn (Driver w) p = Inr c \<longrightarrow> c \<notin> held s" for p
    using assms(3) held_finite [of s] by (simp add: answers_def)
  show ?thesis
  proof (cases st)
    case (Received body)
    note st = assms(1) [unfolded Received]
    show ?thesis
    proof (cases "decode_query w body")
      case (Inl resp)
      from work_step.invalid [OF st w Inl] show ?thesis by blast
    next
      case (Inr req)
      show ?thesis
      proof (cases "Resolve (srvRouter (gServer s)) store (qShardKey req)")
        case (Inl err)
        from work_step.unrouted [OF st w Inr assms(4) Inl] show ?thesis by blast
      next
        case res: (Inr res)
        from work_step.route [OF st w Inr assms(4) res] show ?thesis by blast
      qed
    qed
  next
    case (Counting req res)
    then obtain store where "Resolve (srvRouter (gServer s)) store (qShardKey req) = Inr res"
      using stage_at_ok [OF assms(5,1)] by auto
    from Resolve_primary [OF this] obtain t where "task_of req res = Some t"
      by (cases "qWrite req") (auto simp: task_of_def)
    from work_step.count [OF assms(1) [unfolded Counting] this] show ?thesis by blast
  next
    case (Admitting t)
    obtain e b where allow: "Allow 0 (breaker_of (For (task_sid t) (breakers_of s)) (task_sid t)) = (e, b)" by (metis prod.exhaust)
    note st = assms(1) [unfolded Admitting]
    show ?thesis
    proof (cases e)
      case None
      from work_step.allow [OF st refl allow [unfolded None]] show ?thesis by blast
    next
      case (Some err)
      from work_step.deny [OF st w refl allow [unfolded Some]] show ?thesis by blast
    qed
  next
    case (LookingUp t)
    obtain o1 ps where "lookup_pool 0 (task_key t) (pools_of s) = (o1, ps)" by (metis prod.exhaust)
    note st = assms(1) [unfolded LookingUp] and this
    then show ?thesis using work_step.hit [OF st(1)] work_step.miss [OF st(1)] by (cases o1) blast+
  next
    case (Building t)
    obtain w where w: "w \<in> ws" "\<And>p. build_pool (Driver w) (cfg (srvPool (gServer s))) (task_shard t) (snd (target t)) = Inr p \<Longrightarrow> p \<notin> gCreated s"
      using build [of "cfg (srvPool (gServer s))" "task_shard t" "snd (target t)"] by blast
    note st = assms(1) [unfolded Building]
    show ?thesis
      using work_step.build_error [OF st w(1)] work_step.build [OF st w(1)] w(2)
      by (cases "build_pool (Driver w) (cfg (srvPool (gServer s))) (task_shard t) (snd (target t))") blast+
  next
    case (Installing t p)
    obtain q cl ps where "install_pool 0 (task_key t) p (pools_of s) = (q, cl, ps)" by (metis prod.exhaust)
    moreover from this have "cl = [] \<or> cl = [p]" by (auto simp: install_pool_def split: option.splits)
    ultimately show ?thesis
      using work_step.win [OF assms(1) [unfolded Installing]] work_step.lose [OF assms(1) [unfolded Installing]] by blast
  next
    case (Dialing t p)
    obtain w where w: "w \<in> ws" "\<And>c. AcquireConn (Driver w) p = Inr c \<Longrightarrow> c \<notin> held s"
      using conn [of p] by blast
    note st = assms(1) [unfolded Dialing]
    show ?thesis
      using work_step.dial_error [OF st w(1)] work_step.dial [OF st w(1)] w(2)
      by (cases "AcquireConn (Driver w) p"; cases "p \<in> gLive s") blast+
  next
    case (Using t p c)
    obtain eff r ds where "statement w t c = (eff, r, ds)" by (metis prod.exhaust)
    from work_step.use [OF assms(1) [unfolded Using] w this] show ?thesis by blast
  next
    case (Unrouted err)
    from work_step.count_error [OF assms(1) [unfolded Unrouted] w] show ?thesis by blast
  next
    case (Dropping t p q)
    from work_step.close_loser [OF assms(1) [unfolded Dropping]] show ?thesis by blast
  next
    case (Failing t r)
    from work_step.fail [OF assms(1) [unfolded Failing]] show ?thesis by blast
  next
    case (Succeeding t p c)
    from work_step.succeed [OF assms(1) [unfolded Succeeding]] show ?thesis by blast
  next
    case (Releasing p c r)
    from work_step.release [OF assms(1) [unfolded Releasing]] show ?thesis by blast
  qed (use assms(2) in simp)
qed

definition finite_pools :: "system \<Rightarrow> bool" where
  "finite_pools s \<longleftrightarrow> finite (gCreated s) \<and> finite (dom (pools_of s))"

lemma lookup_dom: "lookup_pool now key ps = (r, ps') \<Longrightarrow> dom ps' = dom ps"
  by (auto simp: lookup_pool_def split: option.splits if_splits)

lemma install_dom: "install_pool now key p ps = (q, cl, ps') \<Longrightarrow>
    (cl = [] \<and> key \<notin> dom ps \<and> dom ps' = insert key (dom ps)) \<or> (cl = [p] \<and> ps' = ps)"
  by (auto simp: install_pool_def split: option.splits)

lemma reap_dom:
  assumes "reapOnce now ttl ks ps = (ps', cl)"
  shows "dom ps' \<subseteq> dom ps \<and> (finite (dom ps) \<longrightarrow> card (dom ps') + length cl = card (dom ps))"
proof -
  have "dom (fst (fold (reap_entry now ttl) ks (ps, cl0))) \<subseteq> dom ps \<and> (finite (dom ps) \<longrightarrow>
      card (dom (fst (fold (reap_entry now ttl) ks (ps, cl0)))) + length (snd (fold (reap_entry now ttl) ks (ps, cl0))) = card (dom ps) + length cl0)"
    for ps cl0
  proof (induction ks arbitrary: ps cl0)
    case (Cons k ks)
    show ?case
    proof (cases "\<exists>e. ps k = Some e \<and> ttl < time_Sub now (lastUsed e)")
      case True
      then obtain e ps1 where e: "ps k = Some e" "reap_entry now ttl k (ps, cl0) = (ps1, cl0 @ [epool e])" "dom ps1 = dom ps - {k}"
        by (auto simp: reap_entry_def)
      then have "finite (dom ps) \<Longrightarrow> card (dom ps) = Suc (card (dom ps1))"
        using card.remove [of "dom ps" k] by (simp add: domI)
      with e Cons.IH [of ps1 "cl0 @ [epool e]"] show ?thesis by auto
    next
      case False
      then have "reap_entry now ttl k (ps, cl0) = (ps, cl0)" by (auto simp: reap_entry_def split: option.split)
      with Cons.IH [of ps cl0] show ?thesis by simp
    qed
  qed simp
  from this [of ps "[]"] show ?thesis using assms by (simp add: reapOnce_def)
qed

lemma finite_pools_work: "work_step ws stores i s s' \<Longrightarrow> finite_pools s \<Longrightarrow> finite_pools s'"
  by (induction rule: work_step.induct) (auto simp: finite_pools_def dest: lookup_dom install_dom)

lemma finite_pools_reap:
  assumes "reap_step s s'" and "finite_pools s"
  shows "finite_pools s'"
  using assms(1)
proof cases
  case (reap ks now ps cl)
  with assms(2) reap_dom [OF reap(5)] show ?thesis by (auto simp: finite_pools_def intro: finite_subset)
next
  case (close_reaped p cl)
  with assms(2) show ?thesis by (simp add: finite_pools_def)
qed

lemma finite_pools_step:
  assumes "svc_step ws stores s s'" and "finite_pools s"
  shows "finite_pools s'"
  using assms(1)
proof cases
  case (accept body)
  with assms(2) show ?thesis by (simp add: finite_pools_def)
qed (use assms(2) in \<open>auto intro: finite_pools_work finite_pools_reap\<close>)

definition sound :: "Store set \<Rightarrow> system \<Rightarrow> bool" where
  "sound stores s \<longleftrightarrow> origin_inv stores s \<and> finite_pools s"

lemma sound_work: "work_step ws stores i s s' \<Longrightarrow> sound stores s \<Longrightarrow> sound stores s'"
  by (auto simp: sound_def intro: origin_work finite_pools_work)

interpretation sound_runs: inductive_invariant svc_start "svc_step ws stores" "sound stores" for ws stores
proof
  show "svc_start s \<Longrightarrow> sound stores s" for s
    by (simp add: svc_start_def sound_def origin_inv_def finite_pools_def)
qed (auto simp: sound_def intro: origin_step finite_pools_step)

text \<open>The goroutines by themselves, without new requests.\<close>

definition work :: "('c, 'd, 's, 'v) world set \<Rightarrow> Store set \<Rightarrow> system \<Rightarrow> system \<Rightarrow> bool" where
  "work ws stores s s' \<longleftrightarrow> (\<exists>i. work_step ws stores i s s')"

interpretation workers: decreasing_steps "work ws stores" remaining "sound stores" for ws stores
  by unfold_locales (auto simp: work_def intro: work_decreases sound_work)

definition all_finished :: "system \<Rightarrow> bool" where
  "all_finished s \<longleftrightarrow> (\<forall>st\<in>set (gStages s). \<exists>r. st = Finished r)"

lemma stuck_finished:
  assumes "\<forall>s'. \<not> work ws stores s s'" and "sound stores s" and "answers ws" and "stores \<noteq> {}"
  shows "all_finished s"
  unfolding all_finished_def
proof
  fix st assume "st \<in> set (gStages s)"
  then obtain i where "at_stage s i st" by (auto simp: at_stage_def in_set_conv_nth)
  moreover obtain store where "store \<in> stores" using assms(4) by blast
  ultimately show "\<exists>r. st = Finished r"
    using work_enabled [of s i st ws store stores] assms(1-3) by (auto simp: work_def sound_def finite_pools_def)
qed

lemma remaining_bound:
  assumes "origin_inv stores s"
  shows "remaining s \<le> 20 * length (gStages s)"
proof -
  have "todo st \<le> 20" if "stage_ok (srvRouter (gServer s)) stores st" for st
  proof -
    have "spawns t \<le> 1" if "routed_task (srvRouter (gServer s)) stores t" for t
      using that
    proof cases
      case (1 store req res)
      then show ?thesis using task_of_spawns [OF 1(3)] Resolve_writes [OF 1(2)] by auto
    qed simp
    with that show ?thesis by (cases st) (force dest: Resolve_writes)+
  qed
  then have "sum_list (map todo (gStages s)) \<le> sum_list (map (\<lambda>_. 20) (gStages s))"
    using assms by (intro sum_list_mono) (auto simp: origin_inv_def list_all_iff)
  then show ?thesis by (simp add: remaining_def sum_list_triv)
qed

end
