(* ===== verification/Schedules.thy ===== *)
theory Schedules
  imports Goroutines
begin

text \<open>
  The goroutines of \<open>Goroutines\<close> and the handlers of \<open>Api\<close>: a handler in one piece is one of the
  schedules of its goroutine, so what \<open>Api_Query\<close> shows about a request is what happens when nothing
  gets in between; and the properties that hold whatever gets in between.
\<close>

section \<open>A handler in one piece is one of the schedules\<close>

abbreviation runs_to :: "('c, 'd, 's, 'v) world set \<Rightarrow> Store set \<Rightarrow> system \<Rightarrow> system \<Rightarrow> bool" where
  "runs_to ws stores \<equiv> rtranclp (work ws stores)"

lemma work_one: "work_step ws stores i s s' \<Longrightarrow> runs_to ws stores s s'"
  by (rule r_into_rtranclp) (auto simp: work_def)

lemma at_moved: "at_stage s i st \<Longrightarrow> gStages s' = (gStages s)[i := st'] \<Longrightarrow> at_stage s' i st'"
  by (simp add: at_stage_def)

lemma server_simps [simp]:
  "gServer (set_pools ps s) = (gServer s)\<lparr>srvPool := (srvPool (gServer s))\<lparr>mpools := ps\<rparr>\<rparr>"
  "gServer (set_breakers bs s) = (gServer s)\<lparr>srvPool := (srvPool (gServer s))\<lparr>breakers := bs\<rparr>\<rparr>"
  "gServer (set_metrics f s) = (gServer s)\<lparr>srvMetrics := f (srvMetrics (gServer s))\<rparr>"
  by (simp_all add: set_pools_def set_breakers_def set_metrics_def)

text \<open>From a pool on: the connection, the report to the breaker, the statement, the release.\<close>

lemma dial_schedule:
  assumes "at_stage s i (Dialing t p)" and "w \<in> ws" and "p \<in> gLive s" and "\<And>c. AcquireConn (Driver w) p = Inr c \<Longrightarrow> c \<notin> held s"
  shows "\<exists>s'. runs_to ws stores s s' \<and>
    (case AcquireConn (Driver w) p of
       Inl e \<Rightarrow> gServer s' = gServer (set_breakers (on_breaker (task_sid t) (Failure (tFailure (Clock w))) (breakers_of s)) s) \<and>
         gStages s' = (gStages s)[i := Finished (refusal w t (AcquireFailed (task_sid t) (snd (target t)) e))] \<and> gLog s' = gLog s
     | Inr c \<Rightarrow> gServer s' = gServer (set_breakers (on_breaker (task_sid t) Success (breakers_of s)) s) \<and>
         (case statement w t c of (eff, r, ds) \<Rightarrow>
            gStages s' = (gStages s)[i := Finished r] @ map (Admitting \<circ> SecondWrite) ds \<and>
            gLog s' = gLog s @ [Connected (task_shard t) (snd (target t)) c, eff, Released c]))"
proof (cases "AcquireConn (Driver w) p")
  case (Inl e)
  let ?s1 = "move i (Failing t (refusal w t (AcquireFailed (task_sid t) (snd (target t)) e))) s"
  let ?s2 = "set_breakers (on_breaker (task_sid t) (Failure (tFailure (Clock w))) (breakers_of ?s1)) (move i (Finished
        (refusal w t (AcquireFailed (task_sid t) (snd (target t)) e))) ?s1)"
  have "work_step ws stores i s ?s1" by (rule work_step.dial_error [OF assms(1,2) disjI1 [OF Inl]])
  moreover have "work_step ws stores i ?s1 ?s2" by (rule work_step.fail [OF at_moved [OF assms(1)]]) simp
  ultimately have "runs_to ws stores s ?s2" by (meson work_one rtranclp_trans)
  with Inl show ?thesis by (intro exI [of _ ?s2]) (simp add: breakers_of_def)
next
  case (Inr c)
  obtain eff r ds where st: "statement w t c = (eff, r, ds)" by (metis prod.exhaust)
  let ?s1 = "logged [Connected (task_shard t) (snd (target t)) c] (move i (Succeeding t p c) s)"
  let ?s2 = "set_breakers (on_breaker (task_sid t) Success (breakers_of ?s1)) (move i (Using t p c) ?s1)"
  let ?s3 = "logged [eff] (?s2\<lparr>gStages := (gStages ?s2)[i := Releasing p c r] @ map (Admitting \<circ> SecondWrite) ds\<rparr>)"
  let ?s4 = "logged [Released c] (move i (Finished r) ?s3)"
  have "work_step ws stores i s ?s1" using assms Inr by (intro work_step.dial) simp_all
  moreover have "work_step ws stores i ?s1 ?s2"
    by (rule work_step.succeed [OF at_moved [OF assms(1)]]) simp
  moreover have "work_step ws stores i ?s2 ?s3"
    by (rule work_step.use [OF at_moved [OF assms(1)] assms(2) st]) simp
  moreover have "work_step ws stores i ?s3 ?s4"
    using assms(1) by (intro work_step.release) (simp add: at_stage_def nth_append)
  ultimately have "runs_to ws stores s ?s4" by (meson work_one rtranclp_trans)
  moreover have "i < length (gStages s)" using assms(1) by (simp add: at_stage_def)
  ultimately show ?thesis
    using Inr st by (intro exI [of _ ?s4]) (simp add: breakers_of_def list_update_append)
qed

text \<open>What the driver gives is new: a pool it has not given before, a connection nobody holds; and the
  pools in the map are open.\<close>

definition fresh :: "('c, 'd, 's, 'v) world \<Rightarrow> system \<Rightarrow> bool" where
  "fresh w s \<longleftrightarrow> (\<forall>c shard ep p. build_pool (Driver w) c shard ep = Inr p \<longrightarrow> p \<notin> gCreated s) \<and>
     (\<forall>p c. AcquireConn (Driver w) p = Inr c \<longrightarrow> c \<notin> held s) \<and>
     (\<forall>key e. pools_of s key = Some e \<longrightarrow> epool e \<in> gLive s)"

lemma held_stays: "at_stage s i st \<Longrightarrow> gStages s' = (gStages s)[i := st'] \<Longrightarrow> holds st = None \<Longrightarrow> holds st' = None \<Longrightarrow> held s' = held s"
  using conn_at_stays by (simp add: held_ran)

lemma pool_schedule:
  assumes "at_stage s i (LookingUp t)" and "w \<in> ws" and "fresh w s"
    and "poolFor (Clock w) (Driver w) id (cfg (srvPool (gServer s))) (task_shard t) (snd (target t)) (pools_of s) = (r, cls, ps)"
  shows "cls = [] \<and> (\<exists>s'. runs_to ws stores s s' \<and> gServer s' = gServer (set_pools ps s) \<and> gLog s' = gLog s \<and>
    (case r of Inl e \<Rightarrow> gStages s' = (gStages s)[i := Failing t (refusal w t e)]
     | Inr p \<Rightarrow> gStages s' = (gStages s)[i := Dialing t p] \<and> p \<in> gLive s'))"
proof -
  let ?c = "cfg (srvPool (gServer s))"
  show ?thesis
  proof (cases "pools_of s (task_key t)")
    case (Some e)
    then have hit: "lookup_pool (tLookup (Clock w)) (task_key t) (pools_of s) =
        (Some (epool e), (pools_of s)(task_key t \<mapsto> e\<lparr>lastUsed := tLookup (Clock w)\<rparr>))"
      by (simp add: lookup_pool_def)
    let ?s1 = "set_pools ((pools_of s)(task_key t \<mapsto> e\<lparr>lastUsed := tLookup (Clock w)\<rparr>)) (move i (Dialing t (epool e)) s)"
    have "epool e \<in> gLive s" using assms(3) Some by (auto simp: fresh_def)
    moreover have "cls = []" "r = Inr (epool e)" "ps = (pools_of s)(task_key t \<mapsto> e\<lparr>lastUsed := tLookup (Clock w)\<rparr>)"
      using assms(4) hit by (simp_all add: poolFor_def)
    ultimately show ?thesis
      using work_one [OF work_step.hit [OF assms(1) hit]] by (intro conjI exI [of _ ?s1]) simp_all
  next
    case None
    then have miss: "lookup_pool now (task_key t) (pools_of s) = (None, pools_of s)" for now
      by (simp add: lookup_pool_def)
    let ?s1 = "set_pools (pools_of s) (move i (Building t) s)"
    have s1: "runs_to ws stores s ?s1" "at_stage ?s1 i (Building t)"
      using work_one [OF work_step.miss [OF assms(1) miss]] at_moved [OF assms(1)] by simp_all
    show ?thesis
    proof (cases "build_pool (Driver w) ?c (task_shard t) (snd (target t))")
      case (Inl e)
      then have "work_step ws stores i ?s1 (move i (Failing t (refusal w t e)) ?s1)"
        by (intro work_step.build_error [OF s1(2) assms(2)]) simp
      then have "runs_to ws stores s (move i (Failing t (refusal w t e)) ?s1)"
        using s1(1) by (meson work_one rtranclp_trans)
      moreover have "cls = []" "r = Inl e" "ps = pools_of s"
        using assms(4) miss Inl by (simp_all add: poolFor_def)
      ultimately show ?thesis
        by (intro conjI exI [of _ "move i (Failing t (refusal w t e)) ?s1"]) simp_all
    next
      case (Inr p)
      let ?s2 = "move i (Installing t p) (?s1\<lparr>gCreated := insert p (gCreated ?s1), gLive := insert p (gLive ?s1)\<rparr>)"
      let ?ps = "(pools_of s)(task_key t \<mapsto> \<lparr>epool = p, lastUsed = tInstall (Clock w)\<rparr>)"
      let ?s3 = "set_pools ?ps (move i (Dialing t p) ?s2)"
      have "p \<notin> gCreated s" using assms(3) Inr by (auto simp: fresh_def)
      then have "work_step ws stores i ?s1 ?s2"
        using Inr by (intro work_step.build [OF s1(2) assms(2)]) simp_all
      moreover have "work_step ws stores i ?s2 ?s3"
        using None by (intro work_step.win [OF at_moved [OF s1(2)]]) (simp_all add: install_pool_def)
      ultimately have "runs_to ws stores s ?s3"
        using s1(1) by (meson work_one rtranclp_trans)
      moreover have "cls = []" "r = Inr p" "ps = ?ps"
        using assms(4) miss Inr None by (simp_all add: poolFor_def install_pool_def)
      ultimately show ?thesis
        by (intro conjI exI [of _ ?s3]) simp_all
    qed
  qed
qed

lemma task_schedule:
  assumes "at_stage s i (Admitting t)" and "w \<in> ws" and "fresh w s"
    and "Acquire (Clock w) (Driver w) id (task_shard t) (snd (target t)) (srvPool (gServer s)) = (r, cls, m)"
  shows "cls = [] \<and> (\<exists>s'. runs_to ws stores s s' \<and> gServer s' = (gServer s)\<lparr>srvPool := m\<rparr> \<and>
    (case r of
       Inl e \<Rightarrow> gStages s' = (gStages s)[i := Finished (refusal w t e)] \<and> gLog s' = gLog s
     | Inr c \<Rightarrow> (case statement w t c of (eff, resp, ds) \<Rightarrow>
         gStages s' = (gStages s)[i := Finished resp] @ map (Admitting \<circ> SecondWrite) ds \<and>
         gLog s' = gLog s @ [Connected (task_shard t) (snd (target t)) c, eff, Released c])))"
proof -
  let ?m = "srvPool (gServer s)" and ?sid = "task_sid t"
  obtain err b where allow: "Allow (tAllow (Clock w)) (breaker_of (For ?sid (breakers_of s)) ?sid) = (err, b)"
    by (metis prod.exhaust)
  let ?bs = "on_breaker ?sid (\<lambda>_. b) (For ?sid (breakers_of s))"
  show ?thesis
  proof (cases err)
    case (Some e)
    let ?s1 = "set_breakers ?bs (move i (Finished (refusal w t (BreakerOpen ?sid e))) s)"
    have "runs_to ws stores s ?s1"
      by (rule work_one [OF work_step.deny [OF assms(1,2) refl allow [unfolded Some]]])
    moreover have "cls = []" "r = Inl (BreakerOpen ?sid e)" "m = ?m\<lparr>breakers := ?bs\<rparr>"
      using assms(4) allow Some by (simp_all add: Acquire_def Let_def breakers_of_def)
    ultimately show ?thesis by (intro conjI exI [of _ ?s1]) simp_all
  next
    case None
    obtain pr cl ps where pool: "poolFor (Clock w) (Driver w) id (cfg ?m) (task_shard t) (snd (target t)) (pools_of s) = (pr, cl, ps)"
      by (metis prod.exhaust)
    let ?s1 = "set_breakers ?bs (move i (LookingUp t) s)"
    have s1: "runs_to ws stores s ?s1" "at_stage ?s1 i (LookingUp t)"
      using work_one [OF work_step.allow [OF assms(1) refl allow [unfolded None]]] at_moved [OF assms(1)] by simp_all
    have held1: "held ?s1 = held s" by (rule held_stays [OF assms(1), of _ "LookingUp t"]) simp_all
    then have "fresh w ?s1" using assms(3) by (simp add: fresh_def)
    from pool_schedule [OF s1(2) assms(2) this, of pr cl ps stores] pool
    obtain s2 where cl: "cl = []" and s2: "runs_to ws stores ?s1 s2" "gServer s2 = gServer (set_pools ps ?s1)" "gLog s2 = gLog s"
        "case pr of Inl e \<Rightarrow> gStages s2 = (gStages ?s1)[i := Failing t (refusal w t e)]
         | Inr p \<Rightarrow> gStages s2 = (gStages ?s1)[i := Dialing t p] \<and> p \<in> gLive s2"
      by auto
    have acq: "cls = []" "(r, m) = (case pr of
        Inl e \<Rightarrow> (Inl e, ?m\<lparr>mpools := ps, breakers := on_breaker ?sid (Failure (tFailure (Clock w))) ?bs\<rparr>)
      | Inr p \<Rightarrow> (case AcquireConn (Driver w) p of
          Inl e \<Rightarrow> (Inl (AcquireFailed ?sid (snd (target t)) e), ?m\<lparr>mpools := ps, breakers := on_breaker ?sid (Failure (tFailure (Clock w))) ?bs\<rparr>)
        | Inr c \<Rightarrow> (Inr c, ?m\<lparr>mpools := ps, breakers := on_breaker ?sid Success ?bs\<rparr>)))"
      using assms(4) allow None pool cl
      by (auto simp: Acquire_def Let_def breakers_of_def pools_of_def split: sum.splits)
    show ?thesis
    proof (cases pr)
      case (Inl e)
      let ?s3 = "set_breakers (on_breaker ?sid (Failure (tFailure (Clock w))) (breakers_of s2)) (move i (Finished (refusal w t e)) s2)"
      have "at_stage s2 i (Failing t (refusal w t e))" using s2(4) Inl assms(1) by (simp add: at_stage_def)
      from work_one [OF work_step.fail [OF this, of ws stores "tFailure (Clock w)"]]
      have "runs_to ws stores s ?s3" using s1(1) s2(1) by (meson rtranclp_trans)
      then show ?thesis
        using acq s2 Inl by (intro conjI exI [of _ ?s3]) (simp_all add: breakers_of_def)
    next
      case (Inr p)
      then have st: "at_stage s2 i (Dialing t p)" "p \<in> gLive s2" using s2(4) assms(1) by (simp_all add: at_stage_def)
      have "held s2 = held s"
        using held_stays [OF s1(2), of s2 "Dialing t p"] s2(4) Inr held1 by simp
      then have "c \<notin> held s2" if "AcquireConn (Driver w) p = Inr c" for c
        using assms(3) that by (simp add: fresh_def)
      from dial_schedule [OF st(1) assms(2) st(2) this, of stores] obtain s3 where s3: "runs_to ws stores s2 s3"
        "case AcquireConn (Driver w) p of
           Inl e \<Rightarrow> gServer s3 = gServer (set_breakers (on_breaker ?sid (Failure (tFailure (Clock w))) (breakers_of s2)) s2) \<and>
             gStages s3 = (gStages s2)[i := Finished (refusal w t (AcquireFailed ?sid (snd (target t)) e))] \<and> gLog s3 = gLog s2
         | Inr c \<Rightarrow> gServer s3 = gServer (set_breakers (on_breaker ?sid Success (breakers_of s2)) s2) \<and>
             (case statement w t c of (eff, r, ds) \<Rightarrow>
                gStages s3 = (gStages s2)[i := Finished r] @ map (Admitting \<circ> SecondWrite) ds \<and>
                gLog s3 = gLog s2 @ [Connected (task_shard t) (snd (target t)) c, eff, Released c])"
        by blast
      have "runs_to ws stores s s3" using s1(1) s2(1) s3(1) by (meson rtranclp_trans)
      then show ?thesis
        using acq s2 s3(2) Inr
        by (intro conjI exI [of _ s3]) (auto simp: breakers_of_def split: sum.splits prod.splits)
    qed
  qed
qed

lemma decode_query_invalid:
  "decode_query w body = Inl resp \<Longrightarrow> handleQuery w store body s = Some \<lparr>oResponse = resp, oEffects = [], oStarted = [], oServer = s\<rparr>"
  by (auto simp: decode_query_def handleQuery_def split: sum.splits if_splits)

lemma decode_query_complete:
  assumes "decode_query w body = Inr req"
  shows "handleQuery w store body s = (case Resolve (srvRouter s) store (qShardKey req) of
      Inl err \<Rightarrow> Some \<lparr>oResponse = writeRouterError (Printable w) err, oEffects = [], oStarted = [],
        oServer = s\<lparr>srvMetrics := IncRoutingError (srvMetrics s)\<rparr>\<rparr>
    | Inr res \<Rightarrow> if qWrite req then handleWrite w res req (counted res s) else Some (handleRead w res req (counted res s)))"
  using assms by (auto simp: decode_query_def handleQuery_def counted_def Let_def split: sum.splits if_splits)

lemma handler_of_task:
  assumes "(if qWrite req then handleWrite w res req s else Some (handleRead w res req s)) = Some out"
    and "task_of req res = Some t"
    and "Acquire (Clock w) (Driver w) (Others w) (task_shard t) (snd (target t)) (srvPool s) = (r, cls, m)"
  shows "oServer out = s\<lparr>srvPool := m\<rparr> \<and>
    (case r of
       Inl e \<Rightarrow> refusal w t e = Some (oResponse out) \<and> oStarted out = [] \<and> oEffects out = map PoolClosed cls
     | Inr c \<Rightarrow> \<exists>eff. statement w t c = (eff, Some (oResponse out), oStarted out) \<and>
         oEffects out = map PoolClosed cls @ [Connected (task_shard t) (snd (target t)) c, eff, Released c])"
  using assms by (auto simp: task_of_def handleRead_def handleWrite_def Let_def split: if_splits sum.splits)

lemma query_schedule:
  assumes "at_stage s i (Received body)" and "w \<in> ws" and "store \<in> stores" and "Others w = id" and "fresh w s"
    and "handleQuery w store body (gServer s) = Some out"
  shows "\<exists>s'. runs_to ws stores s s' \<and> gServer s' = oServer out \<and>
    gStages s' = (gStages s)[i := Finished (Some (oResponse out))] @ map (Admitting \<circ> SecondWrite) (oStarted out) \<and>
    gLog s' = gLog s @ oEffects out"
proof (cases "decode_query w body")
  case (Inl resp)
  from work_one [OF work_step.invalid [OF assms(1,2) Inl], of stores] decode_query_invalid [OF Inl, of store "gServer s"] assms(6)
  show ?thesis by (intro exI [of _ "move i (Finished (Some resp)) s"]) auto
next
  case req: (Inr req)
  show ?thesis
  proof (cases "Resolve (srvRouter (gServer s)) store (qShardKey req)")
    case (Inl err)
    let ?s1 = "move i (Unrouted err) s"
    let ?s2 = "set_metrics IncRoutingError (move i (Finished (Some (writeRouterError (Printable w) err))) ?s1)"
    have "work_step ws stores i s ?s1" by (rule work_step.unrouted [OF assms(1,2) req assms(3) Inl])
    moreover have "work_step ws stores i ?s1 ?s2"
      by (rule work_step.count_error [OF at_moved [OF assms(1)] assms(2)]) simp
    ultimately have "runs_to ws stores s ?s2" by (meson work_one rtranclp_trans)
    then show ?thesis
      using decode_query_complete [OF req, of store "gServer s"] Inl assms(6) by (intro exI [of _ ?s2]) auto
  next
    case (Inr res)
    obtain t where t: "task_of req res = Some t"
      using Resolve_primary [OF Inr] by (cases "qWrite req") (auto simp: task_of_def)
    let ?s1 = "move i (Counting req res) s"
    let ?s2 = "set_metrics (IncRoutingRequest (ShardID (ReadShard res)) (ResBucketID res)) (move i (Admitting t) ?s1)"
    have "work_step ws stores i s ?s1" by (rule work_step.route [OF assms(1,2) req assms(3) Inr])
    moreover have "work_step ws stores i ?s1 ?s2"
      by (rule work_step.count [OF at_moved [OF assms(1)] t]) simp
    ultimately have s2: "runs_to ws stores s ?s2" by (meson work_one rtranclp_trans)
    have server: "gServer ?s2 = counted res (gServer s)" by (simp add: counted_def)
    obtain r cls m where acq: "Acquire (Clock w) (Driver w) (Others w) (task_shard t) (snd (target t)) (srvPool (gServer ?s2)) = (r, cls, m)"
      by (metis prod.exhaust)
    have "at_stage ?s2 i (Admitting t)" by (rule at_moved [OF assms(1)]) simp
    moreover have "held ?s2 = held s" by (rule held_stays [OF assms(1), of _ "Admitting t"]) simp_all
    then have "fresh w ?s2" using assms(5) by (simp add: fresh_def)
    ultimately obtain s3 where cls: "cls = []" and s3: "runs_to ws stores ?s2 s3" "gServer s3 = (gServer ?s2)\<lparr>srvPool := m\<rparr>"
      "case r of
         Inl e \<Rightarrow> gStages s3 = (gStages ?s2)[i := Finished (refusal w t e)] \<and> gLog s3 = gLog ?s2
       | Inr c \<Rightarrow> (case statement w t c of (eff, resp, ds) \<Rightarrow>
           gStages s3 = (gStages ?s2)[i := Finished resp] @ map (Admitting \<circ> SecondWrite) ds \<and>
           gLog s3 = gLog ?s2 @ [Connected (task_shard t) (snd (target t)) c, eff, Released c])"
      using task_schedule [of ?s2 i t w ws r cls m stores] assms(2) acq unfolding assms(4) by blast
    have "(if qWrite req then handleWrite w res req (gServer ?s2) else Some (handleRead w res req (gServer ?s2))) = Some out"
      using decode_query_complete [OF req, of store "gServer s"] Inr assms(6) unfolding server by simp
    from handler_of_task [OF this t acq] cls s3 s2 show ?thesis
      by (intro exI [of _ s3]) (auto split: sum.splits intro: rtranclp_trans)
  qed
qed

lemma second_schedule:
  assumes "at_stage s i (Admitting (SecondWrite d))" and "w \<in> ws" and "Others w = id" and "fresh w s"
    and "run_dual_write w d (srvPool (gServer s)) = (eff, m)"
  shows "\<exists>s'. runs_to ws stores s s' \<and> gServer s' = (gServer s)\<lparr>srvPool := m\<rparr> \<and>
    gStages s' = (gStages s)[i := Finished None] \<and> gLog s' = gLog s @ eff"
proof -
  obtain r cls m' where acq: "Acquire (Clock w) (Driver w) id (task_shard (SecondWrite d)) (snd (target (SecondWrite d))) (srvPool (gServer s)) = (r, cls, m')"
    by (metis prod.exhaust)
  from task_schedule [OF assms(1,2,4) this, of stores] acq assms(3,5) show ?thesis
    by (auto simp: run_dual_write_def split: sum.splits)
qed

section \<open>Fixtures\<close>

text \<open>Worlds that differ in the handles the driver gives out.\<close>

definition numbered :: "nat \<Rightarrow> (bytes, bytes, secrets_error, any) world" where
  "numbered n = test_world\<lparr>Driver := (Driver test_world)\<lparr>NewWithConfig := (\<lambda>_. Inr n), AcquireConn := (\<lambda>_. Inr n)\<rparr>\<rparr>"

lemma numbered_answers: "answers (range numbered)"
proof -
  have new: "\<exists>n. n \<notin> H" if "finite H" for H :: "nat set" using ex_new_if_finite [OF infinite_UNIV_nat that] .
  have "build_pool (Driver (numbered n)) c shard ep = Inr p \<Longrightarrow> p = n" for n c shard ep p
    by (auto simp: build_pool_def numbered_def Let_def split: sum.splits)
  moreover have "AcquireConn (Driver (numbered n)) p = Inr c \<Longrightarrow> c = n" for n p c
    by (simp add: numbered_def)
  ultimately show ?thesis
    unfolding answers_def by (metis new rangeI)
qed

definition fixture_start :: system where
  "fixture_start = \<lparr>gServer = test_server, gStages = [], gLog = [], gCreated = {}, gLive = {}, gReaping = []\<rparr>"

lemma fixture_start: "svc_start fixture_start"
  by (simp add: svc_start_def fixture_start_def pools_of_def breakers_of_def test_server_def NewServer_def NewManager_def)

lemma runs_reach: "runs_to ws stores s s' \<Longrightarrow> reach I (svc_step ws stores) s \<Longrightarrow> reach I (svc_step ws stores) s'"
  by (induction rule: rtranclp_induct) (auto simp: work_def intro: reach_step svc_step.work)

lemma accept_reach: "reach I (svc_step ws stores) s \<Longrightarrow>
    reach I (svc_step ws stores) (s\<lparr>gStages := gStages s @ [Received body]\<rparr>)"
  by (erule reach_step) (rule svc_step.accept)

lemma started_status:
  assumes "handleQuery w store body s = Some out" and "oStarted out \<noteq> []"
  shows "rStatus (oResponse out) = 200"
proof (cases rule: handleQuery_cases [where w = w and store = store and body = body and s = s])
  case (reads req res)
  have "oStarted (handleRead w res req (counted res s)) = []"
    by (cases rule: handleRead_cases [OF refl, of w res req "counted res s"]) simp_all
  with assms reads show ?thesis by simp
next
  case (writes req res out')
  from writes(6,4) show ?thesis
    by (cases rule: handleWrite_cases) (use writes(5) assms in simp_all)
qed (use assms in simp_all)

text \<open>One write during a migration, up to the point where its second write has not started.\<close>

lemma fixture_run:
  assumes "test_world \<in> ws" and "test_store ''DUAL_WRITE'' \<in> stores"
  shows "\<exists>s resp cls. reach svc_start (svc_step ws stores) s \<and>
    gLog s = map PoolClosed cls @ [Connected source_shard (Writer source_shard) 7, Executed 7 ''A'' [], Released 7] \<and>
    gStages s = [Finished (Some resp), Admitting (SecondWrite \<lparr>dwShard = dest_shard, dwSQL = ''A'', dwArgs = []\<rparr>)] \<and> rStatus resp = 200"
proof -
  let ?s0 = "fixture_start\<lparr>gStages := gStages fixture_start @ [Received (write_body ''A'')]\<rparr>"
  have r0: "reach svc_start (svc_step ws stores) ?s0"
    by (rule accept_reach) (rule reach_start, rule fixture_start)
  obtain out cls where out: "handleQuery test_world (test_store ''DUAL_WRITE'') (write_body ''A'') (gServer ?s0) = Some out"
      "oStarted out = [\<lparr>dwShard = dest_shard, dwSQL = ''A'', dwArgs = []\<rparr>]"
      "oEffects out = map PoolClosed cls @ [Connected source_shard (Writer source_shard) 7, Executed 7 ''A'' [], Released 7]"
    using test_request [OF all_closed_server refl fixture_queries(2)] by (auto simp: fixture_start_def)
  then have "rStatus (oResponse out) = 200" by (auto intro: started_status)
  moreover have "fresh test_world ?s0"
    by (simp add: fresh_def fixture_start_def held_def pools_of_def test_server_def NewServer_def NewManager_def)
  ultimately obtain s' where "runs_to ws stores ?s0 s'" "gStages s' = [Finished (Some (oResponse out)),
      Admitting (SecondWrite \<lparr>dwShard = dest_shard, dwSQL = ''A'', dwArgs = []\<rparr>)]" "gLog s' = oEffects out" "rStatus (oResponse out) = 200"
    using query_schedule [of ?s0 0 "write_body ''A''" test_world ws "test_store ''DUAL_WRITE''" stores out] assms out
    by (auto simp: at_stage_def fixture_start_def test_world_def)
  with runs_reach [OF _ r0] out(3) show ?thesis by (intro exI [of _ s'] exI [of _ "oResponse out"] exI [of _ cls]) simp
qed

section \<open>Properties of every schedule\<close>



text \<open>
  connections go only where some map sends some request. In every interleaving, with the map
  changing under the requests, each connection that is taken is to a shard that the read/write
  table of one of the maps names for the bucket of some key, as read shard or as write shard, at
  its writer, or at the reader of a read shard.
\<close>

theorem connections_where_routed:
  assumes "reach svc_start (svc_step ws (Some ` ms)) s" and "Connected shard ep c \<in> set (gLog s)"
  shows "\<exists>m\<in>ms. \<exists>key res. resolve_spec m (BucketFor key (bucketCount (srvRouter (gServer s)))) = Some res \<and>
    shard \<in> {ReadShard res} \<union> set (WriteShards res) \<and> (ep = Writer shard \<or> shard = ReadShard res \<and> Reader shard = Some ep)"
proof -
  have "origin_inv (Some ` ms) s" by (rule origin_runs.inv_reach [OF assms(1)])
  with assms(2) obtain t where "routed_task (srvRouter (gServer s)) (Some ` ms) t" "target t = (shard, ep)"
    by (auto simp: origin_inv_def)
  then show ?thesis by (rule routed_target)
qed

theorem connections_where_routed_witness:
  "\<exists>s. reach svc_start (svc_step {test_world} (Some ` {test_mapping ''ACTIVE'' ''ACTIVE'' ''DUAL_WRITE''})) s \<and>
    Connected source_shard (Writer source_shard) 7 \<in> set (gLog s) \<and>
    (\<exists>key res. resolve_spec (test_mapping ''ACTIVE'' ''ACTIVE'' ''DUAL_WRITE'') (BucketFor key (bucketCount (srvRouter (gServer s)))) = Some res \<and>
      source_shard \<in> {ReadShard res} \<union> set (WriteShards res))"
proof -
  obtain s where s: "reach svc_start (svc_step {test_world} (Some ` {test_mapping ''ACTIVE'' ''ACTIVE'' ''DUAL_WRITE''})) s"
    and con: "Connected source_shard (Writer source_shard) 7 \<in> set (gLog s)"
    using fixture_run [of "{test_world}" "Some ` {test_mapping ''ACTIVE'' ''ACTIVE'' ''DUAL_WRITE''}"] by (auto simp: test_store_def)
  from connections_where_routed [OF s con] s con show ?thesis by blast
qed



text \<open>
  C7: every request comes to its end. When the driver answers every call, the goroutines that are
  running, with the second writes they still start, make at most twenty steps each in all, in
  whatever order they are scheduled, and stop only when each of them is finished.
\<close>

theorem requests_finish:
  assumes "reach svc_start (svc_step ws stores) s" and "answers ws" and "stores \<noteq> {}"
    and "(work ws stores ^^ n) s t"
  shows "n \<le> 20 * length (gStages s) \<and> ((\<exists>u. work ws stores t u) \<or> all_finished t)"
proof -
  have sound: "sound stores s" by (rule sound_runs.inv_reach [OF assms(1)])
  have "n \<le> remaining s" using workers.run_bounded [OF sound assms(4)] by simp
  also have "\<dots> \<le> 20 * length (gStages s)" using remaining_bound sound unfolding sound_def by blast
  finally have "n \<le> 20 * length (gStages s)" .
  moreover have "sound stores t"
    by (rule workers.steps_keep [OF relpowp_imp_rtranclp [OF assms(4)] sound])
  ultimately show ?thesis using stuck_finished [OF _ _ assms(2,3), of t] by blast
qed

theorem requests_finish_witness:
  "\<exists>s t. gStages s = [Received (write_body ''A'')] \<and> rtranclp (work (range numbered) {test_store ''DUAL_WRITE''}) s t \<and>
    all_finished t \<and> length (gStages t) \<ge> 1"
proof -
  let ?ws = "range numbered" and ?st = "{test_store ''DUAL_WRITE''}"
  let ?s = "fixture_start\<lparr>gStages := gStages fixture_start @ [Received (write_body ''A'')]\<rparr>"
  have r: "reach svc_start (svc_step ?ws ?st) ?s"
    by (rule accept_reach) (rule reach_start, rule fixture_start)
  obtain t where t: "runs_to ?ws ?st ?s t" "\<forall>u. \<not> work ?ws ?st t u"
    using workers.run_to_end [OF sound_runs.inv_reach [OF r]] by blast
  obtain n where "(work ?ws ?st ^^ n) ?s t" using rtranclp_imp_relpowp [OF t(1)] by blast
  from requests_finish [OF r numbered_answers _ this] t(2) have "all_finished t" by blast
  moreover have "length (gStages u) \<le> length (gStages v)" if "runs_to ?ws ?st u v" for u v
    using that
  proof (induction rule: rtranclp_induct)
    case (step v v')
    then obtain i where "work_step ?ws ?st i v v'" by (auto simp: work_def)
    then have "length (gStages v) \<le> length (gStages v')" by cases simp_all
    with step.IH show ?case by simp
  qed simp
  from this [OF t(1)] have "length (gStages t) \<ge> 1" by simp
  ultimately show ?thesis using t(1) by (intro exI [of _ ?s] exI [of _ t]) (simp add: fixture_start_def)
qed



section \<open>Requests that cannot be routed\<close>

definition none_unrouted :: "router_error set \<Rightarrow> system \<Rightarrow> bool" where
  "none_unrouted E s \<longleftrightarrow> (\<forall>err\<in>E. Unrouted err \<notin> set (gStages s))"

lemma none_unrouted_move: "none_unrouted E s \<Longrightarrow> gStages s' = (gStages s)[i := st] @ map (Admitting \<circ> SecondWrite) ds \<Longrightarrow>
    (\<And>err. st = Unrouted err \<Longrightarrow> err \<notin> E) \<Longrightarrow> none_unrouted E s'"
  using set_update_subset_insert [of "gStages s" i st] by (auto simp: none_unrouted_def)

text \<open>Errors that no store at hand gives are given to no request.\<close>

lemma none_unrouted_work:
  assumes "work_step ws stores i s s'" and n: "none_unrouted E s"
    and "\<And>store key err. store \<in> stores \<Longrightarrow> Resolve (srvRouter (gServer s)) store key = Inl err \<Longrightarrow> err \<notin> E"
  shows "none_unrouted E s'"
  using assms(1)
proof cases
  case (unrouted body w req store err)
  then show ?thesis
    using assms(3) by (intro none_unrouted_move [OF n, of _ i "Unrouted err" "[]"]) auto
next
  case (use t p c w eff r ds)
  then show ?thesis by (intro none_unrouted_move [OF n, of _ i "Releasing p c r" ds]) simp_all
qed (hypsubst, rule none_unrouted_move [OF n, where ds = "[]"], simp, simp; fail)+

lemma none_unrouted_step:
  assumes "svc_step ws stores s s'" and "none_unrouted E s"
    and "\<And>store key err. store \<in> stores \<Longrightarrow> Resolve (srvRouter (gServer s)) store key = Inl err \<Longrightarrow> err \<notin> E"
  shows "none_unrouted E s'"
  using assms(1)
proof cases
  case (accept body)
  with assms(2) show ?thesis by (simp add: none_unrouted_def)
next
  case (work i)
  then show ?thesis using assms(2,3) by (rule none_unrouted_work)
next
  case reaper
  then have "gStages s' = gStages s" by cases simp_all
  with assms(2) show ?thesis by (simp add: none_unrouted_def)
qed

end
