(* ===== verification/Model_Json.thy ===== *)
theory Model_Json
  imports Model Go_Decode
begin

text \<open>
  The JSON form of the registry records, from the struct tags of \<open>internal/model/types.go\<close>.
\<close>

definition zero_Endpoint :: Endpoint where
  "zero_Endpoint = \<lparr>Host = [], Port = 0, Database = []\<rparr>"

definition Endpoint_fields :: "Endpoint field list" where
  "Endpoint_fields =
     [(''host'', str_field (\<lambda>x. Host_update (\<lambda>_. x))),
      (''port'', int_field (\<lambda>x. Port_update (\<lambda>_. x))),
      (''database'', str_field (\<lambda>x. Database_update (\<lambda>_. x)))]"

definition dec_Endpoint :: "json \<Rightarrow> Endpoint \<Rightarrow> Endpoint option" where
  "dec_Endpoint = dec_struct Endpoint_fields"

definition zero_ShardDef :: ShardDef where
  "zero_ShardDef = \<lparr>ShardID = [], Status = [], Writer = zero_Endpoint, Reader = None,
     CredentialRef = [], Region = []\<rparr>"

definition ShardDef_fields :: "ShardDef field list" where
  "ShardDef_fields =
     [(''shard_id'', str_field (\<lambda>x. ShardID_update (\<lambda>_. x))),
      (''status'', str_field (\<lambda>x. Status_update (\<lambda>_. x))),
      (''writer'', sub_field dec_Endpoint Writer (\<lambda>x. Writer_update (\<lambda>_. x))),
      (''reader'', sub_field (dec_ptr dec_Endpoint zero_Endpoint) Reader (\<lambda>x. Reader_update (\<lambda>_. x))),
      (''credential_ref'', str_field (\<lambda>x. CredentialRef_update (\<lambda>_. x))),
      (''region'', str_field (\<lambda>x. Region_update (\<lambda>_. x)))]"

definition dec_ShardDef :: "json \<Rightarrow> ShardDef \<Rightarrow> ShardDef option" where
  "dec_ShardDef = dec_struct ShardDef_fields"

definition zero_BucketDef :: BucketDef where
  "zero_BucketDef = \<lparr>BucketID = 0, SourceShardID = [], DestShardID = [], State = [], MappingVersion = 0\<rparr>"

definition BucketDef_fields :: "BucketDef field list" where
  "BucketDef_fields =
     [(''bucket_id'', int_field (\<lambda>x. BucketID_update (\<lambda>_. x))),
      (''shard_id'', str_field (\<lambda>x. SourceShardID_update (\<lambda>_. x))),
      (''dest_shard_id'', str_field (\<lambda>x. DestShardID_update (\<lambda>_. x))),
      (''state'', str_field (\<lambda>x. State_update (\<lambda>_. x))),
      (''mapping_version'', int_field (\<lambda>x. MappingVersion_update (\<lambda>_. x)))]"

definition dec_BucketDef :: "json \<Rightarrow> BucketDef \<Rightarrow> BucketDef option" where
  "dec_BucketDef = dec_struct BucketDef_fields"

abbreviation Unmarshal_ShardDef :: "bytes \<Rightarrow> (json_error, ShardDef) result" where
  "Unmarshal_ShardDef \<equiv> Unmarshal dec_ShardDef zero_ShardDef"

abbreviation Unmarshal_BucketDef :: "bytes \<Rightarrow> (json_error, BucketDef) result" where
  "Unmarshal_BucketDef \<equiv> Unmarshal dec_BucketDef zero_BucketDef"

section \<open>The documents of the tests\<close>

lemma Unmarshal_bucket_sample:
  "Unmarshal_BucketDef (quoted ''{`shard_id`:`shard-03`}'') = Inr (zero_BucketDef\<lparr>SourceShardID := ''shard-03''\<rparr>)"
  by code_simp

lemma Unmarshal_shard_sample:
  "Unmarshal_ShardDef (quoted ''{`shard_id`:`shard-01`,`status`:`ACTIVE`,`writer`:{`host`:`pg`,`port`:6432,`database`:`payment`}}'') =
    Inr (zero_ShardDef\<lparr>ShardID := ''shard-01'', Status := ''ACTIVE'',
      Writer := \<lparr>Host = ''pg'', Port = 6432, Database = ''payment''\<rparr>\<rparr>)"
  by code_simp

lemma Unmarshal_malformed_sample: "Unmarshal_ShardDef ''not json'' = Inl SyntaxError"
  by code_simp

lemma Unmarshal_null_sample: "Unmarshal_ShardDef ''null'' = Inr zero_ShardDef"
  by code_simp

end
