(* ===== verification/Registry.thy ===== *)
theory Registry
  imports Cache Model_Json
begin

text \<open>
  \<open>internal/registry/keys.go\<close> and the pure part of \<open>internal/registry/etcd.go\<close>: the
  key-space, \<open>applyKV\<close>, the snapshot built by a full load and the one built by a watch
  batch. The specification is the etcd key-space itself, a finite map from keys to values:
  \<open>represents\<close> says that a snapshot shows exactly what the key-space holds.
\<close>

section \<open>Keys\<close>

definition key_prefix :: bytes where "key_prefix = ''/sharding/''"
definition versionKey :: bytes where "versionKey = key_prefix @ ''version''"
definition shardsPrefix :: bytes where "shardsPrefix = key_prefix @ ''shards/''"
definition bucketsPrefix :: bytes where "bucketsPrefix = key_prefix @ ''buckets/''"
definition migrationPrefix :: bytes where "migrationPrefix = key_prefix @ ''migrations/''"

lemmas key_defs = key_prefix_def versionKey_def shardsPrefix_def bucketsPrefix_def migrationPrefix_def

definition shardIDFromKey :: "bytes \<Rightarrow> bytes option" where
  "shardIDFromKey key =
     (if \<not> HasPrefix key shardsPrefix then None else Some (TrimPrefix key shardsPrefix))"

definition bucketIDFromKey :: "bytes \<Rightarrow> int option" where
  "bucketIDFromKey key =
     (if \<not> HasPrefix key bucketsPrefix then None
      else let idStr = TrimPrefix key bucketsPrefix in
        case Atoi idStr of Inl _ \<Rightarrow> None | Inr n \<Rightarrow> Some n)"

lemma shardIDFromKey_iff: "shardIDFromKey key = Some sid \<longleftrightarrow> key = shardsPrefix @ sid"
  by (auto simp: shardIDFromKey_def dest: HasPrefix_split)

lemma bucketIDFromKey_iff:
  "bucketIDFromKey key = Some i \<longleftrightarrow> (\<exists>s. key = bucketsPrefix @ s \<and> Atoi s = Inr i)"
  by (auto simp: bucketIDFromKey_def Let_def split: sum.splits) (metis HasPrefix_split)

lemma shard_key_no_bucket: "shardIDFromKey key = Some sid \<Longrightarrow> bucketIDFromKey key = None"
  by (auto simp: shardIDFromKey_iff bucketIDFromKey_def HasPrefix_def key_defs)

section \<open>Applying one key\<close>

definition fill_ShardID :: "bytes \<Rightarrow> ShardDef \<Rightarrow> ShardDef" where
  "fill_ShardID sid def = (if ShardID def = [] then def\<lparr>ShardID := sid\<rparr> else def)"

text \<open>The updated map and the error, if any; an error leaves the map as it is.\<close>

definition applyKV :: "Mapping \<Rightarrow> bytes \<Rightarrow> bytes \<Rightarrow> bool \<Rightarrow> Mapping \<times> json_error option" where
  "applyKV m key val deleted =
     (case shardIDFromKey key of
        Some sid \<Rightarrow>
          if deleted then (m\<lparr>Shards := (Shards m)(sid := None)\<rparr>, None)
          else (case Unmarshal_ShardDef val of
                  Inl e \<Rightarrow> (m, Some e)
                | Inr def \<Rightarrow> (m\<lparr>Shards := (Shards m)(sid \<mapsto> fill_ShardID sid def)\<rparr>, None))
      | None \<Rightarrow>
          (case bucketIDFromKey key of
             Some i \<Rightarrow>
               if deleted then (m\<lparr>Buckets := (Buckets m)(i := None)\<rparr>, None)
               else (case Unmarshal_BucketDef val of
                       Inl e \<Rightarrow> (m, Some e)
                     | Inr def \<Rightarrow> (m\<lparr>Buckets := (Buckets m)(i \<mapsto> def\<lparr>BucketID := i\<rparr>)\<rparr>, None))
           | None \<Rightarrow> (m, None)))"

definition empty_mapping :: "int \<Rightarrow> Mapping" where
  "empty_mapping rv = \<lparr>Revision = rv, Shards = Map.empty, Buckets = Map.empty\<rparr>"

text \<open>The loop of \<open>loadAll\<close>: malformed keys are logged and skipped.\<close>

definition build_mapping :: "(bytes \<times> bytes) list \<Rightarrow> int \<Rightarrow> Mapping" where
  "build_mapping kvs rv = fold (\<lambda>(k, v) m. fst (applyKV m k v False)) kvs (empty_mapping rv)"

section \<open>Applying a watch batch\<close>

record watchEvent =
  EvType :: bytes
  EvKey :: bytes
  EvValue :: bytes
  EvRevision :: int

record watchBatch =
  BatchRevision :: int
  Events :: "watchEvent list"
  Canceled :: bool
  CancelReason :: bytes

definition apply_event :: "watchEvent \<Rightarrow> Mapping \<Rightarrow> Mapping" where
  "apply_event ev m =
     (if EvType ev = ''PUT'' then fst (applyKV m (EvKey ev) (EvValue ev) False)
      else if EvType ev = ''DELETE'' then fst (applyKV m (EvKey ev) [] True)
      else m)"

text \<open>The snapshot a batch leads to from a copy \<open>next\<close> of the current one.\<close>

definition apply_batch :: "watchBatch \<Rightarrow> Mapping \<Rightarrow> Mapping" where
  "apply_batch batch nxt =
     (let nxt = fold apply_event (Events batch) nxt
      in if 0 < BatchRevision batch then nxt\<lparr>Revision := BatchRevision batch\<rparr> else nxt)"

definition next_watchRev :: "watchBatch \<Rightarrow> int \<Rightarrow> int" where
  "next_watchRev batch watchRev =
     (if 0 < BatchRevision batch then wrap64 (BatchRevision batch + 1) else watchRev)"

section \<open>The key-space as the specification\<close>

type_synonym keyspace = "bytes \<rightharpoonup> bytes"

definition shard_val :: "bytes \<Rightarrow> bytes \<Rightarrow> ShardDef option" where
  "shard_val sid v = (case Unmarshal_ShardDef v of Inl _ \<Rightarrow> None | Inr def \<Rightarrow> Some (fill_ShardID sid def))"

definition bucket_val :: "int \<Rightarrow> bytes \<Rightarrow> BucketDef option" where
  "bucket_val i v = (case Unmarshal_BucketDef v of Inl _ \<Rightarrow> None | Inr def \<Rightarrow> Some (def\<lparr>BucketID := i\<rparr>))"

text \<open>A snapshot shows a key-space: each entry is the decoded value of its key, and there is no
  entry without a key.\<close>

definition represents_buckets :: "keyspace \<Rightarrow> (int \<rightharpoonup> BucketDef) \<Rightarrow> bool" where
  "represents_buckets kv bs \<longleftrightarrow>
     (\<forall>key i v. bucketIDFromKey key = Some i \<longrightarrow> kv key = Some v \<longrightarrow> bs i = bucket_val i v) \<and>
     (\<forall>i. (\<forall>key. bucketIDFromKey key = Some i \<longrightarrow> kv key = None) \<longrightarrow> bs i = None)"

definition represents :: "keyspace \<Rightarrow> Mapping \<Rightarrow> bool" where
  "represents kv m \<longleftrightarrow>
     (\<forall>sid. Shards m sid = Option.bind (kv (shardsPrefix @ sid)) (shard_val sid)) \<and>
     represents_buckets kv (Buckets m)"

text \<open>No two keys name the same bucket (as \<open>/sharding/buckets/7\<close> and \<open>/sharding/buckets/0007\<close> do).\<close>

definition unambiguous :: "keyspace \<Rightarrow> bool" where
  "unambiguous kv \<longleftrightarrow> (\<forall>k k' i. kv k \<noteq> None \<longrightarrow> kv k' \<noteq> None \<longrightarrow>
     bucketIDFromKey k = Some i \<longrightarrow> bucketIDFromKey k' = Some i \<longrightarrow> k = k')"

definition well_formed :: "bytes \<Rightarrow> bytes \<Rightarrow> bool" where
  "well_formed key v \<longleftrightarrow>
     (shardIDFromKey key \<noteq> None \<longrightarrow> is_ok (Unmarshal_ShardDef v)) \<and>
     (bucketIDFromKey key \<noteq> None \<longrightarrow> is_ok (Unmarshal_BucketDef v))"

definition kv_event :: "watchEvent \<Rightarrow> keyspace \<Rightarrow> keyspace" where
  "kv_event ev kv = (if EvType ev = ''PUT'' then kv(EvKey ev \<mapsto> EvValue ev)
     else if EvType ev = ''DELETE'' then kv(EvKey ev := None) else kv)"

text \<open>What etcd sends: puts, and deletions of keys that exist. A malformed value may only go to
  a key that had none, since the incremental update keeps the previous entry otherwise.\<close>

definition event_ok :: "keyspace \<Rightarrow> watchEvent \<Rightarrow> bool" where
  "event_ok kv ev \<longleftrightarrow>
     (EvType ev = ''PUT'' \<and> unambiguous (kv_event ev kv) \<and>
        (well_formed (EvKey ev) (EvValue ev) \<or> kv (EvKey ev) = None)) \<or>
     (EvType ev = ''DELETE'' \<and> unambiguous kv \<and> kv (EvKey ev) \<noteq> None)"

section \<open>Lemmas\<close>

lemma applyKV_wf: "wf_mapping m \<Longrightarrow> wf_mapping (fst (applyKV m k v d))"
  by (auto simp: applyKV_def wf_mapping_def split: option.splits sum.splits if_splits)

lemma apply_event_wf: "wf_mapping m \<Longrightarrow> wf_mapping (apply_event ev m)"
  by (simp add: apply_event_def applyKV_wf)

lemma fold_apply_event_wf: "wf_mapping m \<Longrightarrow> wf_mapping (fold apply_event evs m)"
  by (induction evs arbitrary: m) (simp_all add: apply_event_wf)

lemma apply_batch_wf: "wf_mapping m \<Longrightarrow> wf_mapping (apply_batch b m)"
  using fold_apply_event_wf [of m "Events b"] by (simp add: apply_batch_def wf_mapping_def Let_def)

lemma build_mapping_wf: "wf_mapping (build_mapping kvs rv)"
proof -
  have load: "wf_mapping m \<Longrightarrow> wf_mapping (fold (\<lambda>(k, v) m. fst (applyKV m k v False)) kvs m)" for m
    by (induction kvs arbitrary: m) (auto simp: applyKV_wf)
  show ?thesis
    unfolding build_mapping_def by (rule load) (simp add: wf_mapping_def empty_mapping_def)
qed

lemma applyKV_Revision: "Revision (fst (applyKV m k v d)) = Revision m"
  by (simp add: applyKV_def split: option.splits sum.splits)

lemma represents_unique:
  assumes "represents kv m" and "represents kv m'"
  shows "Shards m = Shards m'" and "Buckets m = Buckets m'"
proof -
  show "Shards m = Shards m'"
    using assms by (simp add: represents_def fun_eq_iff)
  show "Buckets m = Buckets m'"
  proof
    fix i
    show "Buckets m i = Buckets m' i"
    proof (cases "\<exists>key. bucketIDFromKey key = Some i \<and> kv key \<noteq> None")
      case True
      then obtain key v where "bucketIDFromKey key = Some i" "kv key = Some v" by auto
      with assms show ?thesis by (simp add: represents_def represents_buckets_def)
    next
      case False
      with assms show ?thesis by (simp add: represents_def represents_buckets_def)
    qed
  qed
qed

lemma represents_empty: "represents Map.empty (empty_mapping rv)"
  by (simp add: represents_def represents_buckets_def empty_mapping_def)

lemma represents_Revision: "represents kv (m\<lparr>Revision := rv\<rparr>) \<longleftrightarrow> represents kv m"
  by (simp add: represents_def)

lemma well_formed_val:
  "well_formed key v \<Longrightarrow> shardIDFromKey key = Some sid \<Longrightarrow> shard_val sid v \<noteq> None"
  "well_formed key v \<Longrightarrow> bucketIDFromKey key = Some i \<Longrightarrow> bucket_val i v \<noteq> None"
  by (auto simp: well_formed_def shard_val_def bucket_val_def is_ok_iff)

text \<open>\<open>applyKV\<close> in terms of the decoded values: an update, unless the value is malformed.\<close>

lemma applyKV_shard_put:
  "shardIDFromKey key = Some sid \<Longrightarrow> fst (applyKV m key v False) =
    (case shard_val sid v of None \<Rightarrow> m | Some def \<Rightarrow> m\<lparr>Shards := (Shards m)(sid \<mapsto> def)\<rparr>)"
  by (simp add: applyKV_def shard_val_def split: sum.split)

lemma applyKV_bucket_put:
  "bucketIDFromKey key = Some i \<Longrightarrow> fst (applyKV m key v False) =
    (case bucket_val i v of None \<Rightarrow> m | Some def \<Rightarrow> m\<lparr>Buckets := (Buckets m)(i \<mapsto> def)\<rparr>)"
  by (cases "shardIDFromKey key")
    (auto simp: applyKV_def bucket_val_def dest: shard_key_no_bucket split: sum.split)

lemma applyKV_other: "shardIDFromKey key = None \<Longrightarrow> bucketIDFromKey key = None \<Longrightarrow> applyKV m key v d = (m, None)"
  by (simp add: applyKV_def)

lemma applyKV_delete:
  "shardIDFromKey key = Some sid \<Longrightarrow> applyKV m key v True = (m\<lparr>Shards := (Shards m)(sid := None)\<rparr>, None)"
  "bucketIDFromKey key = Some i \<Longrightarrow> applyKV m key v True = (m\<lparr>Buckets := (Buckets m)(i := None)\<rparr>, None)"
  by (auto simp: applyKV_def split: option.split dest: shard_key_no_bucket)

lemma represents_buckets_other:
  "bucketIDFromKey key = None \<Longrightarrow> represents_buckets (kv(key := x)) bs \<longleftrightarrow> represents_buckets kv bs"
proof -
  assume none: "bucketIDFromKey key = None"
  have "(bucketIDFromKey k = Some i \<longrightarrow> P ((kv(key := x)) k)) = (bucketIDFromKey k = Some i \<longrightarrow> P (kv k))" for k i P
    using none by (cases "k = key") simp_all
  note upd = this [of _ _ "\<lambda>y. y = None"] this [of _ _ "\<lambda>y. y = Some v \<longrightarrow> bs i = bucket_val i v" for v i]
  show ?thesis unfolding represents_buckets_def upd ..
qed

text \<open>Updates of the one key of bucket \<open>i\<close>.\<close>

lemma represents_buckets_upd:
  assumes rep: "represents_buckets kv bs" and key: "bucketIDFromKey key = Some i"
    and same: "\<And>k. bucketIDFromKey k = Some i \<Longrightarrow> kv k \<noteq> None \<Longrightarrow> k = key"
  shows "represents_buckets (kv(key := x)) (bs(i := Option.bind x (bucket_val i)))"
  unfolding represents_buckets_def
proof (intro conjI allI impI)
  fix k j v
  assume k: "bucketIDFromKey k = Some j" and v: "(kv(key := x)) k = Some v"
  show "(bs(i := Option.bind x (bucket_val i))) j = bucket_val j v"
  proof (cases "k = key")
    case True
    with k v key show ?thesis by simp
  next
    case False
    with v have kv: "kv k = Some v" by simp
    with False k same [of k] have "j \<noteq> i" by auto
    moreover from rep k kv have "bs j = bucket_val j v"
      unfolding represents_buckets_def by blast
    ultimately show ?thesis by simp
  qed
next
  fix j
  assume none: "\<forall>k. bucketIDFromKey k = Some j \<longrightarrow> (kv(key := x)) k = None"
  show "(bs(i := Option.bind x (bucket_val i))) j = None"
  proof (cases "j = i")
    case True
    with none key show ?thesis by auto
  next
    case False
    with none key have "\<forall>k. bucketIDFromKey k = Some j \<longrightarrow> kv k = None"
      by (metis fun_upd_other option.inject)
    with rep False show ?thesis by (simp add: represents_buckets_def)
  qed
qed

lemma represents_put:
  assumes rep: "represents kv m" and un: "unambiguous (kv(key \<mapsto> v))"
    and ok: "well_formed key v \<or> kv key = None"
  shows "represents (kv(key \<mapsto> v)) (fst (applyKV m key v False))"
proof (cases "shardIDFromKey key")
  case (Some sid)
  then have key: "key = shardsPrefix @ sid" and nb: "bucketIDFromKey key = None"
    by (simp_all add: shardIDFromKey_iff shard_key_no_bucket)
  have "Shards m sid = None" if "shard_val sid v = None"
  proof -
    from ok that well_formed_val(1) [OF _ Some] have "kv key = None" by blast
    with rep key show ?thesis by (simp add: represents_def)
  qed
  then show ?thesis
    using rep nb unfolding applyKV_shard_put [OF Some] represents_def
    by (simp add: represents_buckets_other key split: option.split)
next
  case None
  then have other: "shardsPrefix @ sid \<noteq> key" for sid
    using shardIDFromKey_iff [of key sid] by auto
  show ?thesis
  proof (cases "bucketIDFromKey key")
    case (Some i)
    have same: "k = key" if "bucketIDFromKey k = Some i" "kv k \<noteq> None" for k
      using un that Some unfolding unambiguous_def by (metis fun_upd_apply option.discI)
    have keep: "Buckets m i = None" if "bucket_val i v = None"
    proof -
      from ok that well_formed_val(2) [OF _ Some] have "kv key = None" by blast
      with same have "\<forall>k. bucketIDFromKey k = Some i \<longrightarrow> kv k = None" by blast
      with rep show ?thesis by (simp add: represents_def represents_buckets_def)
    qed
    have "Buckets (fst (applyKV m key v False)) = (Buckets m)(i := bucket_val i v)"
      using keep unfolding applyKV_bucket_put [OF Some] by (auto split: option.split)
    with rep other show ?thesis
      using represents_buckets_upd [OF _ Some same, where bs = "Buckets m" and x = "Some v"]
      unfolding represents_def applyKV_bucket_put [OF Some]
      by (simp split: option.splits)
  next
    case nb: None
    from rep other nb show ?thesis
      by (simp add: applyKV_other [OF None nb] represents_def represents_buckets_other)
  qed
qed

lemma represents_delete:
  assumes rep: "represents kv m" and un: "unambiguous kv" and key: "kv key \<noteq> None"
  shows "represents (kv(key := None)) (fst (applyKV m key v True))"
proof (cases "shardIDFromKey key")
  case (Some sid)
  then have "key = shardsPrefix @ sid" and "bucketIDFromKey key = None"
    by (simp_all add: shardIDFromKey_iff shard_key_no_bucket)
  with rep show ?thesis
    unfolding applyKV_delete(1) [OF Some] represents_def by (simp add: represents_buckets_other)
next
  case None
  then have other: "shardsPrefix @ sid \<noteq> key" for sid
    using shardIDFromKey_iff [of key sid] by auto
  show ?thesis
  proof (cases "bucketIDFromKey key")
    case (Some i)
    have same: "k = key" if "bucketIDFromKey k = Some i" "kv k \<noteq> None" for k
      using un that Some key unfolding unambiguous_def by metis
    with rep other show ?thesis
      using represents_buckets_upd [OF _ Some same, where bs = "Buckets m" and x = None]
      unfolding applyKV_delete(2) [OF Some] represents_def by simp
  next
    case nb: None
    from rep other nb show ?thesis
      by (simp add: applyKV_other [OF None nb] represents_def represents_buckets_other)
  qed
qed

lemma represents_event: "represents kv m \<Longrightarrow> event_ok kv ev \<Longrightarrow> represents (kv_event ev kv) (apply_event ev m)"
  by (auto simp: event_ok_def kv_event_def apply_event_def intro: represents_put represents_delete)

interpretation watch: event_simulation represents event_ok kv_event apply_event
  by unfold_locales (rule represents_event)

lemma represents_build:
  assumes "distinct (map fst kvs)" and "unambiguous (map_of kvs)"
  shows "represents (map_of kvs) (build_mapping kvs rv)"
  using assms
proof (induction kvs rule: rev_induct)
  case Nil
  then show ?case by (simp add: build_mapping_def represents_empty)
next
  case (snoc kv kvs)
  obtain k v where kv: "kv = (k, v)" by (cases kv)
  with snoc.prems have k: "map_of kvs k = None"
    by (auto simp: map_of_eq_None_iff)
  have m: "map_of (kvs @ [kv]) = (map_of kvs)(k \<mapsto> v)"
    using k kv by (auto simp: map_add_def fun_eq_iff split: option.split)
  have "unambiguous (map_of kvs)"
    using snoc.prems(2) k unfolding m unambiguous_def by (metis fun_upd_apply option.discI)
  then have "represents (map_of kvs) (build_mapping kvs rv)"
    using snoc by simp
  moreover have "build_mapping (kvs @ [kv]) rv = fst (applyKV (build_mapping kvs rv) k v False)"
    by (simp add: build_mapping_def kv)
  ultimately show ?case
    using represents_put [of "map_of kvs" _ k v] snoc.prems(2) k unfolding m by metis
qed


section \<open>Key-spaces given as lists\<close>

text \<open>Each bucket has one key; a bool-valued form of \<open>unambiguous\<close> for a listed key-space.\<close>

definition distinct_buckets :: "(bytes \<times> bytes) list \<Rightarrow> bool" where
  "distinct_buckets kvs \<longleftrightarrow> distinct (List.map_filter bucketIDFromKey (remdups (map fst kvs)))"

lemma distinct_map_filter_inj:
  "distinct (List.map_filter f xs) \<Longrightarrow> x \<in> set xs \<Longrightarrow> y \<in> set xs \<Longrightarrow> f x = Some i \<Longrightarrow> f y = Some i \<Longrightarrow> x = y"
  by (induction xs) (force simp: List.map_filter_def split: if_splits)+

lemma distinct_buckets_unambiguous: "distinct_buckets kvs \<Longrightarrow> unambiguous (map_of kvs)"
  unfolding unambiguous_def distinct_buckets_def
  by (metis distinct_map_filter_inj list.set_map map_of_eq_None_iff set_remdups)

lemma unambiguous_delete: "unambiguous kv \<Longrightarrow> unambiguous (kv(key := None))"
  unfolding unambiguous_def by (metis fun_upd_apply)

lemma event_ok_unambiguous: "event_ok kv ev \<Longrightarrow> unambiguous (kv_event ev kv)"
  by (auto simp: event_ok_def kv_event_def unambiguous_delete)

lemma events_ok_unambiguous:
  "unambiguous kv \<Longrightarrow> events_ok kv_event event_ok evs kv \<Longrightarrow> unambiguous (fold kv_event evs kv)"
  by (induction evs arbitrary: kv) (auto dest: event_ok_unambiguous)

section \<open>A watched snapshot and a reloaded one\<close>

lemma applyKV_Revision_update:
  "fst (applyKV (m\<lparr>Revision := r\<rparr>) k v d) = (fst (applyKV m k v d))\<lparr>Revision := r\<rparr>"
  by (simp add: applyKV_def split: option.split sum.split)

lemma apply_event_Revision_update:
  "apply_event ev (m\<lparr>Revision := r\<rparr>) = (apply_event ev m)\<lparr>Revision := r\<rparr>"
  by (simp add: apply_event_def applyKV_Revision_update)

lemma fold_apply_event_Revision_update:
  "fold apply_event evs (m\<lparr>Revision := r\<rparr>) = (fold apply_event evs m)\<lparr>Revision := r\<rparr>"
  by (induction evs arbitrary: m) (simp_all add: apply_event_Revision_update)

text \<open>The content after a run of batches is that of the concatenated events.\<close>

lemma fold_apply_batch_content:
  "\<exists>r. fold apply_batch bs m = (fold apply_event (concat (map Events bs)) m)\<lparr>Revision := r\<rparr>"
proof (induction bs arbitrary: m)
  case Nil
  show ?case by (rule exI [of _ "Revision m"]) simp
next
  case (Cons b bs)
  have "\<exists>r. apply_batch b m = (fold apply_event (Events b) m)\<lparr>Revision := r\<rparr>"
    unfolding apply_batch_def Let_def
    by (cases "0 < BatchRevision b") (auto intro: exI [of _ "Revision (fold apply_event (Events b) m)"])
  then obtain r where r: "apply_batch b m = (fold apply_event (Events b) m)\<lparr>Revision := r\<rparr>" ..
  obtain r' where "fold apply_batch bs (apply_batch b m) =
      (fold apply_event (concat (map Events bs)) (apply_batch b m))\<lparr>Revision := r'\<rparr>"
    using Cons.IH by blast
  then show ?case
    by (intro exI [of _ r']) (simp add: r fold_apply_event_Revision_update)
qed

lemma fold_applyKV_Revision:
  "Revision (fold (\<lambda>(k, v) m. fst (applyKV m k v False)) kvs m) = Revision m"
  by (induction kvs arbitrary: m) (auto simp: applyKV_Revision)

lemma build_mapping_Revision [simp]: "Revision (build_mapping kvs rv) = rv"
  by (simp add: build_mapping_def fold_applyKV_Revision empty_mapping_def)

lemma apply_batch_Revision [simp]:
  "0 < BatchRevision b \<Longrightarrow> Revision (apply_batch b m) = BatchRevision b"
  by (simp add: apply_batch_def Let_def)

lemma Mapping_eqI:
  "Revision m = Revision m' \<Longrightarrow> Shards m = Shards m' \<Longrightarrow> Buckets m = Buckets m' \<Longrightarrow> (m :: Mapping) = m'"
  by simp

lemma apply_batches_reload:
  assumes "distinct (map fst kvs)" and "unambiguous (map_of kvs)"
    and "events_ok kv_event event_ok (concat (map Events bs)) (map_of kvs)"
    and "distinct (map fst kvs')"
    and "map_of kvs' = fold kv_event (concat (map Events bs)) (map_of kvs)"
    and "bs \<noteq> []" and "BatchRevision (last bs) = rv'" and "0 < rv'"
  shows "fold apply_batch bs (build_mapping kvs rv) = build_mapping kvs' rv'"
proof (rule Mapping_eqI)
  let ?evs = "concat (map Events bs)"
  have "represents (fold kv_event ?evs (map_of kvs)) (fold apply_event ?evs (build_mapping kvs rv))"
    using assms by (intro watch.sim_run represents_build)
  then have inc: "represents (map_of kvs') (fold apply_event ?evs (build_mapping kvs rv))"
    by (simp only: assms)
  have full: "represents (map_of kvs') (build_mapping kvs' rv')"
    using assms events_ok_unambiguous by (intro represents_build) metis+
  obtain r where r: "fold apply_batch bs (build_mapping kvs rv) =
      (fold apply_event ?evs (build_mapping kvs rv))\<lparr>Revision := r\<rparr>"
    using fold_apply_batch_content by blast
  show "Shards (fold apply_batch bs (build_mapping kvs rv)) = Shards (build_mapping kvs' rv')"
    and "Buckets (fold apply_batch bs (build_mapping kvs rv)) = Buckets (build_mapping kvs' rv')"
    using represents_unique [OF inc full] by (simp_all add: r)
  have "fold apply_batch bs m = apply_batch (last bs) (fold apply_batch (butlast bs) m)" for m
    using \<open>bs \<noteq> []\<close> by (metis append_butlast_last_id comp_apply fold.simps(1,2) fold_append id_apply)
  then show "Revision (fold apply_batch bs (build_mapping kvs rv)) = Revision (build_mapping kvs' rv')"
    using assms by simp
qed



lemma sample_values:
  "is_ok (Unmarshal_BucketDef (quoted ''{`shard_id`:`s1`,`dest_shard_id`:`s2`,`state`:`CUTOVER`}''))"
  "is_ok (Unmarshal_BucketDef (quoted ''{`shard_id`:`s1`}''))"
  by code_simp+

lemma sample_key: "bucketIDFromKey ''/sharding/buckets/0007'' = Some 7" "shardIDFromKey ''/sharding/buckets/0007'' = None"
  by code_simp+


text \<open>
  a value that does not decode splits the two ways of following etcd. The watch keeps the
  entry the key had before the put and \<open>applyKV\<close> reports the error; a full load of the same
  key-space has no entry for it. Until the next reconciliation the router serves the old one.
\<close>

theorem malformed_put_keeps_stale_entry:
  assumes "shardIDFromKey key = Some sid" and "Unmarshal_ShardDef v = Inl e"
    and "distinct (map fst kvs)" and "unambiguous (map_of kvs)" and "map_of kvs key = Some v"
  shows "applyKV m key v False = (m, Some e) \<and> Shards (build_mapping kvs rv) sid = None"
proof
  show "applyKV m key v False = (m, Some e)"
    using assms by (simp add: applyKV_def)
  have "represents (map_of kvs) (build_mapping kvs rv)"
    using assms by (intro represents_build)
  then show "Shards (build_mapping kvs rv) sid = None"
    using assms by (simp add: represents_def shardIDFromKey_iff shard_val_def)
qed

theorem malformed_put_keeps_stale_entry_witness:
  "applyKV (build_mapping [(''/sharding/shards/s1'', ''{}'')] 3) ''/sharding/shards/s1'' ''not json'' False =
     (build_mapping [(''/sharding/shards/s1'', ''{}'')] 3, Some SyntaxError) \<and>
   Shards (build_mapping [(''/sharding/shards/s1'', ''not json'')] 4) ''s1'' = None"
proof (rule malformed_put_keeps_stale_entry)
  show "unambiguous (map_of [(''/sharding/shards/s1'', ''not json'')])"
    by (rule distinct_buckets_unambiguous) code_simp
  show "shardIDFromKey ''/sharding/shards/s1'' = Some ''s1''" by code_simp
qed (simp_all add: Unmarshal_malformed_sample)

section \<open>Keys and records\<close>

lemma Atoi_zeros: "all_digits s \<Longrightarrow> Atoi (replicate n CHR ''0'' @ s) = Atoi s"
proof (induction n)
  case (Suc n)
  have "all_digits (replicate n CHR ''0'' @ s)"
    using Suc.prems by (auto simp: all_digits_def list_all_iff is_digit_def)
  with Suc show ?case by (simp add: Atoi_leading_zero)
qed simp

lemma fmt_int_of_nat: "fmt_int (int n) = fmt_nat n"
  by (simp add: fmt_int_def)

text \<open>
  the key of bucket \<open>n\<close> is read back as \<open>n\<close>, with any number of leading zeros, and is never
  taken for a shard key; the key of shard \<open>sid\<close> is read back as \<open>sid\<close>, whatever bytes it has,
  and is never taken for a bucket key. So no two kinds of record can overwrite each other.
\<close>

theorem key_roundtrip:
  assumes "n < 2 ^ 63"
  shows "bucketIDFromKey (bucketsPrefix @ replicate z CHR ''0'' @ fmt_nat n) = Some (int n) \<and>
    shardIDFromKey (bucketsPrefix @ replicate z CHR ''0'' @ fmt_nat n) = None \<and>
    shardIDFromKey (shardsPrefix @ sid) = Some sid \<and> bucketIDFromKey (shardsPrefix @ sid) = None"
proof -
  have "int n < 2 ^ 63" using assms by (metis of_nat_less_numeral_power_cancel_iff)
  then have "in_int64 (int n)" by (simp add: in_range_def)
  then have "Atoi (replicate z CHR ''0'' @ fmt_nat n) = Inr (int n)"
    using Atoi_zeros [of "fmt_nat n" z] Atoi_fmt_int [of "int n"] by (simp add: fmt_int_of_nat)
  moreover from this have "bucketIDFromKey (bucketsPrefix @ replicate z CHR ''0'' @ fmt_nat n) = Some (int n)"
    by (auto simp: bucketIDFromKey_iff)
  moreover from this have "shardIDFromKey (bucketsPrefix @ replicate z CHR ''0'' @ fmt_nat n) = None"
    by (metis option.exhaust option.discI shard_key_no_bucket)
  ultimately show ?thesis
    using shard_key_no_bucket [of "shardsPrefix @ sid"] by (simp add: shardIDFromKey_iff)
qed

theorem key_roundtrip_witness:
  "bucketIDFromKey (bucketsPrefix @ replicate 1 CHR ''0'' @ fmt_nat 527) = Some (int 527) \<and>
   shardIDFromKey (bucketsPrefix @ replicate 1 CHR ''0'' @ fmt_nat 527) = None \<and>
   shardIDFromKey (shardsPrefix @ ''shard-01'') = Some ''shard-01'' \<and>
   bucketIDFromKey (shardsPrefix @ ''shard-01'') = None"
  by (rule key_roundtrip) simp

text \<open>Every shard record has a name: its own, or that of the key it is filed under.\<close>

definition named_shards :: "Mapping \<Rightarrow> bool" where
  "named_shards m \<longleftrightarrow> (\<forall>sid d. Shards m sid = Some d \<longrightarrow> ShardID d = [] \<longrightarrow> sid = [])"

lemma applyKV_named: "named_shards m \<Longrightarrow> named_shards (fst (applyKV m k v d))"
  by (auto simp: applyKV_def named_shards_def fill_ShardID_def split: option.splits sum.splits if_splits)

text \<open>
  every snapshot a registry following etcd can hold is well formed. Whatever keys and values
  the load lists and the batches carry, each bucket record has the number of its key, whatever
  \<open>bucket_id\<close> its value claims, each shard record has a name, and both maps are finite.
\<close>

theorem followed_snapshots_well_formed:
  "wf_mapping (fold apply_batch bs (build_mapping kvs rv)) \<and>
   named_shards (fold apply_batch bs (build_mapping kvs rv))"
proof -
  have kv: "named_shards m \<Longrightarrow> named_shards (fold (\<lambda>(k, v) m. fst (applyKV m k v False)) kvs m)" for m
    by (induction kvs arbitrary: m) (auto simp: applyKV_named)
  have "named_shards (build_mapping kvs rv)"
    unfolding build_mapping_def by (rule kv) (simp add: named_shards_def empty_mapping_def)
  moreover have event: "named_shards m \<Longrightarrow> named_shards (fold apply_event evs m)" for evs m
    by (induction evs arbitrary: m) (simp_all add: apply_event_def applyKV_named)
  moreover have "named_shards m \<Longrightarrow> named_shards (apply_batch b m)" for b m
    using event [of m "Events b"] by (simp add: apply_batch_def named_shards_def Let_def)
  then have "named_shards m \<Longrightarrow> named_shards (fold apply_batch bs m)" for m
    by (induction bs arbitrary: m) simp_all
  moreover have "wf_mapping m \<Longrightarrow> wf_mapping (fold apply_batch bs m)" for m
    by (induction bs arbitrary: m) (simp_all add: apply_batch_wf)
  ultimately show ?thesis using build_mapping_wf by blast
qed

end
