(* ===== verification/Base64.thy ===== *)
theory Base64
  imports Go_Prelude
begin

text \<open>
  \<open>base64.StdEncoding\<close> as the etcd client uses it. The decoder is the one of Go, not of the RFC:
  it skips line ends, does not look at the unused bits of a padded group, and on an error
  returns the bytes of the groups before it together with the error.
\<close>

section \<open>The alphabet\<close>

definition b64_alphabet :: bytes where
  "b64_alphabet = ''ABCDEFGHIJKLMNOPQRSTUVWXYZabcdefghijklmnopqrstuvwxyz0123456789+/''"

definition b64_char :: "nat \<Rightarrow> char" where
  "b64_char v = b64_alphabet ! v"

text \<open>The value of a character of the alphabet.\<close>

definition sextet :: "char \<Rightarrow> nat option" where
  "sextet c = (let n = (of_char c :: nat) in
     if 65 \<le> n \<and> n \<le> 90 then Some (n - 65)
     else if 97 \<le> n \<and> n \<le> 122 then Some (n - 71)
     else if 48 \<le> n \<and> n \<le> 57 then Some (n + 4)
     else if c = CHR ''+'' then Some 62
     else if c = CHR ''/'' then Some 63
     else None)"

lemma sextet_b64_char: "v < 64 \<Longrightarrow> sextet (b64_char v) = Some v"
proof -
  have "list_all (\<lambda>v. sextet (b64_char v) = Some v) [0..<64]"
    by code_simp
  then show "v < 64 \<Longrightarrow> sextet (b64_char v) = Some v"
    by (simp add: list_all_iff)
qed

section \<open>Encoding\<close>

definition byte :: "nat \<Rightarrow> char" where
  "byte n = char_of (n mod 256)"

fun EncodeToString :: "bytes \<Rightarrow> bytes" where
  "EncodeToString (a # b # c # s) =
     (let v = of_char a * 65536 + of_char b * 256 + of_char c :: nat in
      b64_char (v div 262144) # b64_char (v div 4096 mod 64) # b64_char (v div 64 mod 64) # b64_char (v mod 64)
        # EncodeToString s)"
| "EncodeToString [a, b] =
     (let v = of_char a * 65536 + of_char b * 256 :: nat in
      [b64_char (v div 262144), b64_char (v div 4096 mod 64), b64_char (v div 64 mod 64), CHR ''=''])"
| "EncodeToString [a] =
     (let v = of_char a * 65536 :: nat in
      [b64_char (v div 262144), b64_char (v div 4096 mod 64), CHR ''='', CHR ''=''])"
| "EncodeToString [] = []"

section \<open>Decoding\<close>

definition is_newline :: "char \<Rightarrow> bool" where
  "is_newline c \<longleftrightarrow> c = CHR 0x0A \<or> c = CHR 0x0D"

text \<open>One group: the end of the input, a corrupt group, four sextets and the rest, or a padded
  group with whether nothing follows it.\<close>

datatype quantum = QEnd | QCorrupt | QFull "nat list" bytes | QPadded "nat list" bool

fun decodeQuantum :: "nat list \<Rightarrow> bytes \<Rightarrow> quantum" where
  "decodeQuantum acc [] = (if acc = [] then QEnd else QCorrupt)"
| "decodeQuantum acc (c # s) =
     (case sextet c of
        Some v \<Rightarrow> if length acc = 3 then QFull (acc @ [v]) s else decodeQuantum (acc @ [v]) s
      | None \<Rightarrow>
          if is_newline c then decodeQuantum acc s
          else if c \<noteq> CHR ''='' \<or> length acc < 2 then QCorrupt
          else if length acc = 2 then
            (case dropWhile is_newline s of
               [] \<Rightarrow> QCorrupt
             | d # t \<Rightarrow> if d \<noteq> CHR ''='' then QCorrupt else QPadded acc (dropWhile is_newline t = []))
          else QPadded acc (dropWhile is_newline s = []))"

fun sextets_bytes :: "nat list \<Rightarrow> bytes" where
  "sextets_bytes [p, q, r, t] =
     (let v = p * 262144 + q * 4096 + r * 64 + t in [byte (v div 65536), byte (v div 256), byte v])"
| "sextets_bytes [p, q, r] =
     (let v = p * 262144 + q * 4096 + r * 64 in [byte (v div 65536), byte (v div 256)])"
| "sextets_bytes [p, q] = (let v = p * 262144 + q * 4096 in [byte (v div 65536)])"
| "sextets_bytes _ = []"

lemma decodeQuantum_rest: "decodeQuantum acc s = QFull vs r \<Longrightarrow> length r < length s"
  by (induction acc s rule: decodeQuantum.induct)
    (auto split: option.splits if_splits list.splits)

text \<open>The bytes decoded, and whether there was no error.\<close>

function DecodeString :: "bytes \<Rightarrow> bytes \<times> bool" where
  "DecodeString s =
     (case decodeQuantum [] s of
        QEnd \<Rightarrow> ([], True)
      | QCorrupt \<Rightarrow> ([], False)
      | QPadded vs complete \<Rightarrow> (sextets_bytes vs, complete)
      | QFull vs r \<Rightarrow> (case DecodeString r of (out, noerr) \<Rightarrow> (sextets_bytes vs @ out, noerr)))"
  by pat_completeness auto
termination by (relation "measure length") (auto dest: decodeQuantum_rest)

declare DecodeString.simps [simp del]

section \<open>Round trip\<close>

lemma decode_full:
  assumes "v1 < 64" and "v2 < 64" and "v3 < 64" and "v4 < 64"
  shows "DecodeString (b64_char v1 # b64_char v2 # b64_char v3 # b64_char v4 # s) =
    (case DecodeString s of (out, noerr) \<Rightarrow> (sextets_bytes [v1, v2, v3, v4] @ out, noerr))"
  using assms by (subst DecodeString.simps) (simp add: sextet_b64_char)

lemma sextet_pad: "sextet CHR ''='' = None"
  by code_simp

lemma decode_pad:
  assumes "v1 < 64" and "v2 < 64"
  shows "DecodeString [b64_char v1, b64_char v2, CHR ''='', CHR ''=''] = (sextets_bytes [v1, v2], True)"
    and "v3 < 64 \<Longrightarrow> DecodeString [b64_char v1, b64_char v2, b64_char v3, CHR ''=''] = (sextets_bytes [v1, v2, v3], True)"
  using assms by (subst DecodeString.simps; simp add: sextet_b64_char sextet_pad is_newline_def)+

lemma byte_of_char [simp]: "byte (of_char c) = c"
  by (simp add: byte_def)

lemma split_bytes:
  fixes a b c :: nat
  assumes "b < 256" and "c < 256"
  shows "(a * 65536 + b * 256 + c) div 65536 = a"
    and "(a * 65536 + b * 256 + c) div 256 mod 256 = b"
    and "(a * 65536 + b * 256 + c) mod 256 = c"
proof -
  have v: "a * 65536 + b * 256 + c = (a * 256 + b) * 256 + c" by simp
  have low: "((a * 256 + b) * 256 + c) div 256 = a * 256 + b"
    using assms by (subst div_mult_self3) simp_all
  have "(a * 65536 + b * 256 + c) div 65536 = ((a * 256 + b) * 256 + c) div 256 div 256"
    unfolding v by (simp add: div_mult2_eq [symmetric])
  also have "\<dots> = a"
    unfolding low using assms by (subst div_mult_self3) simp_all
  finally show "(a * 65536 + b * 256 + c) div 65536 = a" .
  show "(a * 65536 + b * 256 + c) div 256 mod 256 = b"
    unfolding v low using assms by simp
  show "(a * 65536 + b * 256 + c) mod 256 = c"
    unfolding v using assms by (simp only: mod_mult_self3 mod_less)
qed

lemma byte_split:
  defines "v a b c \<equiv> (of_char a * 65536 + of_char b * 256 + of_char c :: nat)"
  shows "byte (v a b c div 65536) = a" "byte (v a b c div 256) = b" "byte (v a b c) = c"
  unfolding v_def byte_def by (simp_all add: split_bytes del: add_mult_distrib)

text \<open>A 24-bit group is the number of its four sextets.\<close>

lemma regroup:
  fixes v :: nat
  shows "v div 262144 * 262144 + v div 4096 mod 64 * 4096 + v div 64 mod 64 * 64 + v mod 64 = v"
proof -
  have "v div 4096 = v div 64 div 64" and "v div 262144 = v div 4096 div 64"
    by (simp_all add: div_mult2_eq [symmetric])
  moreover have "v = v div 64 * 64 + v mod 64" "v div 64 = v div 64 div 64 * 64 + v div 64 mod 64"
    "v div 4096 = v div 4096 div 64 * 64 + v div 4096 mod 64"
    by (simp_all only: div_mult_mod_eq)
  ultimately show ?thesis by linarith
qed

lemma group_lt: "(of_char a * 65536 + of_char b * 256 + of_char c :: nat) div 262144 < 64"
proof -
  have "(of_char a :: nat) < 256" "(of_char b :: nat) < 256" "(of_char c :: nat) < 256" by simp_all
  then have "(of_char a * 65536 + of_char b * 256 + of_char c :: nat) < 64 * 262144" by linarith
  then show ?thesis by (simp only: less_mult_imp_div_less)
qed

text \<open>What the client encodes, the client decodes: \<open>DecodeString\<close> inverts \<open>EncodeToString\<close>.\<close>

lemma DecodeString_EncodeToString: "DecodeString (EncodeToString bs) = (bs, True)"
proof (induction bs rule: EncodeToString.induct)
  case (1 a b c s)
  define v where "v = (of_char a * 65536 + of_char b * 256 + of_char c :: nat)"
  have "sextets_bytes [v div 262144, v div 4096 mod 64, v div 64 mod 64, v mod 64] = [a, b, c]"
    using byte_split [of a b c] by (simp add: regroup Let_def v_def)
  moreover have "v div 262144 < 64" unfolding v_def by (rule group_lt)
  ultimately show ?case
    using 1 by (simp add: Let_def v_def [symmetric] decode_full del: sextets_bytes.simps)
next
  case (2 a b)
  define v where "v = (of_char a * 65536 + of_char b * 256 :: nat)"
  have "v = (of_char a * 1024 + of_char b * 4) * 64" by (simp add: v_def)
  then have "v mod 64 = 0" by (metis mod_mult_self2_is_0)
  then have "sextets_bytes [v div 262144, v div 4096 mod 64, v div 64 mod 64] = [a, b]"
    using byte_split [of a b "CHR 0x00"] regroup [of v] by (simp add: Let_def v_def)
  moreover have "v div 262144 < 64" unfolding v_def using group_lt [of a b "CHR 0x00"] by simp
  ultimately show ?case
    by (simp add: Let_def v_def [symmetric] decode_pad del: sextets_bytes.simps)
next
  case (3 a)
  define v where "v = (of_char a * 65536 :: nat)"
  have "v = of_char a * 1024 * 64" and "v div 64 = of_char a * 16 * 64" by (simp_all add: v_def)
  then have "v mod 64 = 0" and "v div 64 mod 64 = 0" by (metis mod_mult_self2_is_0)+
  then have "sextets_bytes [v div 262144, v div 4096 mod 64] = [a]"
    using byte_split [of a "CHR 0x00" "CHR 0x00"] regroup [of v] by (simp add: Let_def v_def)
  moreover have "v div 262144 < 64" unfolding v_def using group_lt [of a "CHR 0x00" "CHR 0x00"] by simp
  ultimately show ?case
    by (simp add: Let_def v_def [symmetric] decode_pad del: sextets_bytes.simps)
next
  case 4
  show ?case by (simp add: DecodeString.simps)
qed

text \<open>A corrupt text keeps the bytes of the groups before the corruption.\<close>

lemma DecodeString_partial: "DecodeString ''YWJjZ!=='' = (''abc'', False)"
  by code_simp

end
