(* ===== verification/Etcd_Http.thy ===== *)
theory Etcd_Http
  imports Registry Base64 Go_Encode
begin

text \<open>
  \<open>internal/registry/etcdhttp.go\<close>: the etcd client over the gateway's HTTP/JSON API. The HTTP
  transport is an argument: it takes a request and the state of the network and answers with
  an error or a status and a body; the body of a watch is all that the stream delivers before
  it ends. Everything the client does with requests and answers is defined here.
\<close>

section \<open>Requests and replies\<close>

record httpRequest =
  reqURL :: bytes
  reqBody :: bytes
  reqToken :: "bytes option"

datatype httpReply = BadRequest bytes | NoReply bytes | BadBody bytes | Reply int bytes

type_synonym 'n transport = "httpRequest \<Rightarrow> 'n \<Rightarrow> httpReply \<times> 'n"

record etcdClient =
  endpoints :: "bytes list"
  username :: bytes
  password :: bytes
  token :: bytes

definition newEtcdClient :: "bytes list \<Rightarrow> bytes \<Rightarrow> bytes \<Rightarrow> etcdClient" where
  "newEtcdClient eps user pass = \<lparr>endpoints = eps, username = user, password = pass, token = []\<rparr>"

datatype etcd_error =
    NoEndpoints bytes
  | Transport bytes
  | UnexpectedStatus bytes int bytes
  | AuthFailed etcd_error
  | AuthDecode json_error
  | RangeDecode json_error
  | RangeKey bytes
  | RangeValue bytes

definition auth_path :: bytes where "auth_path = ''/v3/auth/authenticate''"
definition range_path :: bytes where "range_path = ''/v3/kv/range''"
definition watch_path :: bytes where "watch_path = ''/v3/watch''"

definition request :: "bytes \<Rightarrow> bytes \<Rightarrow> bytes \<Rightarrow> etcdClient \<Rightarrow> httpRequest" where
  "request ep path body c = \<lparr>reqURL = ep @ path, reqBody = body,
     reqToken = (if token c \<noteq> [] then Some (token c) else None)\<rparr>"

section \<open>postAny and authenticate\<close>

text \<open>
  The loop of \<open>postAny\<close> over the endpoints. \<open>postAny\<close> and \<open>authenticate\<close> call each other, but the
  call from \<open>authenticate\<close> is for its own path, for which \<open>postAny\<close> does not authenticate;
  so the loop takes the authentication as an argument.
\<close>

fun post_loop :: "'n transport \<Rightarrow> (etcdClient \<Rightarrow> 'n \<Rightarrow> etcd_error option \<times> etcdClient \<times> 'n)
    \<Rightarrow> bytes \<Rightarrow> bytes \<Rightarrow> bytes list \<Rightarrow> etcd_error option \<Rightarrow> etcdClient \<Rightarrow> 'n
    \<Rightarrow> (etcd_error, bytes) result \<times> etcdClient \<times> 'n" where
  "post_loop http auth path body [] lastErr c net =
     (Inl (case lastErr of None \<Rightarrow> NoEndpoints path | Some e \<Rightarrow> e), c, net)"
| "post_loop http auth path body (ep # eps) lastErr c net =
     (case http (request ep path body c) net of
        (BadRequest e, net) \<Rightarrow> post_loop http auth path body eps (Some (Transport e)) c net
      | (NoReply e, net) \<Rightarrow> post_loop http auth path body eps (Some (Transport e)) c net
      | (BadBody e, net) \<Rightarrow> post_loop http auth path body eps (Some (Transport e)) c net
      | (Reply status resp, net) \<Rightarrow>
          (let (fresh, c, net) =
             (if status = 401 \<and> username c \<noteq> [] \<and> path \<noteq> auth_path
              then (case auth c net of (authErr, c, net) \<Rightarrow> (authErr = None, c, net))
              else (False, c, net)) in
           if fresh then post_loop http auth path body eps lastErr c net
           else if status \<noteq> 200 then post_loop http auth path body eps (Some (UnexpectedStatus path status resp)) c net
           else (Inr resp, c, net)))"

definition token_fields :: "bytes field list" where
  "token_fields = [(''token'', str_field (\<lambda>x _. x))]"

definition no_auth :: "etcdClient \<Rightarrow> 'n \<Rightarrow> etcd_error option \<times> etcdClient \<times> 'n" where
  "no_auth c net = (None, c, net)"

definition authenticate :: "'n transport \<Rightarrow> etcdClient \<Rightarrow> 'n \<Rightarrow> etcd_error option \<times> etcdClient \<times> 'n" where
  "authenticate http c net =
     (if username c = [] then (None, c, net)
      else let body = marshal (JObj [(''name'', JStr (username c)), (''password'', JStr (password c))]) in
        (case post_loop http no_auth auth_path body (endpoints c) None c net of
           (Inl e, c, net) \<Rightarrow> (Some (AuthFailed e), c, net)
         | (Inr resp, c, net) \<Rightarrow>
             (case Unmarshal (dec_struct token_fields) [] resp of
                Inl e \<Rightarrow> (Some (AuthDecode e), c, net)
              | Inr tok \<Rightarrow> (None, c\<lparr>token := tok\<rparr>, net))))"

definition postAny :: "'n transport \<Rightarrow> bytes \<Rightarrow> bytes \<Rightarrow> etcdClient \<Rightarrow> 'n
    \<Rightarrow> (etcd_error, bytes) result \<times> etcdClient \<times> 'n" where
  "postAny http path body c net = post_loop http (authenticate http) path body (endpoints c) None c net"

definition pickEndpoint :: "etcdClient \<Rightarrow> (etcd_error, bytes) result" where
  "pickEndpoint c = (case endpoints c of [] \<Rightarrow> Inl (NoEndpoints []) | ep # _ \<Rightarrow> Inr ep)"

section \<open>The end of a prefix range\<close>

text \<open>The loop looks at the bytes before position \<open>i\<close>, from the last one down.\<close>

fun range_end_loop :: "bytes \<Rightarrow> nat \<Rightarrow> bytes" where
  "range_end_loop end 0 = [CHR 0x00]"
| "range_end_loop end (Suc i) =
     (if (of_char (end ! i) :: nat) < 255 then take i end @ [char_of ((of_char (end ! i) :: nat) + 1)]
      else range_end_loop end i)"

definition getPrefixRangeEnd :: "bytes \<Rightarrow> bytes" where
  "getPrefixRangeEnd p = range_end_loop p (length p)"

section \<open>Range\<close>

record kv =
  KvKey :: bytes
  KvValue :: bytes

definition zero_kv :: kv where
  "zero_kv = \<lparr>KvKey = [], KvValue = []\<rparr>"

definition kv_fields :: "kv field list" where
  "kv_fields = [(''key'', str_field (\<lambda>x. KvKey_update (\<lambda>_. x))), (''value'', str_field (\<lambda>x. KvValue_update (\<lambda>_. x)))]"

text \<open>The header is a structure with the one member \<open>revision\<close>.\<close>

definition header_fields :: "bytes field list" where
  "header_fields = [(''revision'', str_field (\<lambda>x _. x))]"

record rangeResponse =
  RangeRevision :: bytes
  Kvs :: "kv list"
  Count :: bytes

definition zero_rangeResponse :: rangeResponse where
  "zero_rangeResponse = \<lparr>RangeRevision = [], Kvs = [], Count = []\<rparr>"

definition range_fields :: "rangeResponse field list" where
  "range_fields =
     [(''header'', sub_field (dec_struct header_fields) RangeRevision (\<lambda>x. RangeRevision_update (\<lambda>_. x))),
      (''kvs'', sub_field (dec_slice (dec_struct kv_fields) zero_kv) Kvs (\<lambda>x. Kvs_update (\<lambda>_. x))),
      (''count'', str_field (\<lambda>x. Count_update (\<lambda>_. x)))]"

text \<open>\<open>fmt.Sscanf(s, "%d", &rv)\<close> with the error dropped leaves the variable at zero.\<close>

definition scan_revision :: "bytes \<Rightarrow> int" where
  "scan_revision s = (case Sscanf_d s of Inl _ \<Rightarrow> 0 | Inr i \<Rightarrow> i)"

fun decode_kvs :: "kv list \<Rightarrow> (etcd_error, (bytes \<times> bytes) list) result" where
  "decode_kvs [] = Inr []"
| "decode_kvs (e # es) =
     (case DecodeString (KvKey e) of (key, kok) \<Rightarrow>
        if \<not> kok then Inl (RangeKey (KvKey e))
        else (case DecodeString (KvValue e) of (val, vok) \<Rightarrow>
          if \<not> vok then Inl (RangeValue (KvValue e))
          else (case decode_kvs es of Inl err \<Rightarrow> Inl err | Inr out \<Rightarrow> Inr ((key, val) # out))))"

definition decode_range :: "bytes \<Rightarrow> (etcd_error, (bytes \<times> bytes) list \<times> int) result" where
  "decode_range raw =
     (case Unmarshal (dec_struct range_fields) zero_rangeResponse raw of
        Inl e \<Rightarrow> Inl (RangeDecode e)
      | Inr resp \<Rightarrow>
          (case decode_kvs (Kvs resp) of
             Inl e \<Rightarrow> Inl e
           | Inr out \<Rightarrow> Inr (out, scan_revision (RangeRevision resp))))"

definition range_body :: "bytes \<Rightarrow> bytes" where
  "range_body p = marshal (JObj
     [(''key'', JStr (EncodeToString p)), (''range_end'', JStr (EncodeToString (getPrefixRangeEnd p)))])"

definition rangePrefix :: "'n transport \<Rightarrow> bytes \<Rightarrow> etcdClient \<Rightarrow> 'n
    \<Rightarrow> (etcd_error, (bytes \<times> bytes) list \<times> int) result \<times> etcdClient \<times> 'n" where
  "rangePrefix http p c net =
     (case postAny http range_path (range_body p) c net of
        (Inl e, c, net) \<Rightarrow> (Inl e, c, net)
      | (Inr raw, c, net) \<Rightarrow> (decode_range raw, c, net))"

section \<open>Watch\<close>

record wireEvent =
  WireType :: bytes
  WireKv :: kv

record watchMsg =
  MsgRevision :: bytes
  MsgCreated :: bool
  MsgCanceled :: bool
  MsgCancelReason :: bytes
  MsgEvents :: "wireEvent list"

definition zero_wireEvent :: wireEvent where
  "zero_wireEvent = \<lparr>WireType = [], WireKv = zero_kv\<rparr>"

definition zero_watchMsg :: watchMsg where
  "zero_watchMsg = \<lparr>MsgRevision = [], MsgCreated = False, MsgCanceled = False, MsgCancelReason = [], MsgEvents = []\<rparr>"

definition event_fields :: "wireEvent field list" where
  "event_fields =
     [(''type'', str_field (\<lambda>x. WireType_update (\<lambda>_. x))),
      (''kv'', sub_field (dec_struct kv_fields) WireKv (\<lambda>x. WireKv_update (\<lambda>_. x)))]"

definition result_fields :: "watchMsg field list" where
  "result_fields =
     [(''header'', sub_field (dec_struct header_fields) MsgRevision (\<lambda>x. MsgRevision_update (\<lambda>_. x))),
      (''created'', bool_field (\<lambda>x. MsgCreated_update (\<lambda>_. x))),
      (''canceled'', bool_field (\<lambda>x. MsgCanceled_update (\<lambda>_. x))),
      (''cancel_reason'', str_field (\<lambda>x. MsgCancelReason_update (\<lambda>_. x))),
      (''events'', sub_field (dec_slice (dec_struct event_fields) zero_wireEvent) MsgEvents (\<lambda>x. MsgEvents_update (\<lambda>_. x)))]"

text \<open>A message is a structure with the one member \<open>result\<close>.\<close>

definition msg_fields :: "watchMsg field list" where
  "msg_fields = [(''result'', \<lambda>s j. dec_struct result_fields j s)]"


definition decode_event :: "int \<Rightarrow> wireEvent \<Rightarrow> watchEvent" where
  "decode_event rv ev =
     (let typ = WireType ev; typ = (if typ = [] then ''PUT'' else typ)
      in \<lparr>EvType = typ, EvKey = fst (DecodeString (KvKey (WireKv ev))),
          EvValue = fst (DecodeString (KvValue (WireKv ev))), EvRevision = rv\<rparr>)"

definition decode_batch :: "watchMsg \<Rightarrow> watchBatch" where
  "decode_batch msg =
     (let rv = scan_revision (MsgRevision msg)
      in \<lparr>BatchRevision = rv, Events = map (decode_event rv) (MsgEvents msg),
          Canceled = MsgCanceled msg, CancelReason = MsgCancelReason msg\<rparr>)"

text \<open>The batches the goroutine sends on the channel before it closes it.\<close>

function stream_batches :: "bytes \<Rightarrow> watchBatch list" where
  "stream_batches s =
     (case Decode (dec_struct msg_fields) zero_watchMsg s of
        Inl _ \<Rightarrow> []
      | Inr (msg, r) \<Rightarrow>
          if MsgCreated msg then stream_batches r
          else if MsgCanceled msg then [decode_batch msg]
          else decode_batch msg # stream_batches r)"
  by pat_completeness auto
termination by (relation "measure length") (auto dest: Decode_consumes)

declare stream_batches.simps [simp del]

definition watch_body :: "bytes \<Rightarrow> int \<Rightarrow> bytes" where
  "watch_body p startRevision = marshal (JObj [(''create_request'', JObj
     [(''key'', JStr (EncodeToString p)), (''range_end'', JStr (EncodeToString (getPrefixRangeEnd p))),
      (''start_revision'', JStr (fmt_int startRevision))])])"

definition watchPrefix :: "'n transport \<Rightarrow> bytes \<Rightarrow> int \<Rightarrow> etcdClient \<Rightarrow> 'n
    \<Rightarrow> (etcd_error, watchBatch list) result \<times> 'n" where
  "watchPrefix http p startRevision c net =
     (case pickEndpoint c of
        Inl e \<Rightarrow> (Inl e, net)
      | Inr url \<Rightarrow>
          (case http (request url watch_path (watch_body p startRevision) c) net of
             (Reply status body, net) \<Rightarrow>
               (if status \<noteq> 200 then Inl (UnexpectedStatus watch_path status body)
                else Inr (stream_batches body), net)
           | (BadRequest e, net) \<Rightarrow> (Inl (Transport e), net)
           | (NoReply e, net) \<Rightarrow> (Inl (Transport e), net)
           | (BadBody e, net) \<Rightarrow> (Inr [], net)))"

section \<open>The prefix range\<close>

lemma range_end_loop_prefix:
  "i \<le> length p \<Longrightarrow>
    (\<exists>q c. range_end_loop p i = q @ [char_of ((of_char c :: nat) + 1)] \<and> (of_char c :: nat) < 255 \<and>
       (\<exists>ffs. take i p = q @ c # ffs \<and> (\<forall>x\<in>set ffs. (of_char x :: nat) = 255))) \<or>
    (range_end_loop p i = [CHR 0x00] \<and> (\<forall>x\<in>set (take i p). (of_char x :: nat) = 255))"
proof (induction i)
  case (Suc i)
  then have i: "i < length p" by simp
  have last: "take (Suc i) p = take i p @ [p ! i]" using i by (simp add: take_Suc_conv_app_nth)
  show ?case
  proof (cases "(of_char (p ! i) :: nat) < 255")
    case True
    then show ?thesis unfolding last by (intro disjI1 exI [of _ "take i p"] exI [of _ "p ! i"]) simp
  next
    case False
    have "(of_char (p ! i) :: nat) < 256" by simp
    with False have ff: "(of_char (p ! i) :: nat) = 255" by linarith
    from Suc.IH i have "(\<exists>q c. range_end_loop p i = q @ [char_of ((of_char c :: nat) + 1)] \<and> (of_char c :: nat) < 255 \<and>
       (\<exists>ffs. take i p = q @ c # ffs \<and> (\<forall>x\<in>set ffs. (of_char x :: nat) = 255))) \<or>
      (range_end_loop p i = [CHR 0x00] \<and> (\<forall>x\<in>set (take i p). (of_char x :: nat) = 255))" by simp
    then show ?thesis
    proof (elim disjE exE conjE)
      fix q c ffs
      assume *: "range_end_loop p i = q @ [char_of ((of_char c :: nat) + 1)]" "(of_char c :: nat) < 255"
        "take i p = q @ c # ffs" "\<forall>x\<in>set ffs. (of_char x :: nat) = 255"
      have "take (Suc i) p = q @ c # (ffs @ [p ! i])" unfolding last * by simp
      moreover have "\<forall>x\<in>set (ffs @ [p ! i]). (of_char x :: nat) = 255" using * ff by auto
      ultimately show ?thesis using * False by (intro disjI1) auto
    qed (use False ff last in auto)
  qed
qed simp


text \<open>Keys are compared byte by byte.\<close>

lemma between_append:
  "q @ a \<le> k \<and> k < q @ b \<longleftrightarrow> (\<exists>k'. k = q @ k' \<and> a \<le> k' \<and> k' < (b :: bytes))"
proof (induction q arbitrary: k)
  case (Cons x q)
  show ?case
    by (cases k) (use Cons in auto)
qed simp

lemma all_ff_le: "\<forall>x\<in>set ffs. (of_char x :: nat) = 255 \<Longrightarrow> (ffs :: bytes) \<le> k \<longleftrightarrow> HasPrefix k ffs"
proof (induction ffs arbitrary: k)
  case (Cons x ffs)
  have top: "\<not> x < y" for y
  proof -
    have "(of_char y :: nat) < 256" by simp
    moreover from Cons.prems have "(of_char x :: nat) = 255" by simp
    ultimately have "\<not> (of_char x :: nat) < of_char y" by linarith
    then show ?thesis by (simp add: less_char_def)
  qed
  show ?case
    using Cons top by (cases k) (auto simp: HasPrefix_def)
qed (simp add: HasPrefix_def)

lemma less_succ_char:
  assumes "(of_char c :: nat) < 255"
  shows "y < char_of ((of_char c :: nat) + 1) \<longleftrightarrow> y \<le> c"
  using assms by (auto simp: less_char_def less_eq_char_def)

lemma range_of_prefix:
  assumes "(of_char c :: nat) < 255" and "\<forall>x\<in>set ffs. (of_char x :: nat) = 255"
  shows "q @ c # ffs \<le> k \<and> k < q @ [char_of ((of_char c :: nat) + 1)] \<longleftrightarrow> HasPrefix k (q @ c # ffs)"
proof -
  have one: "c # ffs \<le> k' \<and> k' < [char_of ((of_char c :: nat) + 1)] \<longleftrightarrow> HasPrefix k' (c # ffs)" for k'
    using less_succ_char [OF assms(1)] all_ff_le [OF assms(2)]
    by (cases k') (auto simp: HasPrefix_def)
  show ?thesis
    unfolding between_append one by (auto simp: HasPrefix_iff_prefix prefix_def)
qed

text \<open>
  C34: the range request asks for exactly the keys with the prefix. For the range of keys from
  \<open>key\<close> up to but not including \<open>range_end\<close>, in byte order, or without upper end if
  \<open>range_end\<close> is a zero byte, as etcd documents it, \<open>getPrefixRangeEnd\<close> gives for every
  prefix the end of the range of the keys that start with it, also when its last bytes or
  all its bytes are 0xff.
\<close>

theorem range_end_selects_prefix:
  assumes "\<And>key rangeEnd k. selects key rangeEnd k \<longleftrightarrow> key \<le> k \<and> (rangeEnd = [CHR 0x00] \<or> k < rangeEnd)"
  shows "selects p (getPrefixRangeEnd p) k \<longleftrightarrow> HasPrefix k p"
proof -
  have nz: "char_of ((of_char c :: nat) + 1) \<noteq> CHR 0x00" if "(of_char c :: nat) < 255" for c
  proof
    assume "char_of ((of_char c :: nat) + 1) = CHR 0x00"
    then have "(of_char (char_of ((of_char c :: nat) + 1)) :: nat) = of_char (CHR 0x00)" by (rule arg_cong)
    with that show False by simp
  qed
  from range_end_loop_prefix [OF order.refl, of p] show ?thesis
  proof (elim disjE exE conjE)
    fix q c ffs
    assume *: "range_end_loop p (length p) = q @ [char_of ((of_char c :: nat) + 1)]" "(of_char c :: nat) < 255"
      "take (length p) p = q @ c # ffs" "\<forall>x\<in>set ffs. (of_char x :: nat) = 255"
    then have e: "getPrefixRangeEnd p = q @ [char_of ((of_char c :: nat) + 1)]" and p: "q @ c # ffs = p"
      by (simp_all add: getPrefixRangeEnd_def)
    have "q @ [char_of ((of_char c :: nat) + 1)] \<noteq> [CHR 0x00]" using nz [OF *(2)] by (cases q) simp_all
    then show ?thesis
      unfolding assms e using range_of_prefix [OF *(2,4), of q k] unfolding p by blast
  next
    assume "range_end_loop p (length p) = [CHR 0x00]" "\<forall>x\<in>set (take (length p) p). (of_char x :: nat) = 255"
    then show ?thesis using all_ff_le [of p k] by (simp add: assms getPrefixRangeEnd_def)
  qed
qed

theorem range_end_selects_prefix_witness:
  "(\<lambda>key rangeEnd k. key \<le> k \<and> (rangeEnd = [CHR 0x00] \<or> k < rangeEnd)) ''/sharding/'' (getPrefixRangeEnd ''/sharding/'') ''/sharding/version''
     \<longleftrightarrow> HasPrefix ''/sharding/version'' ''/sharding/''"
  by (rule range_end_selects_prefix) simp

lemma range_end_tests:
  "getPrefixRangeEnd ''/sharding/'' = ''/sharding0''" "getPrefixRangeEnd ''a'' = ''b''"
  "getPrefixRangeEnd [] = [CHR 0x00]" "getPrefixRangeEnd [CHR 0xFF, CHR 0xFF] = [CHR 0x00]"
  by code_simp+

section \<open>Posting to the first endpoint that answers\<close>

lemma post_loop_ok:
  "fst (post_loop http auth path body eps lastErr c net) = Inr resp \<Longrightarrow>
    \<exists>ep\<in>set eps. \<exists>c' net' net''. http (request ep path body c') net' = (Reply 200 resp, net'')"
proof (induction eps arbitrary: lastErr c net)
  case (Cons ep eps)
  obtain reply net1 where r: "http (request ep path body c) net = (reply, net1)"
    by (cases "http (request ep path body c) net")
  show ?case
  proof (cases reply)
    case (Reply status body')
    then show ?thesis
      using Cons.prems r Cons.IH
      by (auto simp: Let_def split: prod.splits if_splits)
  qed (use Cons r in auto)
qed simp

lemma post_loop_error:
  "fst (post_loop http auth path body eps lastErr c net) = Inl e \<Longrightarrow> e = NoEndpoints path \<Longrightarrow>
    lastErr \<noteq> None \<longrightarrow> lastErr = Some (NoEndpoints path)"
proof (induction eps arbitrary: lastErr c net)
  case (Cons ep eps)
  obtain reply net1 where r: "http (request ep path body c) net = (reply, net1)"
    by (cases "http (request ep path body c) net")
  show ?case
  proof (cases reply)
    case (Reply status body')
    then show ?thesis
      using Cons.prems r Cons.IH
      by (auto simp: Let_def split: prod.splits if_splits)
  qed (use Cons r in auto)
qed (auto split: option.splits)

text \<open>The authentication argument does not matter for the path of the authentication.\<close>

lemma post_loop_auth_path:
  "post_loop http auth auth_path body eps lastErr c net = post_loop http auth' auth_path body eps lastErr c net"
  by (induction eps arbitrary: lastErr c net) (simp_all split: httpReply.split prod.split)

text \<open>Without a user the loop passes over every endpoint that does not answer with status 200.\<close>

lemma post_loop_skip:
  assumes "username c = []" and "\<nexists>resp. answer (request ep path body c) = Reply 200 resp"
  shows "\<exists>err. post_loop (\<lambda>rq n. (answer rq, n)) auth path body (ep # eps) lastErr c n =
    post_loop (\<lambda>rq n. (answer rq, n)) auth path body eps (Some err) c n"
  using assms by (cases "answer (request ep path body c)") auto

lemma post_loop_hit:
  assumes "username c = []" and "answer (request ep path body c) = Reply 200 resp"
  shows "post_loop (\<lambda>rq n. (answer rq, n)) auth path body (ep # eps) lastErr c n = (Inr resp, c, n)"
  using assms by simp

lemma post_loop_first:
  assumes user: "username c = []"
  shows "case find (\<lambda>ep. \<exists>resp. answer (request ep path body c) = Reply 200 resp) eps of
      Some ep \<Rightarrow> \<exists>resp. answer (request ep path body c) = Reply 200 resp \<and>
        post_loop (\<lambda>rq n. (answer rq, n)) auth path body eps lastErr c n = (Inr resp, c, n)
    | None \<Rightarrow> \<exists>e. post_loop (\<lambda>rq n. (answer rq, n)) auth path body eps lastErr c n = (Inl e, c, n)"
proof (induction eps arbitrary: lastErr)
  case Nil
  then show ?case by simp
next
  case (Cons ep eps)
  show ?case
  proof (cases "\<exists>resp. answer (request ep path body c) = Reply 200 resp")
    case True
    then obtain resp where "answer (request ep path body c) = Reply 200 resp" ..
    with post_loop_hit [where answer = answer, OF user this] show ?thesis by simp
  next
    case False
    then obtain err where err: "post_loop (\<lambda>rq n. (answer rq, n)) auth path body (ep # eps) lastErr c n =
        post_loop (\<lambda>rq n. (answer rq, n)) auth path body eps (Some err) c n"
      using post_loop_skip [where answer = answer and auth = auth and eps = eps and lastErr = lastErr and n = n, OF user False] by (elim exE) simp
    have "find (\<lambda>ep. \<exists>resp. answer (request ep path body c) = Reply 200 resp) (ep # eps) =
        find (\<lambda>ep. \<exists>resp. answer (request ep path body c) = Reply 200 resp) eps"
      using False by simp
    then show ?thesis unfolding err using Cons [of "Some err"] by presburger
  qed
qed

text \<open>
  a request is answered by the first endpoint that works. Without a configured user, \<open>postAny\<close>
  returns the body of the first endpoint in the list that answers with status 200, whatever
  errors and statuses the endpoints before it gave, and fails only if no endpoint does.
\<close>

theorem post_uses_first_working_endpoint:
  assumes "username c = []"
  shows "case find (\<lambda>ep. \<exists>resp. answer (request ep path body c) = Reply 200 resp) (endpoints c) of
      Some ep \<Rightarrow> \<exists>resp. answer (request ep path body c) = Reply 200 resp \<and>
        postAny (\<lambda>rq n. (answer rq, n)) path body c n = (Inr resp, c, n)
    | None \<Rightarrow> \<exists>e. postAny (\<lambda>rq n. (answer rq, n)) path body c n = (Inl e, c, n)"
  unfolding postAny_def by (rule post_loop_first [OF assms])

definition test_answer :: "httpRequest \<Rightarrow> httpReply" where
  "test_answer rq = (if reqURL rq = ''http://a/v3/kv/range'' then NoReply ''refused''
     else if reqURL rq = ''http://b/v3/kv/range'' then Reply 503 ''busy'' else Reply 200 (reqURL rq))"

theorem post_uses_first_working_endpoint_witness:
  "fst (postAny (\<lambda>rq n. (test_answer rq, n)) range_path [] (newEtcdClient [''http://a'', ''http://b'', ''http://c''] [] []) ()) =
     Inr ''http://c/v3/kv/range''"
  using post_uses_first_working_endpoint [of "newEtcdClient [''http://a'', ''http://b'', ''http://c''] [] []" test_answer range_path "[]" "()"]
  by (simp add: newEtcdClient_def test_answer_def request_def range_path_def)

text \<open>
  an expired token costs the endpoint that reports it. When an endpoint answers 401 and the
  client authenticates anew, the request is not repeated there but goes on to the next
  endpoint; with a single endpoint it fails with "no endpoints configured" although the new
  token has been obtained.
\<close>

theorem unauthorized_skips_endpoint:
  assumes "endpoints c = [ep]" and "username c \<noteq> []" and "path \<noteq> auth_path"
    and "http (request ep path body c) net = (Reply 401 resp, net1)"
    and "authenticate http c net1 = (None, c1, net2)"
  shows "postAny http path body c net = (Inl (NoEndpoints path), c1, net2)"
  using assms by (simp add: postAny_def)

definition expired_transport :: "unit transport" where
  "expired_transport rq n =
     (if reqURL rq = ''http://a/v3/auth/authenticate'' then (Reply 200 (quoted ''{`token`:`t2`}''), n)
      else if reqToken rq = Some ''t2'' then (Reply 200 ''{}'', n) else (Reply 401 [], n))"

theorem unauthorized_skips_endpoint_witness:
  "postAny expired_transport range_path [] (newEtcdClient [''http://a''] ''root'' ''pw'') () =
     (Inl (NoEndpoints range_path), (newEtcdClient [''http://a''] ''root'' ''pw'')\<lparr>token := ''t2''\<rparr>, ())"
proof (rule unauthorized_skips_endpoint)
  have "Unmarshal (dec_struct token_fields) [] (quoted ''{`token`:`t2`}'') = Inr ''t2''" by code_simp
  then show "authenticate expired_transport (newEtcdClient [''http://a''] ''root'' ''pw'') () =
      (None, (newEtcdClient [''http://a''] ''root'' ''pw'')\<lparr>token := ''t2''\<rparr>, ())"
    by (simp add: authenticate_def newEtcdClient_def expired_transport_def request_def auth_path_def)
qed (simp_all add: newEtcdClient_def expired_transport_def request_def range_path_def auth_path_def)

end
