(* ===== verification/Etcd_Wire.thy ===== *)
theory Etcd_Wire
  imports Etcd_Http
begin

text \<open>
  The client of \<open>Etcd_Http\<close> against the documents the etcd gateway sends: a range response and a
  watch stream, written as etcd documents them, are decoded to exactly the keys, values,
  revisions and events they were written from.
\<close>

section \<open>What the gateway sends\<close>

text \<open>
  The documents of the gateway as etcd documents them: revisions and counts as decimal strings,
  keys and values in base64, the type of a put and the value of a deletion left out.
\<close>

definition gateway_kv :: "bytes \<times> bytes \<Rightarrow> json" where
  "gateway_kv kv = JObj [(''key'', JStr (EncodeToString (fst kv))), (''value'', JStr (EncodeToString (snd kv)))]"

definition gateway_header :: "int \<Rightarrow> bytes \<times> json" where
  "gateway_header rv = (''header'', JObj [(''cluster_id'', JStr ''14841639068965178418''), (''revision'', JStr (fmt_int rv))])"

definition gateway_range :: "(bytes \<times> bytes) list \<Rightarrow> int \<Rightarrow> bytes" where
  "gateway_range kvs rv = marshal (JObj
     [gateway_header rv, (''kvs'', JArr (map gateway_kv kvs)), (''count'', JStr (fmt_nat (length kvs)))])"

definition gateway_event :: "watchEvent \<Rightarrow> json" where
  "gateway_event ev =
     (if EvType ev = ''DELETE''
      then JObj [(''type'', JStr ''DELETE''), (''kv'', JObj [(''key'', JStr (EncodeToString (EvKey ev)))])]
      else JObj [(''kv'', gateway_kv (EvKey ev, EvValue ev))])"

definition gateway_message :: "watchBatch \<Rightarrow> bytes" where
  "gateway_message b = marshal (JObj [(''result'', JObj
     [gateway_header (BatchRevision b), (''events'', JArr (map gateway_event (Events b)))])]) @ [CHR 0x0A]"

definition gateway_created :: "int \<Rightarrow> bytes" where
  "gateway_created rv = marshal (JObj [(''result'', JObj [gateway_header rv, (''created'', JBool True)])]) @ [CHR 0x0A]"

text \<open>A batch etcd sends: a revision, events at that revision, no cancellation.\<close>

definition sent_event :: "int \<Rightarrow> watchEvent \<Rightarrow> bool" where
  "sent_event rv ev \<longleftrightarrow> EvRevision ev = rv \<and>
     (EvType ev = ''PUT'' \<or> (EvType ev = ''DELETE'' \<and> EvValue ev = []))"

definition sent_batch :: "watchBatch \<Rightarrow> bool" where
  "sent_batch b \<longleftrightarrow> in_int64 (BatchRevision b) \<and> \<not> Canceled b \<and> CancelReason b = [] \<and>
     list_all (sent_event (BatchRevision b)) (Events b)"

section \<open>The documents are plain JSON\<close>

declare ascii_Cons [simp]

lemma b64_char_ascii [simp]: "v < 64 \<Longrightarrow> (of_char (b64_char v) :: nat) < 128"
proof -
  have "list_all (\<lambda>v. (of_char (b64_char v) :: nat) < 128) [0..<64]" by code_simp
  then show "v < 64 \<Longrightarrow> (of_char (b64_char v) :: nat) < 128" by (simp add: list_all_iff)
qed

lemma ascii_base64 [simp]: "ascii_bytes (EncodeToString bs)"
proof (induction bs rule: EncodeToString.induct)
  case (1 a b c s)
  then show ?case using group_lt [of a b c] by (simp add: Let_def)
next
  case (2 a b)
  show ?case using group_lt [of a b "CHR 0x00"] by (simp add: Let_def)
next
  case (3 a)
  show ?case using group_lt [of a "CHR 0x00" "CHR 0x00"] by (simp add: Let_def)
qed simp

lemma ascii_fmt [simp]: "ascii_bytes (fmt_nat n)" "ascii_bytes (fmt_int i)"
proof -
  show "ascii_bytes (fmt_nat n)" for n
    using fmt_nat_digits [of _ n] digit_ascii by (auto simp: ascii_bytes_def list_all_iff)
  then show "ascii_bytes (fmt_int i)" by (simp add: fmt_int_def)
qed

lemma plain_gateway [simp]:
  "plain_json (gateway_kv kv)" "plain_json (gateway_event ev)" "json_depth (gateway_kv kv) = 1"
  by (simp_all add: gateway_kv_def gateway_event_def)

lemma plain_header [simp]: "plain_json (snd (gateway_header rv))" "ascii_bytes (fst (gateway_header rv))"
  by (simp_all add: gateway_header_def)

lemma depth_event: "json_depth (gateway_event ev) \<le> 2"
  by (simp add: gateway_event_def gateway_kv_def)

section \<open>The client reads them back\<close>

lemma dec_header [simp]:
  "dec_struct header_fields (JObj [(''cluster_id'', JStr x), (''revision'', JStr y)]) z = Some y"
  by (simp add: dec_struct_obj header_fields_def find_field_def str_field_def fold_name.simps to_upper_char_def)

lemma dec_kv [simp]:
  "dec_struct kv_fields (gateway_kv kv) zero_kv = Some \<lparr>KvKey = EncodeToString (fst kv), KvValue = EncodeToString (snd kv)\<rparr>"
  by (simp add: gateway_kv_def dec_struct_def kv_fields_def find_field_def str_field_def zero_kv_def)

lemma dec_kvs [simp]:
  "dec_elems (dec_struct kv_fields) zero_kv [] (map gateway_kv kvs) =
    Some (map (\<lambda>kv. \<lparr>KvKey = EncodeToString (fst kv), KvValue = EncodeToString (snd kv)\<rparr>) kvs)"
  by (induction kvs) simp_all

lemma decode_sent_kvs [simp]:
  "decode_kvs (map (\<lambda>kv. \<lparr>KvKey = EncodeToString (fst kv), KvValue = EncodeToString (snd kv)\<rparr>) kvs) = Inr kvs"
  by (induction kvs) (simp_all add: DecodeString_EncodeToString)

lemma scan_revision_fmt [simp]: "in_int64 rv \<Longrightarrow> scan_revision (fmt_int rv) = rv"
  using Sscanf_d_fmt_int [of rv "[]"] by (simp add: scan_revision_def)

lemma decode_gateway_range:
  assumes "in_int64 rv"
  shows "decode_range (gateway_range kvs rv) = Inr (kvs, rv)"
proof -
  let ?j = "JObj [gateway_header rv, (''kvs'', JArr (map gateway_kv kvs)), (''count'', JStr (fmt_nat (length kvs)))]"
  have "fold max (map (json_depth \<circ> gateway_kv) kvs) 0 \<le> 1"
    by (rule fold_max_le) (simp_all add: list_all_iff)
  then have "json_depth ?j \<le> maxNestingDepth"
    by (simp add: gateway_header_def maxNestingDepth_def)
  moreover have "plain_json ?j"
    by (simp add: list_all_iff) (simp add: gateway_header_def)
  ultimately have "json_parse (gateway_range kvs rv) = Some ?j"
    unfolding gateway_range_def by (intro json_parse_marshal)
  moreover have "dec_struct range_fields ?j zero_rangeResponse = Some \<lparr>RangeRevision = fmt_int rv,
      Kvs = map (\<lambda>kv. \<lparr>KvKey = EncodeToString (fst kv), KvValue = EncodeToString (snd kv)\<rparr>) kvs,
      Count = fmt_nat (length kvs)\<rparr>"
    by (simp add: dec_struct_obj [of range_fields]) (simp add: range_fields_def find_field_def sub_field_def str_field_def
        dec_slice_def zero_rangeResponse_def gateway_header_def)
  ultimately show ?thesis
    using assms by (simp add: decode_range_def Unmarshal_def)
qed



lemma dec_kv_key:
  "dec_struct kv_fields (JObj [(''key'', JStr x)]) zero_kv = Some \<lparr>KvKey = x, KvValue = []\<rparr>"
  by (simp add: dec_struct_def kv_fields_def find_field_def str_field_def zero_kv_def)

lemma dec_event:
  assumes "sent_event rv ev"
  shows "\<exists>w. dec_struct event_fields (gateway_event ev) zero_wireEvent = Some w \<and> decode_event rv w = ev"
proof (cases "EvType ev = ''DELETE''")
  case True
  have nil: "DecodeString [] = ([], True)" by (simp add: DecodeString.simps)
  have "dec_struct event_fields (gateway_event ev) zero_wireEvent =
      Some \<lparr>WireType = ''DELETE'', WireKv = \<lparr>KvKey = EncodeToString (EvKey ev), KvValue = []\<rparr>\<rparr>"
    using True by (simp add: gateway_event_def dec_struct_obj [of event_fields])
      (simp add: event_fields_def find_field_def str_field_def sub_field_def zero_wireEvent_def dec_kv_key)
  with assms True show ?thesis
    by (simp add: decode_event_def sent_event_def DecodeString_EncodeToString nil)
next
  case False
  then have "dec_struct event_fields (gateway_event ev) zero_wireEvent =
      Some \<lparr>WireType = [], WireKv = \<lparr>KvKey = EncodeToString (EvKey ev), KvValue = EncodeToString (EvValue ev)\<rparr>\<rparr>"
    by (simp add: gateway_event_def dec_struct_obj [of event_fields])
      (simp add: event_fields_def find_field_def sub_field_def zero_wireEvent_def)
  with assms False show ?thesis
    by (simp add: decode_event_def sent_event_def DecodeString_EncodeToString)
qed

lemma dec_events:
  "list_all (sent_event rv) evs \<Longrightarrow>
    \<exists>ws. dec_elems (dec_struct event_fields) zero_wireEvent [] (map gateway_event evs) = Some ws \<and> map (decode_event rv) ws = evs"
proof (induction evs)
  case (Cons ev evs)
  with dec_event [of rv ev] show ?case by fastforce
qed simp

text \<open>A stream of messages, each on its line.\<close>

lemma parse_value_ws: "json_ws c \<Longrightarrow> parse_value n d (c # s) = parse_value n d s"
  by (cases n) (simp_all add: parse_value.simps skip_ws_def)

lemma json_prefix_line:
  assumes "plain_json j" and "json_depth j \<le> maxNestingDepth" and "num_end r" and "w = [] \<or> w = [CHR 0x0A]"
  shows "json_prefix (w @ marshal j @ r) = Parsed j r"
proof -
  have "parse_value n d (w @ s) = parse_value n d s" for n d s
    using assms(4) parse_value_ws by (auto simp: json_ws_def)
  then show ?thesis
    using parses_plain [OF assms(1)] assms(2,3) by (simp add: json_prefix_def parses_def)
qed

definition message_json :: "watchBatch \<Rightarrow> json" where
  "message_json b = JObj [(''result'', JObj
     [gateway_header (BatchRevision b), (''events'', JArr (map gateway_event (Events b)))])]"

lemma plain_message: "plain_json (message_json b)" "json_depth (message_json b) \<le> maxNestingDepth"
proof -
  show "plain_json (message_json b)"
    by (simp add: message_json_def list_all_iff) (simp add: gateway_header_def)
  have "fold max (map (json_depth \<circ> gateway_event) (Events b)) 0 \<le> 2"
    by (rule fold_max_le) (simp_all add: list_all_iff depth_event)
  then show "json_depth (message_json b) \<le> maxNestingDepth"
    by (simp add: message_json_def gateway_header_def maxNestingDepth_def)
qed

lemma dec_message:
  assumes "sent_batch b"
  shows "\<exists>msg. dec_struct msg_fields (message_json b) zero_watchMsg = Some msg \<and>
    \<not> MsgCreated msg \<and> \<not> MsgCanceled msg \<and> decode_batch msg = b"
proof -
  obtain ws where ws: "dec_elems (dec_struct event_fields) zero_wireEvent [] (map gateway_event (Events b)) = Some ws"
    "map (decode_event (BatchRevision b)) ws = Events b"
    using dec_events [of "BatchRevision b" "Events b"] assms by (auto simp: sent_batch_def)
  have "dec_struct msg_fields (message_json b) zero_watchMsg =
      Some \<lparr>MsgRevision = fmt_int (BatchRevision b), MsgCreated = False, MsgCanceled = False, MsgCancelReason = [], MsgEvents = ws\<rparr>"
    by (simp add: message_json_def dec_struct_obj [of msg_fields])
      (simp add: msg_fields_def find_field_def dec_struct_obj [of result_fields],
       simp add: result_fields_def find_field_def sub_field_def dec_slice_def zero_watchMsg_def gateway_header_def ws(1))
  then show ?thesis
    using assms ws(2) by (auto simp: decode_batch_def sent_batch_def)
qed

lemma stream_end: "stream_batches [] = []" "stream_batches [CHR 0x0A] = []"
  by (code_simp, code_simp)

lemma stream_messages:
  assumes "list_all sent_batch bs" and "w = [] \<or> w = [CHR 0x0A]"
  shows "stream_batches (w @ concat (map gateway_message bs)) = bs"
  using assms
proof (induction bs arbitrary: w)
  case Nil
  then show ?case using stream_end by auto
next
  case (Cons b bs)
  let ?r = "[CHR 0x0A] @ concat (map gateway_message bs)"
  have joined: "w @ concat (map gateway_message (b # bs)) = w @ marshal (message_json b) @ ?r"
    by (simp add: gateway_message_def message_json_def)
  obtain msg where msg: "dec_struct msg_fields (message_json b) zero_watchMsg = Some msg"
    "\<not> MsgCreated msg" "\<not> MsgCanceled msg" "decode_batch msg = b"
    using dec_message [of b] Cons.prems(1) by auto
  have "json_prefix (w @ marshal (message_json b) @ ?r) = Parsed (message_json b) ?r"
    using Cons.prems(2) by (intro json_prefix_line plain_message) simp_all
  then have "Decode (dec_struct msg_fields) zero_watchMsg (w @ marshal (message_json b) @ ?r) = Inr (msg, ?r)"
    using msg(1) by (simp add: Decode_def)
  moreover have "stream_batches ?r = bs"
    using Cons.prems(1) by (intro Cons.IH) simp_all
  ultimately show ?case
    unfolding joined using msg(2-4) by (subst stream_batches.simps) simp
qed

lemma dec_created:
  "\<exists>msg. dec_struct msg_fields (JObj [(''result'', JObj [gateway_header rv, (''created'', JBool True)])]) zero_watchMsg =
    Some msg \<and> MsgCreated msg"
  by (simp add: dec_struct_obj [of msg_fields])
    (simp add: msg_fields_def find_field_def dec_struct_obj [of result_fields],
     simp add: result_fields_def find_field_def sub_field_def bool_field_def zero_watchMsg_def gateway_header_def)

lemma stream_gateway:
  assumes "list_all sent_batch bs"
  shows "stream_batches (gateway_created rv @ concat (map gateway_message bs)) = bs"
proof -
  let ?j = "JObj [(''result'', JObj [gateway_header rv, (''created'', JBool True)])]"
  let ?r = "[CHR 0x0A] @ concat (map gateway_message bs)"
  have plain: "plain_json ?j" "json_depth ?j \<le> maxNestingDepth"
    by (simp_all add: gateway_header_def maxNestingDepth_def)
  have "json_prefix ([] @ marshal ?j @ ?r) = Parsed ?j ?r"
    by (intro json_prefix_line plain) simp_all
  then have "json_prefix (gateway_created rv @ concat (map gateway_message bs)) = Parsed ?j ?r"
    by (simp add: gateway_created_def)
  moreover obtain msg where "dec_struct msg_fields ?j zero_watchMsg = Some msg" "MsgCreated msg"
    using dec_created [of rv] by blast
  moreover have "stream_batches ?r = bs"
    using assms by (intro stream_messages) simp_all
  ultimately show ?thesis
    by (subst stream_batches.simps) (simp add: Decode_def)
qed


definition test_batch :: watchBatch where
  "test_batch = \<lparr>BatchRevision = 8, Events =
     [\<lparr>EvType = ''PUT'', EvKey = ''/sharding/buckets/7'', EvValue = ''{}'', EvRevision = 8\<rparr>,
      \<lparr>EvType = ''DELETE'', EvKey = ''/sharding/shards/s3'', EvValue = [], EvRevision = 8\<rparr>],
     Canceled = False, CancelReason = []\<rparr>"


text \<open>
  a cancellation ends the batches. Whatever bytes the stream carries, no batch comes after a
  canceled one; so the watch loop, which stops at a canceled batch, leaves none unread.
\<close>

theorem nothing_after_cancel:
  "list_all (\<lambda>b. \<not> Canceled b) (butlast (stream_batches s))"
proof (induction s rule: stream_batches.induct)
  case (1 s)
  show ?case
  proof (cases "Decode (dec_struct msg_fields) zero_watchMsg s")
    case (Inr mr)
    obtain msg r where mr: "mr = (msg, r)" by (cases mr)
    have "list_all (\<lambda>b. \<not> Canceled b) (butlast (stream_batches r))" if "MsgCreated msg \<or> \<not> MsgCanceled msg"
      using that 1(1) [OF Inr mr [symmetric]] 1(2) [OF Inr mr [symmetric]] by blast
    then show ?thesis
      by (subst stream_batches.simps) (auto simp: Inr mr decode_batch_def Let_def)
  qed (subst stream_batches.simps, simp)
qed

text \<open>
  a watch that the server refuses looks like a watch with nothing to say. The refusal comes in
  the acknowledgement, with \<open>created\<close> and \<open>canceled\<close> both set, and the client skips it as it skips
  every acknowledgement: no batch, and so no reason, reaches the watch loop.
\<close>

theorem refused_watch_is_silent:
  "stream_batches (quoted ''{`result`:{`header`:{`revision`:`9`},`created`:true,`canceled`:true,`cancel_reason`:`permission denied`}}'') = []"
  by code_simp

end
