(* ===== verification/Registry_Sync.thy ===== *)
theory Registry_Sync
imports Etcd_Wire
begin

text \<open>
  \<open>EtcdRegistry\<close> of \<open>internal/registry/etcd.go\<close>: the initial load, the watch loop and the
  reconciliation loop on the store, over the client of \<open>Etcd_Http\<close> and a network that is a parameter.

  The first part gives the operations of one loop at a time and composes them with the
  gateway's wire format down to the router's map; the second puts the two loops side by side as
  a step relation in which they interleave between a snapshot's construction and its swap.
\<close>

section \<open>Configuration\<close>

record EtcdConfig =
  Endpoints :: "bytes list"
  DialTimeout :: int
  Username :: bytes
  Password :: bytes
  ReconcileInterval :: int

datatype registry_error = NoEndpointConfigured | AuthenticateFailed etcd_error | InitialLoad etcd_error

text \<open>\<open>cancel\<close> is nil before \<open>Start\<close>; then it says whether the context of the loops is canceled.\<close>

record EtcdRegistry =
  client :: etcdClient
  rstore :: Store
  interval :: int
  cancel :: "bool option"

definition NewEtcdRegistry :: "EtcdConfig \<Rightarrow> (registry_error, EtcdRegistry) result" where
  "NewEtcdRegistry cfg =
     (if Endpoints cfg = [] then Inl NoEndpointConfigured
      else let cfg = (if ReconcileInterval cfg = 0 then cfg\<lparr>ReconcileInterval := 60 * 1000000000\<rparr> else cfg)
        in Inr \<lparr>client = newEtcdClient (Endpoints cfg) (Username cfg) (Password cfg),
             rstore = NewStore, interval = ReconcileInterval cfg, cancel = None\<rparr>)"

section \<open>Loading\<close>

text \<open>The revision or the error, the client, the network and the store.\<close>

definition loadAll :: "'n transport \<Rightarrow> etcdClient \<Rightarrow> 'n \<Rightarrow> Store
    \<Rightarrow> (etcd_error, int) result \<times> etcdClient \<times> 'n \<times> Store" where
  "loadAll http c net st =
     (case rangePrefix http key_prefix c net of
        (Inl e, c, net) \<Rightarrow> (Inl e, c, net, st)
      | (Inr (kvs, rv), c, net) \<Rightarrow> (Inr rv, c, net, Swap (build_mapping kvs rv) st))"

text \<open>\<open>Start\<close> up to the launch of the two loops; the revision is the one the watch starts after.\<close>

definition EtcdRegistry_Start :: "'n transport \<Rightarrow> EtcdRegistry \<Rightarrow> 'n
    \<Rightarrow> (registry_error, int) result \<times> EtcdRegistry \<times> 'n" where
  "EtcdRegistry_Start http r net =
     (let (authErr, c, net) =
        (if username (client r) \<noteq> [] then authenticate http (client r) net else (None, client r, net)) in
      case authErr of
        Some e \<Rightarrow> (Inl (AuthenticateFailed e), r\<lparr>client := c\<rparr>, net)
      | None \<Rightarrow>
          (case loadAll http c net (rstore r) of
             (Inl e, c, net, st) \<Rightarrow> (Inl (InitialLoad e), r\<lparr>client := c, rstore := st\<rparr>, net)
           | (Inr rv, c, net, st) \<Rightarrow> (Inr rv, r\<lparr>client := c, rstore := st, cancel := Some False\<rparr>, net)))"

definition EtcdRegistry_Close :: "EtcdRegistry \<Rightarrow> EtcdRegistry" where
  "EtcdRegistry_Close r = (case cancel r of None \<Rightarrow> r | Some _ \<Rightarrow> r\<lparr>cancel := Some True\<rparr>)"

text \<open>One tick of \<open>reconcileLoop\<close>: a full load whose error is only logged.\<close>

definition reconcile :: "'n transport \<Rightarrow> etcdClient \<Rightarrow> 'n \<Rightarrow> Store \<Rightarrow> etcdClient \<times> 'n \<times> Store" where
  "reconcile http c net st = snd (loadAll http c net st)"

text \<open>\<open>time.NewTicker\<close> panics on a period that is not positive: \<open>None\<close>.\<close>

definition reconcile_period :: "EtcdRegistry \<Rightarrow> int option" where
  "reconcile_period r = (if interval r \<le> 0 then None else Some (interval r))"

section \<open>Watching\<close>

text \<open>\<open>ko\<close> and \<open>bo\<close> give the iteration order of the two maps when the snapshot is copied.\<close>

definition next_snapshot ::
  "((bytes \<rightharpoonup> ShardDef) \<Rightarrow> bytes list) \<Rightarrow> ((int \<rightharpoonup> BucketDef) \<Rightarrow> int list) \<Rightarrow> Store \<Rightarrow> watchBatch \<Rightarrow> Mapping" where
  "next_snapshot ko bo st batch =
     apply_batch batch
       (case Load st of Some cur \<Rightarrow> Clone (ko (Shards cur)) (bo (Buckets cur)) cur | None \<Rightarrow> empty_mapping 0)"

text \<open>The inner loop: the batches of one stream, up to a canceled one.\<close>

fun watch_pass ::
  "((bytes \<rightharpoonup> ShardDef) \<Rightarrow> bytes list) \<Rightarrow> ((int \<rightharpoonup> BucketDef) \<Rightarrow> int list) \<Rightarrow> watchBatch list \<Rightarrow> Store \<times> int \<Rightarrow> Store \<times> int" where
  "watch_pass ko bo [] s = s"
| "watch_pass ko bo (batch # batches) (st, watchRev) =
     (if Canceled batch then (st, watchRev)
      else watch_pass ko bo batches (Swap (next_snapshot ko bo st batch) st, next_watchRev batch watchRev))"

text \<open>One round of the outer loop: open the watch, take its batches.\<close>

definition watch_round ::
  "((bytes \<rightharpoonup> ShardDef) \<Rightarrow> bytes list) \<Rightarrow> ((int \<rightharpoonup> BucketDef) \<Rightarrow> int list) \<Rightarrow> 'n transport \<Rightarrow> etcdClient
     \<Rightarrow> (Store \<times> int) \<times> 'n \<Rightarrow> (Store \<times> int) \<times> 'n" where
  "watch_round ko bo http c s =
     (case s of ((st, watchRev), net) \<Rightarrow>
       (case watchPrefix http key_prefix watchRev c net of
          (Inl _, net) \<Rightarrow> ((st, watchRev), net)
        | (Inr batches, net) \<Rightarrow> (watch_pass ko bo batches (st, watchRev), net)))"

text \<open>\<open>watchLoop\<close> for the number of rounds it makes before its context is canceled.\<close>

definition watchLoop ::
  "nat \<Rightarrow> ((bytes \<rightharpoonup> ShardDef) \<Rightarrow> bytes list) \<Rightarrow> ((int \<rightharpoonup> BucketDef) \<Rightarrow> int list) \<Rightarrow> 'n transport \<Rightarrow> etcdClient
     \<Rightarrow> int \<Rightarrow> Store \<Rightarrow> 'n \<Rightarrow> (Store \<times> int) \<times> 'n" where
  "watchLoop rounds ko bo http c fromRevision st net =
     (watch_round ko bo http c ^^ rounds) ((st, wrap64 (fromRevision + 1)), net)"

section \<open>Sequences of operations\<close>

definition orders :: "((bytes \<rightharpoonup> ShardDef) \<Rightarrow> bytes list) \<Rightarrow> ((int \<rightharpoonup> BucketDef) \<Rightarrow> int list) \<Rightarrow> bool" where
  "orders ko bo \<longleftrightarrow> (\<forall>f. finite (dom f) \<longrightarrow> set (ko f) = dom f) \<and> (\<forall>f. finite (dom f) \<longrightarrow> set (bo f) = dom f)"

lemma next_snapshot_loaded:
  "orders ko bo \<Longrightarrow> wf_mapping m \<Longrightarrow> next_snapshot ko bo (Some m) batch = apply_batch batch m"
  by (simp add: next_snapshot_def Load_def Clone_eq orders_def wf_mapping_def)

lemma empty_mapping_wf: "wf_mapping (empty_mapping rv)"
  by (simp add: wf_mapping_def empty_mapping_def)

lemma next_snapshot_wf:
  "orders ko bo \<Longrightarrow> (\<And>m. st = Some m \<Longrightarrow> wf_mapping m) \<Longrightarrow> wf_mapping (next_snapshot ko bo st batch)"
  by (cases st) (auto simp: next_snapshot_loaded apply_batch_wf, simp add: next_snapshot_def Load_def apply_batch_wf empty_mapping_wf)

lemma watch_pass_loaded:
  assumes "orders ko bo" and "list_all (\<lambda>b. \<not> Canceled b) bs"
  shows "wf_mapping m \<Longrightarrow> watch_pass ko bo bs (Some m, w) = (Some (fold apply_batch bs m), fold next_watchRev bs w)"
  using assms(2)
  by (induction bs arbitrary: m w) (simp_all add: next_snapshot_loaded [OF assms(1)] apply_batch_wf Swap_def)

lemma fold_next_watchRev:
  assumes "bs \<noteq> []" and "0 < BatchRevision (last bs)"
  shows "fold next_watchRev bs w = wrap64 (BatchRevision (last bs) + 1)"
proof -
  have "fold next_watchRev bs w = next_watchRev (last bs) (fold next_watchRev (butlast bs) w)"
    using assms(1) by (metis append_butlast_last_id comp_apply fold.simps(1,2) fold_append id_apply)
  then show ?thesis using assms(2) by (simp add: next_watchRev_def)
qed


definition key_order :: "('k::linorder \<rightharpoonup> 'v) \<Rightarrow> 'k list" where
  "key_order f = sorted_list_of_set (dom f)"

lemma key_orders: "orders key_order key_order"
  by (simp add: orders_def key_order_def)

definition follow_kvs :: "(bytes \<times> bytes) list" where
  "follow_kvs = [(''/sharding/shards/s3'', ''{}''), (''/sharding/buckets/0007'', quoted ''{`shard_id`:`s1`}'')]"

definition follow_batches :: "watchBatch list" where
  "follow_batches =
     [\<lparr>BatchRevision = 8, Events = [\<lparr>EvType = ''PUT'', EvKey = ''/sharding/buckets/0007'',
         EvValue = quoted ''{`shard_id`:`s1`,`dest_shard_id`:`s2`,`state`:`CUTOVER`}'', EvRevision = 8\<rparr>],
       Canceled = False, CancelReason = []\<rparr>,
      \<lparr>BatchRevision = 9, Events = [\<lparr>EvType = ''DELETE'', EvKey = ''/sharding/shards/s3'', EvValue = [], EvRevision = 9\<rparr>],
       Canceled = False, CancelReason = []\<rparr>]"

definition follow_transport :: "unit transport" where
  "follow_transport rq n =
     (if reqURL rq = ''http://etcd'' @ range_path then (Reply 200 (gateway_range follow_kvs 7), n)
      else (Reply 200 (gateway_created 7 @ concat (map gateway_message follow_batches)), n))"

lemma follow_events: "events_ok kv_event event_ok (concat (map Events follow_batches)) (map_of follow_kvs)"
proof -
  have un: "unambiguous ((map_of follow_kvs)(''/sharding/buckets/0007'' \<mapsto> v))" for v
  proof -
    have "distinct_buckets ((''/sharding/buckets/0007'', v) # follow_kvs)"
      by (simp add: distinct_buckets_def follow_kvs_def) code_simp
    from distinct_buckets_unambiguous [OF this] show ?thesis by simp
  qed
  show ?thesis
    using un un [simplified follow_kvs_def, simplified]
    by (simp add: follow_batches_def follow_kvs_def event_ok_def kv_event_def well_formed_def sample_values sample_key)
qed


section \<open>Outages\<close>

text \<open>
  an etcd outage never takes the map away. A load that fails leaves the store as it is, and a
  load or a watch round, whatever the network answers, never empties a store that holds a map,
  and whatever it puts there is well formed.
\<close>

theorem outage_keeps_last_map:
  assumes "orders ko bo" and "wf_mapping m"
  shows "(fst (loadAll http c net (Some m)) = Inl e \<longrightarrow> snd (snd (snd (loadAll http c net (Some m)))) = Some m) \<and>
    (\<exists>m'. snd (snd (reconcile http c net (Some m))) = Some m' \<and> wf_mapping m') \<and>
    (\<exists>m'. fst (fst (watchLoop rounds ko bo http c rv (Some m) net)) = Some m' \<and> wf_mapping m')"
proof -
  have pass: "\<exists>m' w'. watch_pass ko bo bs (Some m, w) = (Some m', w') \<and> wf_mapping m'" if "wf_mapping m" for bs m w
    using that
  proof (induction bs arbitrary: m w)
    case (Cons b bs)
    then show ?case
      by (cases "Canceled b") (simp_all add: next_snapshot_loaded [OF assms(1)] apply_batch_wf Swap_def)
  qed simp
  have round: "\<exists>m' w' net'. watch_round ko bo http c ((Some m, w), net) = ((Some m', w'), net') \<and> wf_mapping m'"
    if "wf_mapping m" for m w net
  proof (cases "watchPrefix http key_prefix w c net")
    case (Pair r net')
    then show ?thesis using that pass [OF that] by (cases r) (auto simp: watch_round_def)
  qed
  have "\<exists>m' w' net'. (watch_round ko bo http c ^^ rounds) ((Some m, wrap64 (rv + 1)), net) = ((Some m', w'), net') \<and> wf_mapping m'"
  proof (induction rounds)
    case (Suc n)
    then show ?case using round by (force simp: funpow_swap1 [symmetric])
  qed (simp add: assms(2))
  then have "\<exists>m'. fst (fst (watchLoop rounds ko bo http c rv (Some m) net)) = Some m' \<and> wf_mapping m'"
    unfolding watchLoop_def by (elim exE conjE) simp
  moreover have "fst (loadAll http c net (Some m)) = Inl e \<longrightarrow> snd (snd (snd (loadAll http c net (Some m)))) = Some m"
    by (auto simp: loadAll_def split: prod.splits sum.splits)
  moreover have "\<exists>m'. snd (snd (reconcile http c net (Some m))) = Some m' \<and> wf_mapping m'"
    using assms(2) build_mapping_wf by (auto simp: reconcile_def loadAll_def Swap_def split: prod.splits sum.splits)
  ultimately show ?thesis by blast
qed

definition dead_transport :: "unit transport" where
  "dead_transport rq n = (NoReply ''connection refused'', n)"

theorem outage_keeps_last_map_witness:
  "fst (fst (watchLoop 3 key_order key_order dead_transport (newEtcdClient [''http://etcd''] [] []) 7 (Some (empty_mapping 7)) ())) \<noteq> None"
  using outage_keeps_last_map [OF key_orders empty_mapping_wf, of dead_transport "newEtcdClient [''http://etcd''] [] []" "()" 7 undefined 3 7]
  by auto

text \<open>
  C39: the watch never gets past a revision etcd has compacted away. If etcd answers the watch at
  the revision the loop stands at with a cancellation, the loop asks for the same revision in
  every later round, and its rounds change neither the store nor the revision, for ever.
\<close>

theorem compacted_watch_never_recovers:
  assumes "endpoints c = ep # eps"
    and "\<And>net. \<exists>body net' b bs. http (request ep watch_path (watch_body key_prefix (wrap64 (rv + 1))) c) net = (Reply 200 body, net') \<and>
      stream_batches body = b # bs \<and> Canceled b"
  shows "fst (watchLoop rounds ko bo http c rv st net) = (st, wrap64 (rv + 1))"
proof -
  have round: "fst (watch_round ko bo http c ((st, wrap64 (rv + 1)), net)) = (st, wrap64 (rv + 1))" for net
    using assms(2) [of net] assms(1) by (auto simp: watch_round_def watchPrefix_def pickEndpoint_def)
  have "fst ((watch_round ko bo http c ^^ n) ((st, wrap64 (rv + 1)), net)) = (st, wrap64 (rv + 1))" for n
  proof (induction n)
    case (Suc n)
    then show ?case
      using round [of "snd ((watch_round ko bo http c ^^ n) ((st, wrap64 (rv + 1)), net))"]
      by (metis comp_apply funpow.simps(2) prod.collapse)
  qed simp
  then show ?thesis by (simp add: watchLoop_def)
qed

definition compacted_transport :: "unit transport" where
  "compacted_transport rq n =
     (Reply 200 (quoted ''{`result`:{`header`:{`revision`:`90`},`canceled`:true,`compact_revision`:`80`}}''), n)"

theorem compacted_watch_never_recovers_witness:
  "fst (watchLoop 1000 key_order key_order compacted_transport (newEtcdClient [''http://etcd''] [] []) 7 NewStore ()) =
     (NewStore, wrap64 (7 + 1))"
proof (rule compacted_watch_never_recovers)
  have "stream_batches (quoted ''{`result`:{`header`:{`revision`:`90`},`canceled`:true,`compact_revision`:`80`}}'') =
      [\<lparr>BatchRevision = 90, Events = [], Canceled = True, CancelReason = []\<rparr>]"
    by code_simp
  then show "\<exists>body net' b bs. compacted_transport (request ''http://etcd'' watch_path (watch_body key_prefix (wrap64 (7 + 1)))
      (newEtcdClient [''http://etcd''] [] [])) net = (Reply 200 body, net') \<and> stream_batches body = b # bs \<and> Canceled b" for net
    by (simp add: compacted_transport_def)
  show "endpoints (newEtcdClient [''http://etcd''] [] []) = ''http://etcd'' # []"
    by (simp add: newEtcdClient_def)
qed

section \<open>The two loops side by side\<close>

text \<open>
  \<open>watchLoop\<close> and \<open>reconcileLoop\<close> share the store without a lock. Each reads (the store, or etcd),
  builds a snapshot and swaps it in, and the other may run in between. \<open>elog\<close> is what etcd has
  done since the initial load at revision \<open>r0\<close>, one revision per event; \<open>wpos\<close> is how far the
  watch has delivered, \<open>wnext\<close> and \<open>rnext\<close> are snapshots built and not yet swapped in.
\<close>

record sync =
  elog :: "watchEvent list"
  sstore :: Store
  wpos :: nat
  wnext :: "(Mapping \<times> nat) option"
  rnext :: "Mapping option"

definition keys_at :: "keyspace \<Rightarrow> watchEvent list \<Rightarrow> keyspace" where
  "keys_at base evs = fold kv_event evs base"

definition sync_start :: "(bytes \<times> bytes) list \<Rightarrow> int \<Rightarrow> sync \<Rightarrow> bool" where
  "sync_start kvs0 r0 s \<longleftrightarrow> s = \<lparr>elog = [], sstore = Some (build_mapping kvs0 r0), wpos = 0, wnext = None, rnext = None\<rparr>"

text \<open>The batch the watch delivers when it goes from position \<open>i\<close> to position \<open>k\<close>.\<close>

definition log_batch :: "int \<Rightarrow> watchEvent list \<Rightarrow> nat \<Rightarrow> nat \<Rightarrow> watchBatch" where
  "log_batch r0 evs i k = \<lparr>BatchRevision = r0 + int k, Events = take (k - i) (drop i evs), Canceled = False, CancelReason = []\<rparr>"

inductive watch_sync_step :: "(bytes \<times> bytes) list \<Rightarrow> int \<Rightarrow> sync \<Rightarrow> sync \<Rightarrow> bool" for kvs0 r0 where
  etcd_event: "event_ok (keys_at (map_of kvs0) (elog s)) ev \<Longrightarrow>
    watch_sync_step kvs0 r0 s (s\<lparr>elog := elog s @ [ev]\<rparr>)"
| watch_build: "wnext s = None \<Longrightarrow> wpos s < k \<Longrightarrow> k \<le> length (elog s) \<Longrightarrow> orders ko bo \<Longrightarrow>
    watch_sync_step kvs0 r0 s (s\<lparr>wnext := Some (next_snapshot ko bo (sstore s) (log_batch r0 (elog s) (wpos s) k), k)\<rparr>)"
| watch_swap: "wnext s = Some (m, k) \<Longrightarrow>
    watch_sync_step kvs0 r0 s (s\<lparr>sstore := Swap m (sstore s), wpos := k, wnext := None\<rparr>)"

inductive sync_step :: "(bytes \<times> bytes) list \<Rightarrow> int \<Rightarrow> sync \<Rightarrow> sync \<Rightarrow> bool" for kvs0 r0 where
  watch: "watch_sync_step kvs0 r0 s t \<Longrightarrow> sync_step kvs0 r0 s t"
| reconcile_read: "rnext s = None \<Longrightarrow> distinct (map fst kvs) \<Longrightarrow> map_of kvs = keys_at (map_of kvs0) (elog s) \<Longrightarrow>
    sync_step kvs0 r0 s (s\<lparr>rnext := Some (build_mapping kvs (r0 + int (length (elog s))))\<rparr>)"
| reconcile_swap: "rnext s = Some m \<Longrightarrow>
    sync_step kvs0 r0 s (s\<lparr>sstore := Swap m (sstore s), rnext := None\<rparr>)"

subsection \<open>What both loops keep\<close>

definition fresh_enough :: "int \<Rightarrow> sync \<Rightarrow> Mapping \<Rightarrow> bool" where
  "fresh_enough r0 s m \<longleftrightarrow> wf_mapping m \<and> r0 \<le> Revision m \<and> Revision m \<le> r0 + int (length (elog s))"

definition sync_inv :: "int \<Rightarrow> sync \<Rightarrow> bool" where
  "sync_inv r0 s \<longleftrightarrow> (\<exists>m. sstore s = Some m \<and> fresh_enough r0 s m) \<and>
     (\<forall>m k. wnext s = Some (m, k) \<longrightarrow> fresh_enough r0 s m) \<and> (\<forall>m. rnext s = Some m \<longrightarrow> fresh_enough r0 s m)"

lemma fresh_enough_batch:
  assumes "orders ko bo" and "fresh_enough r0 s m" and "0 < r0" and "k \<le> length (elog s)"
  shows "fresh_enough r0 s (next_snapshot ko bo (Some m) (log_batch r0 (elog s) i k))"
  using assms by (simp add: fresh_enough_def next_snapshot_loaded apply_batch_wf log_batch_def)

lemma sync_step_inv:
  assumes r0: "0 < r0"
  shows "sync_step kvs0 r0 s t \<Longrightarrow> sync_inv r0 s \<Longrightarrow> sync_inv r0 t"
proof (induction rule: sync_step.induct)
  case (watch s t)
  then show ?case
  proof (induction rule: watch_sync_step.induct)
    case (watch_build s k ko bo)
    then obtain m where m: "sstore s = Some m" "fresh_enough r0 s m" by (auto simp: sync_inv_def)
    with watch_build fresh_enough_batch [OF _ m(2) r0] show ?case
      by (auto simp: sync_inv_def fresh_enough_def)
  qed (auto simp: sync_inv_def fresh_enough_def Swap_def)
next
  case (reconcile_read s kvs)
  then show ?case by (auto simp: sync_inv_def fresh_enough_def build_mapping_wf)
qed (auto simp: sync_inv_def fresh_enough_def Swap_def)

lemma sync_start_inv: "sync_start kvs0 r0 s \<Longrightarrow> sync_inv r0 s"
  by (simp add: sync_inv_def sync_start_def fresh_enough_def build_mapping_wf)

lemma sync_reach_inv:
  assumes "0 < r0" and "reach (sync_start kvs0 r0) (sync_step kvs0 r0) s"
  shows "sync_inv r0 s"
proof -
  have "inductive_invariant (sync_start kvs0 r0) (sync_step kvs0 r0) (sync_inv r0)"
    by unfold_locales (auto intro: sync_start_inv sync_step_inv [OF assms(1)])
  then show ?thesis using assms(2) by (rule inductive_invariant.inv_reach)
qed

text \<open>
  the router always has a map, and one that etcd has got to. However the watch and the
  reconciliation interleave, after the initial load the store is never empty, the snapshot in
  it is well formed, and its revision lies between the initial one and etcd's current one.
\<close>

theorem store_always_serves:
  assumes "0 < r0" and "reach (sync_start kvs0 r0) (sync_step kvs0 r0) s"
  shows "Ready (sstore s) \<and> (\<exists>m. Load (sstore s) = Some m \<and> wf_mapping m \<and>
    r0 \<le> Revision m \<and> Revision m \<le> r0 + int (length (elog s)))"
  using sync_reach_inv [OF assms] by (auto simp: sync_inv_def fresh_enough_def Load_def Ready_def)

subsection \<open>The watch alone\<close>

text \<open>Without reconciliation the store is exactly a revision of etcd.\<close>

definition exact :: "(bytes \<times> bytes) list \<Rightarrow> int \<Rightarrow> watchEvent list \<Rightarrow> nat \<Rightarrow> Mapping \<Rightarrow> bool" where
  "exact kvs0 r0 evs k m \<longleftrightarrow> wf_mapping m \<and> Revision m = r0 + int k \<and> represents (keys_at (map_of kvs0) (take k evs)) m"

definition watch_inv :: "(bytes \<times> bytes) list \<Rightarrow> int \<Rightarrow> sync \<Rightarrow> bool" where
  "watch_inv kvs0 r0 s \<longleftrightarrow> events_ok kv_event event_ok (elog s) (map_of kvs0) \<and> wpos s \<le> length (elog s) \<and>
     (\<exists>m. sstore s = Some m \<and> exact kvs0 r0 (elog s) (wpos s) m) \<and>
     (\<forall>m k. wnext s = Some (m, k) \<longrightarrow> k \<le> length (elog s) \<and> exact kvs0 r0 (elog s) k m)"

lemma represents_batch:
  assumes "represents kv m" and "events_ok kv_event event_ok (Events b) kv" and "0 < BatchRevision b"
  shows "represents (fold kv_event (Events b) kv) (apply_batch b m)"
  using watch.sim_run [OF assms(1,2)] assms(3) by (simp add: apply_batch_def Let_def represents_Revision)

lemma watch_step_inv:
  assumes r0: "0 < r0"
  shows "watch_sync_step kvs0 r0 s t \<Longrightarrow> watch_inv kvs0 r0 s \<Longrightarrow> watch_inv kvs0 r0 t"
proof (induction rule: watch_sync_step.induct)
  case (etcd_event s ev)
  then show ?case
    by (auto simp: watch_inv_def exact_def events_ok_append keys_at_def)
next
  case (watch_build s k ko bo)
  let ?b = "log_batch r0 (elog s) (wpos s) k"
  obtain m where m: "sstore s = Some m" "exact kvs0 r0 (elog s) (wpos s) m"
    using watch_build by (auto simp: watch_inv_def)
  have split: "take k (elog s) = take (wpos s) (elog s) @ Events ?b"
    using watch_build(2) take_add [of "wpos s" "k - wpos s" "elog s"] by (simp add: log_batch_def)
  have "events_ok kv_event event_ok (take k (elog s) @ drop k (elog s)) (map_of kvs0)"
    using watch_build by (simp add: watch_inv_def)
  then have "events_ok kv_event event_ok (Events ?b) (keys_at (map_of kvs0) (take (wpos s) (elog s)))"
    unfolding events_ok_append split by (simp add: events_ok_append keys_at_def)
  then have "represents (keys_at (map_of kvs0) (take k (elog s))) (apply_batch ?b m)"
    using represents_batch [of _ m ?b] m(2) r0 unfolding split by (simp add: exact_def keys_at_def log_batch_def)
  moreover have "next_snapshot ko bo (sstore s) ?b = apply_batch ?b m"
    using m watch_build(4) by (simp add: next_snapshot_loaded exact_def)
  moreover have "Revision (apply_batch ?b m) = r0 + int k"
    using r0 by (simp add: log_batch_def)
  ultimately show ?case
    using watch_build m(2) by (simp add: watch_inv_def exact_def apply_batch_wf)
next
  case (watch_swap s m k)
  then show ?case by (simp add: watch_inv_def Swap_def)
qed

lemma watch_reach_inv:
  assumes "0 < r0" and "distinct (map fst kvs0)" and "unambiguous (map_of kvs0)"
    and "reach (sync_start kvs0 r0) (watch_sync_step kvs0 r0) s"
  shows "watch_inv kvs0 r0 s"
proof -
  have "sync_start kvs0 r0 s' \<Longrightarrow> watch_inv kvs0 r0 s'" for s'
    using represents_build [OF assms(2,3), of r0]
    by (simp add: watch_inv_def sync_start_def exact_def build_mapping_wf keys_at_def)
  then have "inductive_invariant (sync_start kvs0 r0) (watch_sync_step kvs0 r0) (watch_inv kvs0 r0)"
    by unfold_locales (auto intro: watch_step_inv [OF assms(1)])
  then show ?thesis using assms(4) by (rule inductive_invariant.inv_reach)
qed



definition put_bucket :: "bytes \<Rightarrow> watchEvent" where
  "put_bucket i = \<lparr>EvType = ''PUT'', EvKey = bucketsPrefix @ i, EvValue = ''{}'', EvRevision = 0\<rparr>"

lemma empty_bucket: "Unmarshal_BucketDef ''{}'' = Inr zero_BucketDef"
  by code_simp

lemma bucket_keys: "bucketIDFromKey (bucketsPrefix @ ''1'') = Some 1" "bucketIDFromKey (bucketsPrefix @ ''2'') = Some 2"
  "shardIDFromKey (bucketsPrefix @ ''1'') = None" "shardIDFromKey (bucketsPrefix @ ''2'') = None"
  by code_simp+

lemma put_bucket_apply:
  "apply_event (put_bucket ''1'') m = m\<lparr>Buckets := (Buckets m)(1 \<mapsto> zero_BucketDef\<lparr>BucketID := 1\<rparr>)\<rparr>"
  "apply_event (put_bucket ''2'') m = m\<lparr>Buckets := (Buckets m)(2 \<mapsto> zero_BucketDef\<lparr>BucketID := 2\<rparr>)\<rparr>"
  by (simp_all add: apply_event_def put_bucket_def applyKV_def bucket_keys empty_bucket)

lemma put_events_ok:
  "event_ok Map.empty (put_bucket ''1'')" "event_ok [bucketsPrefix @ ''1'' \<mapsto> ''{}''] (put_bucket ''2'')"
proof -
  have "distinct_buckets [(bucketsPrefix @ ''1'', ''{}'')]" "distinct_buckets [(bucketsPrefix @ ''2'', ''{}''), (bucketsPrefix @ ''1'', ''{}'')]"
    by code_simp+
  from this [THEN distinct_buckets_unambiguous]
  show "event_ok Map.empty (put_bucket ''1'')" "event_ok [bucketsPrefix @ ''1'' \<mapsto> ''{}''] (put_bucket ''2'')"
    by (simp_all add: event_ok_def put_bucket_def kv_event_def well_formed_def bucket_keys empty_bucket)
qed

lemma kv_put: "kv_event (put_bucket i) kv = kv(bucketsPrefix @ i \<mapsto> ''{}'')"
  by (simp add: put_bucket_def kv_event_def)

text \<open>The snapshot at the end of the run below: the second event applied to the initial load.\<close>

definition torn_mapping :: Mapping where
  "torn_mapping = \<lparr>Revision = 3, Shards = Map.empty, Buckets = [2 \<mapsto> zero_BucketDef\<lparr>BucketID := 2\<rparr>]\<rparr>"

definition torn_state :: sync where
  "torn_state = \<lparr>elog = [put_bucket ''1'', put_bucket ''2''], sstore = Some torn_mapping, wpos = 2, wnext = None, rnext = None\<rparr>"

lemma torn_reachable: "reach (sync_start [] 1) (sync_step [] 1) torn_state"
proof -
  let ?r = "reach (sync_start [] 1) (sync_step [] 1)"
  let ?s = "\<lambda>l st w wn rn. \<lparr>elog = l, sstore = Some st, wpos = w, wnext = wn, rnext = rn\<rparr>"
  let ?e1 = "put_bucket ''1''" and ?e2 = "put_bucket ''2''"
  let ?m0 = "empty_mapping 1"
  let ?m1 = "?m0\<lparr>Buckets := [1 \<mapsto> zero_BucketDef\<lparr>BucketID := 1\<rparr>], Revision := 2\<rparr>"
  have load: "build_mapping [] 1 = ?m0" by (simp add: build_mapping_def)
  have snap: "next_snapshot key_order key_order (Some ?m0) b = apply_batch b ?m0" for b
    by (simp add: next_snapshot_loaded key_orders empty_mapping_wf)
  have n1: "next_snapshot key_order key_order (Some ?m0) (log_batch 1 [?e1] 0 1) = ?m1"
    unfolding snap by (simp add: log_batch_def apply_batch_def put_bucket_apply empty_mapping_def)
  have n2: "next_snapshot key_order key_order (Some ?m0) (log_batch 1 [?e1, ?e2] 1 2) = torn_mapping"
    unfolding snap by (simp add: log_batch_def apply_batch_def put_bucket_apply empty_mapping_def torn_mapping_def)
  have "?r (?s [] ?m0 0 None None)"
    by (rule reach_start) (simp add: sync_start_def load)
  from reach_step [OF this sync_step.reconcile_read [where kvs = "[]"]]
  have "?r (?s [] ?m0 0 None (Some ?m0))" by (simp add: keys_at_def load)
  from reach_step [OF this sync_step.watch [OF watch_sync_step.etcd_event [where ev = ?e1]]]
  have "?r (?s [?e1] ?m0 0 None (Some ?m0))" by (simp add: keys_at_def put_events_ok)
  from reach_step [OF this sync_step.watch [OF watch_sync_step.watch_build [where k = 1 and ko = key_order and bo = key_order]]]
  have "?r (?s [?e1] ?m0 0 (Some (?m1, 1)) (Some ?m0))"
    by (simp add: key_orders n1 [simplified])
  from reach_step [OF this sync_step.watch [OF watch_sync_step.watch_swap [where m = ?m1 and k = 1]]]
  have "?r (?s [?e1] ?m1 1 None (Some ?m0))" by (simp add: Swap_def)
  from reach_step [OF this sync_step.reconcile_swap [where m = ?m0]]
  have "?r (?s [?e1] ?m0 1 None None)" by (simp add: Swap_def)
  from reach_step [OF this sync_step.watch [OF watch_sync_step.etcd_event [where ev = ?e2]]]
  have "?r (?s [?e1, ?e2] ?m0 1 None None)" by (simp add: keys_at_def kv_put put_events_ok)
  from reach_step [OF this sync_step.watch [OF watch_sync_step.watch_build [where k = 2 and ko = key_order and bo = key_order]]]
  have "?r (?s [?e1, ?e2] ?m0 1 (Some (torn_mapping, 2)) None)"
    by (simp add: key_orders n2 [simplified])
  from reach_step [OF this sync_step.watch [OF watch_sync_step.watch_swap [where m = torn_mapping and k = 2]]]
  show ?thesis by (simp add: Swap_def torn_state_def)
qed

text \<open>
  C25: a reconciliation that races the watch can lose an update. There is a run, two events long, in
  which the reconciliation reads etcd before the first event and installs its snapshot after the
  watch has applied it; the watch then applies the second event to that older snapshot. At the
  end both loops are idle and the store claims etcd's current revision, but it holds a map
  that etcd had at no revision: the second bucket without the first.
\<close>

theorem reconcile_race_loses_update:
  "\<exists>s m. reach (sync_start [] 1) (sync_step [] 1) s \<and> wnext s = None \<and> rnext s = None \<and> wpos s = length (elog s) \<and>
    Load (sstore s) = Some m \<and> Revision m = 1 + int (length (elog s)) \<and>
    list_all (\<lambda>k. \<not> represents (keys_at Map.empty (take k (elog s))) m) [0, 1, 2] \<and> length (elog s) = 2"
proof (intro exI [of _ torn_state] exI [of _ torn_mapping] conjI)
  have "Buckets torn_mapping 2 \<noteq> None" "Buckets torn_mapping 1 = None"
    by (simp_all add: torn_mapping_def)
  then have "\<not> represents kv torn_mapping"
    if "kv (bucketsPrefix @ ''1'') = Some ''{}'' \<or> kv = Map.empty" for kv
  proof -
    assume b: "Buckets torn_mapping 2 \<noteq> None" "Buckets torn_mapping 1 = None"
    show ?thesis
    proof
      assume rep: "represents kv torn_mapping"
      from that show False
      proof
        assume "kv (bucketsPrefix @ ''1'') = Some ''{}''"
        with rep have "Buckets torn_mapping 1 = bucket_val 1 ''{}''"
          using bucket_keys(1) unfolding represents_def represents_buckets_def by blast
        with b(2) show False by (simp add: bucket_val_def empty_bucket)
      next
        assume "kv = Map.empty"
        with rep b(1) show False by (simp add: represents_def represents_buckets_def)
      qed
    qed
  qed
  then show "list_all (\<lambda>k. \<not> represents (keys_at Map.empty (take k (elog torn_state))) torn_mapping) [0, 1, 2]"
    by (simp add: torn_state_def keys_at_def kv_put)
qed (simp_all add: torn_reachable, simp_all add: torn_state_def torn_mapping_def Load_def)

theorem store_always_serves_witness: "Ready (sstore torn_state) \<and> (\<exists>m. Load (sstore torn_state) = Some m \<and> wf_mapping m \<and>
    1 \<le> Revision m \<and> Revision m \<le> 1 + int (length (elog torn_state)))"
  by (rule store_always_serves [OF _ torn_reachable]) simp



end
