(* ===== verification/Registry_File.thy ===== *)
theory Registry_File
  imports Registry "HOL-Library.Multiset"
begin

text \<open>
  \<open>internal/registry/file.go\<close>: the registry that reads a JSON file once. What \<open>os.ReadFile\<close>
  returns is an argument, and so is the order in which Go iterates over the decoded map of
  buckets, which it leaves open.
\<close>

section \<open>The document\<close>

record fileDoc =
  doc_shards :: "(bytes \<times> ShardDef) list"
  doc_buckets :: "(bytes \<times> BucketDef) list"

definition zero_fileDoc :: fileDoc where
  "zero_fileDoc = \<lparr>doc_shards = [], doc_buckets = []\<rparr>"

definition fileDoc_fields :: "fileDoc field list" where
  "fileDoc_fields =
     [(''shards'', sub_field (dec_map dec_ShardDef zero_ShardDef) doc_shards (\<lambda>x. doc_shards_update (\<lambda>_. x))),
      (''buckets'', sub_field (dec_map dec_BucketDef zero_BucketDef) doc_buckets (\<lambda>x. doc_buckets_update (\<lambda>_. x)))]"

abbreviation Unmarshal_fileDoc :: "bytes \<Rightarrow> (json_error, fileDoc) result" where
  "Unmarshal_fileDoc \<equiv> Unmarshal (dec_struct fileDoc_fields) zero_fileDoc"

section \<open>Loading\<close>

definition parseBucketID :: "bytes \<Rightarrow> (scan_error, int) result" where
  "parseBucketID s = Sscanf_d s"

datatype file_error = ReadFailed bytes | DecodeFailed json_error | BadBucketKey bytes scan_error

fun insert_bucket :: "bytes \<times> BucketDef \<Rightarrow> (int \<rightharpoonup> BucketDef) \<Rightarrow> (file_error, int \<rightharpoonup> BucketDef) result" where
  "insert_bucket (idStr, b) bs =
     (case parseBucketID idStr of
        Inl e \<Rightarrow> Inl (BadBucketKey idStr e)
      | Inr i \<Rightarrow> Inr (bs(i \<mapsto> b\<lparr>BucketID := i\<rparr>)))"

text \<open>\<open>Start\<close>: the error, if any, and the store.\<close>

definition FileRegistry_Start ::
  "(bytes, bytes) result \<Rightarrow> ((bytes \<times> BucketDef) list \<Rightarrow> (bytes \<times> BucketDef) list) \<Rightarrow> Store
     \<Rightarrow> file_error option \<times> Store" where
  "FileRegistry_Start contents order store =
     (case contents of
        Inl e \<Rightarrow> (Some (ReadFailed e), store)
      | Inr data \<Rightarrow>
          (case Unmarshal_fileDoc data of
             Inl e \<Rightarrow> (Some (DecodeFailed e), store)
           | Inr doc \<Rightarrow>
               (case fold_result insert_bucket (order (doc_buckets doc)) Map.empty of
                  Inl e \<Rightarrow> (Some e, store)
                | Inr bs \<Rightarrow> (None,
                    Swap \<lparr>Revision = 1, Shards = map_of (doc_shards doc), Buckets = bs\<rparr> store))))"

section \<open>Lemmas\<close>

lemma insert_buckets_ok:
  "(\<forall>(k, b)\<in>set kbs. is_ok (parseBucketID k)) \<longleftrightarrow> is_ok (fold_result insert_bucket kbs bs)"
proof (induction kbs arbitrary: bs)
  case (Cons kb kbs)
  obtain k b where kb: "kb = (k, b)" by (cases kb)
  show ?case
    using Cons.IH by (cases "parseBucketID k") (simp_all add: kb)
qed simp

text \<open>The entries of a successful load, by number.\<close>

lemma insert_buckets_lookup:
  assumes "fold_result insert_bucket kbs bs = Inr bs'"
    and "distinct (map (parseBucketID \<circ> fst) kbs)"
  shows "bs' i = (case find (\<lambda>(k, b). parseBucketID k = Inr i) kbs of
    None \<Rightarrow> bs i | Some (k, b) \<Rightarrow> Some (b\<lparr>BucketID := i\<rparr>))"
  using assms
proof (induction kbs arbitrary: bs)
  case (Cons kb kbs)
  obtain k b where kb: "kb = (k, b)" by (cases kb)
  obtain j where j: "parseBucketID k = Inr j"
    using Cons.prems(1) by (auto simp: kb split: sum.splits)
  have rest: "fold_result insert_bucket kbs (bs(j \<mapsto> b\<lparr>BucketID := j\<rparr>)) = Inr bs'"
    using Cons.prems(1) by (simp add: kb j)
  have "find (\<lambda>(k, b). parseBucketID k = Inr j) kbs = None"
    using Cons.prems(2) by (auto simp: kb j find_None_iff image_iff)
  then show ?case
    using Cons.IH [OF rest] Cons.prems(2) by (auto simp: kb j split: option.splits)
qed simp

lemma find_perm:
  assumes "mset xs = mset ys" and "\<And>x y. x \<in> set xs \<Longrightarrow> y \<in> set xs \<Longrightarrow> P x \<Longrightarrow> P y \<Longrightarrow> x = y"
  shows "find P xs = find P ys"
proof (cases "find P xs")
  case None
  then show ?thesis
    using mset_eq_setD [OF assms(1)] find_None_iff [of P xs] find_None_iff [of P ys] by simp
next
  case (Some x)
  then have x: "x \<in> set xs" "P x" by (auto simp: find_Some_iff)
  then have "x \<in> set ys" using mset_eq_setD [OF assms(1)] by simp
  then obtain y where y: "find P ys = Some y"
    using x(2) by (cases "find P ys") (auto simp: find_None_iff)
  then have "y \<in> set ys" "P y" by (auto simp: find_Some_iff)
  then have "y = x" using assms(2) x mset_eq_setD [OF assms(1)] by blast
  with Some y show ?thesis by simp
qed

lemma insert_buckets_wf:
  assumes "fold_result insert_bucket kbs Map.empty = Inr bs"
  shows "wf_mapping \<lparr>Revision = r, Shards = map_of shards, Buckets = bs\<rparr>"
proof -
  let ?P = "\<lambda>bs. finite (dom bs) \<and> (\<forall>i b. bs i = Some b \<longrightarrow> BucketID b = i)"
  have step: "?P s'" if ins: "insert_bucket kb s = Inr s'" and P: "?P s" for kb s s'
  proof -
    obtain k b where kb: "kb = (k, b)" by (cases kb)
    obtain j where j: "parseBucketID k = Inr j"
      by (cases "parseBucketID k") (use ins in \<open>simp_all add: kb\<close>)
    with ins have s': "s' = s(j \<mapsto> b\<lparr>BucketID := j\<rparr>)" by (simp add: kb)
    show ?thesis
    proof (intro conjI allI impI)
      show "finite (dom s')" using P by (simp add: s')
    next
      fix i c assume c: "s' i = Some c"
      show "BucketID c = i"
      proof (cases "i = j")
        case True
        with c have "c = b\<lparr>BucketID := j\<rparr>" by (simp add: s')
        with True show ?thesis by simp
      next
        case False
        with c have "s i = Some c" by (simp add: s')
        with P show ?thesis by blast
      qed
    qed
  qed
  have "?P bs"
    by (rule fold_result_inv [where P = ?P, OF _ assms]) (rule step, simp_all)
  then show ?thesis unfolding wf_mapping_def Mapping.simps using finite_dom_map_of by blast
qed

section \<open>Properties\<close>

text \<open>
  a failed load changes nothing and a successful one installs a complete map. \<open>Start\<close> of the
  file registry returns an error exactly if the file cannot be read, does not decode or has a
  bucket key that is not a number, and then the store is as before; otherwise the store is ready
  with a well-formed snapshot of revision 1.
\<close>

theorem file_start_all_or_nothing:
  "(case FileRegistry_Start contents order store of
      (Some e, store') \<Rightarrow> store' = store \<and>
        (\<forall>data doc. contents = Inr data \<and> Unmarshal_fileDoc data = Inr doc \<longrightarrow>
          (\<exists>(k, b)\<in>set (order (doc_buckets doc)). \<not> is_ok (parseBucketID k)))
    | (None, store') \<Rightarrow> Ready store' \<and>
        (\<exists>m. Load store' = Some m \<and> wf_mapping m \<and> Revision m = 1))"
proof (cases "FileRegistry_Start contents order store")
  case (Pair err store')
  show ?thesis
  proof (cases err)
    case (Some e)
    have "\<exists>(k, b)\<in>set (order (doc_buckets doc)). \<not> is_ok (parseBucketID k)"
      if "contents = Inr data" "Unmarshal_fileDoc data = Inr doc" for data doc
    proof -
      from Pair Some that have "\<not> is_ok (fold_result insert_bucket (order (doc_buckets doc)) Map.empty)"
        by (auto simp: FileRegistry_Start_def split: sum.splits)
      with insert_buckets_ok [of "order (doc_buckets doc)" Map.empty] show ?thesis by auto
    qed
    moreover from Pair Some have "store' = store"
      by (auto simp: FileRegistry_Start_def split: sum.splits)
    ultimately show ?thesis by (simp add: Pair Some)
  next
    case None
    obtain data where data: "contents = Inr data"
      by (cases contents) (use Pair None in \<open>simp_all add: FileRegistry_Start_def\<close>)
    obtain doc where doc: "Unmarshal_fileDoc data = Inr doc"
      by (cases "Unmarshal_fileDoc data") (use Pair None in \<open>simp_all add: FileRegistry_Start_def data\<close>)
    obtain bs where bs: "fold_result insert_bucket (order (doc_buckets doc)) Map.empty = Inr bs"
      and st: "store' = Swap \<lparr>Revision = 1, Shards = map_of (doc_shards doc), Buckets = bs\<rparr> store"
      by (cases "fold_result insert_bucket (order (doc_buckets doc)) Map.empty")
        (use Pair None in \<open>simp_all add: FileRegistry_Start_def data doc\<close>)
    from insert_buckets_wf [OF bs] show ?thesis
      by (simp add: Pair None st store.ready_swap store.load_swap)
  qed
qed


text \<open>
  the load does not depend on the iteration order as long as the keys name distinct buckets:
  then the snapshot holds for each bucket exactly the record filed under the key that names it.
\<close>

theorem file_load_order_independent:
  assumes "Unmarshal_fileDoc data = Inr doc"
    and "distinct (map (parseBucketID \<circ> fst) (doc_buckets doc))"
    and "mset (order (doc_buckets doc)) = mset (doc_buckets doc)"
    and "\<forall>(k, b)\<in>set (doc_buckets doc). is_ok (parseBucketID k)"
  shows "FileRegistry_Start (Inr data) order store =
    (None, Swap \<lparr>Revision = 1, Shards = map_of (doc_shards doc),
      Buckets = (\<lambda>i. case find (\<lambda>(k, b). parseBucketID k = Inr i) (doc_buckets doc) of
        None \<Rightarrow> None | Some (k, b) \<Rightarrow> Some (b\<lparr>BucketID := i\<rparr>))\<rparr> store)"
proof -
  let ?kbs = "doc_buckets doc"
  have "\<forall>(k, b)\<in>set (order ?kbs). is_ok (parseBucketID k)"
    using assms(4) mset_eq_setD [OF assms(3)] by simp
  then obtain bs where bs: "fold_result insert_bucket (order ?kbs) Map.empty = Inr bs"
    using insert_buckets_ok [of "order ?kbs" Map.empty] by (auto simp: is_ok_iff)
  have "mset (map (parseBucketID \<circ> fst) (order ?kbs)) = mset (map (parseBucketID \<circ> fst) ?kbs)"
    using assms(3) by (metis mset_map)
  then have dist: "distinct (map (parseBucketID \<circ> fst) (order ?kbs))"
    using assms(2) by (metis mset_eq_imp_distinct_iff)
  have same: "x = y" if "x \<in> set (order ?kbs)" "y \<in> set (order ?kbs)"
    "(\<lambda>(k, b). parseBucketID k = Inr i) x" "(\<lambda>(k, b). parseBucketID k = Inr i) y" for x y i
  proof -
    have "(parseBucketID \<circ> fst) x = (parseBucketID \<circ> fst) y" using that(3,4) by (auto split: prod.splits)
    with dist that(1,2) show ?thesis by (meson distinct_map inj_onD)
  qed
  have "find (\<lambda>(k, b). parseBucketID k = Inr i) (order ?kbs) = find (\<lambda>(k, b). parseBucketID k = Inr i) ?kbs" for i
    by (rule find_perm [OF assms(3)]) (rule same)
  then have "bs = (\<lambda>i. case find (\<lambda>(k, b). parseBucketID k = Inr i) ?kbs of
      None \<Rightarrow> None | Some (k, b) \<Rightarrow> Some (b\<lparr>BucketID := i\<rparr>))"
    using insert_buckets_lookup [OF bs dist] by (intro ext) simp
  with bs show ?thesis by (simp add: FileRegistry_Start_def assms(1))
qed


text \<open>The document of \<open>testdata/mapping.example.json\<close>, without its layout.\<close>

definition example_file :: bytes where
  "example_file = quoted ''{`shards`:{`shard-01`:{`shard_id`:`shard-01`,`status`:`ACTIVE`,`writer`:{`host`:`127.0.0.1`,`port`:5433,`database`:`payment`},`reader`:{`host`:`127.0.0.1`,`port`:5433,`database`:`payment`},`credential_ref`:`secret/payment/postgresql`,`region`:`jakarta`},`shard-02`:{`shard_id`:`shard-02`,`status`:`ACTIVE`,`writer`:{`host`:`127.0.0.1`,`port`:5434,`database`:`payment`},`reader`:{`host`:`127.0.0.1`,`port`:5434,`database`:`payment`},`credential_ref`:`secret/payment/postgresql`,`region`:`jakarta`}},`buckets`:{`0`:{`shard_id`:`shard-01`},`1`:{`shard_id`:`shard-01`},`2`:{`shard_id`:`shard-02`},`3`:{`shard_id`:`shard-02`}}}''"

definition example_shard :: "bytes \<Rightarrow> int \<Rightarrow> ShardDef" where
  "example_shard sid port = \<lparr>ShardID = sid, Status = ShardActive,
     Writer = \<lparr>Host = ''127.0.0.1'', Port = port, Database = ''payment''\<rparr>,
     Reader = Some \<lparr>Host = ''127.0.0.1'', Port = port, Database = ''payment''\<rparr>,
     CredentialRef = ''secret/payment/postgresql'', Region = ''jakarta''\<rparr>"

definition example_doc :: fileDoc where
  "example_doc = \<lparr>
     doc_shards = [(''shard-01'', example_shard ''shard-01'' 5433), (''shard-02'', example_shard ''shard-02'' 5434)],
     doc_buckets = map (\<lambda>(k, sid). (k, zero_BucketDef\<lparr>SourceShardID := sid\<rparr>))
       [(''0'', ''shard-01''), (''1'', ''shard-01''), (''2'', ''shard-02''), (''3'', ''shard-02'')]\<rparr>"

lemma Unmarshal_example_file: "Unmarshal_fileDoc example_file = Inr example_doc"
  by code_simp


lemma parse_example: "map (parseBucketID \<circ> fst) (doc_buckets example_doc) = [Inr 0, Inr 1, Inr 2, Inr 3]"
  by code_simp

theorem file_load_order_independent_witness:
  "FileRegistry_Start (Inr example_file) rev NewStore =
    (None, Swap \<lparr>Revision = 1, Shards = map_of (doc_shards example_doc),
      Buckets = (\<lambda>i. case find (\<lambda>(k, b). parseBucketID k = Inr i) (doc_buckets example_doc) of
        None \<Rightarrow> None | Some (k, b) \<Rightarrow> Some (b\<lparr>BucketID := i\<rparr>))\<rparr> NewStore)"
proof (rule file_load_order_independent)
  show "Unmarshal_fileDoc example_file = Inr example_doc" by (rule Unmarshal_example_file)
  show "distinct (map (parseBucketID \<circ> fst) (doc_buckets example_doc))" by (simp add: parse_example)
  have "is_ok r" if "r \<in> set (map (parseBucketID \<circ> fst) (doc_buckets example_doc))" for r
    using that unfolding parse_example by auto
  then show "\<forall>(k, b)\<in>set (doc_buckets example_doc). is_ok (parseBucketID k)" by force
qed simp

text \<open>
  two keys for one bucket make the load depend on Go's map order. For a document with the keys
  \<open>1\<close> and \<open>01\<close> both loads succeed and the bucket goes to whichever record comes last.
\<close>

definition ambiguous_doc :: fileDoc where
  "ambiguous_doc = \<lparr>doc_shards = [], doc_buckets =
     [(''1'', zero_BucketDef\<lparr>SourceShardID := ''s1''\<rparr>), (''01'', zero_BucketDef\<lparr>SourceShardID := ''s2''\<rparr>)]\<rparr>"

theorem file_load_order_dependent:
  assumes "Unmarshal_fileDoc data = Inr ambiguous_doc"
  shows "map_option (\<lambda>m. map_option SourceShardID (Buckets m 1)) (Load (snd (FileRegistry_Start (Inr data) id store))) = Some (Some ''s2'') \<and>
    map_option (\<lambda>m. map_option SourceShardID (Buckets m 1)) (Load (snd (FileRegistry_Start (Inr data) rev store))) = Some (Some ''s1'')"
proof -
  have keys: "parseBucketID ''1'' = Inr 1" "parseBucketID ''01'' = Inr 1"
    by code_simp+
  show ?thesis
    using assms by (simp add: FileRegistry_Start_def ambiguous_doc_def keys store.load_swap)
qed

theorem file_load_order_dependent_witness:
  "map_option (\<lambda>m. map_option SourceShardID (Buckets m 1))
     (Load (snd (FileRegistry_Start (Inr (quoted ''{`buckets`:{`1`:{`shard_id`:`s1`},`01`:{`shard_id`:`s2`}}}'')) rev NewStore))) =
   Some (Some ''s1'')"
proof -
  have "Unmarshal_fileDoc (quoted ''{`buckets`:{`1`:{`shard_id`:`s1`},`01`:{`shard_id`:`s2`}}}'') = Inr ambiguous_doc"
    by code_simp
  from file_load_order_dependent [OF this] show ?thesis by blast
qed

text \<open>
  the two registries disagree on which keys name a bucket. Whatever key the etcd registry
  reads as bucket \<open>i\<close>, the file registry reads as \<open>i\<close>; but the file registry also accepts a key
  with text after the number, which the etcd registry ignores.
\<close>

theorem file_keys_more_lenient:
  "(\<forall>s i. bucketIDFromKey (bucketsPrefix @ s) = Some i \<longrightarrow> parseBucketID s = Inr i) \<and>
   parseBucketID ''12abc'' = Inr 12 \<and> bucketIDFromKey (bucketsPrefix @ ''12abc'') = None"
proof -
  have "parseBucketID s = Inr i" if "bucketIDFromKey (bucketsPrefix @ s) = Some i" for s i
    using that Sscanf_d_extends_Atoi by (auto simp: bucketIDFromKey_iff parseBucketID_def)
  moreover have "bucketIDFromKey (bucketsPrefix @ ''12abc'') = None"
    using Sscanf_d_example(2) by (simp add: bucketIDFromKey_def)
  ultimately show ?thesis by (simp add: parseBucketID_def Sscanf_d_example(1))
qed

theorem file_keys_more_lenient_witness: "parseBucketID ''0527'' = Inr 527"
proof -
  have "bucketIDFromKey (bucketsPrefix @ ''0527'') = Some 527" by code_simp
  then show ?thesis using file_keys_more_lenient by blast
qed

theorem file_start_all_or_nothing_witness: "Ready (snd (FileRegistry_Start (Inr example_file) rev NewStore))"
proof -
  have "fst (FileRegistry_Start (Inr example_file) rev NewStore) = None"
    using Unmarshal_example_file by (simp add: FileRegistry_Start_def) code_simp
  then show ?thesis
    using file_start_all_or_nothing [where contents = "Inr example_file" and order = rev and store = NewStore]
    by (cases "FileRegistry_Start (Inr example_file) rev NewStore") simp
qed

end
