(* ===== verification/Registry_Interface.thy ===== *)
theory Registry_Interface
  imports Registry_Sync Registry_File Router
begin

text \<open>
  The interface of \<open>internal/registry/registry.go\<close> as a locale: what a client may rely on after
  \<open>Start\<close>, whichever registry \<open>main\<close> has chosen. The etcd registry and the file registry are both
  shown to provide it.
\<close>

locale shard_registry =
  fixes start :: "'r \<Rightarrow> 'w \<Rightarrow> ('e, 'a) result \<times> 'r \<times> 'w" and store_of :: "'r \<Rightarrow> Store"
  assumes start_loads: "start r w = (Inr a, r', w') \<Longrightarrow> \<exists>m. store_of r' = Some m \<and> wf_mapping m"
    and start_keeps: "start r w = (Inl e, r', w') \<Longrightarrow> store_of r' = store_of r"
begin

lemma started_ready: "start r w = (Inr a, r', w') \<Longrightarrow> Ready (store_of r')"
  using start_loads [of r w a r' w'] by (auto simp: Ready_def)

lemma started_maps: "start r w = (Inr a, r', w') \<Longrightarrow> Resolve rt (store_of r') k \<noteq> Inl ErrNoMapping"
  using start_loads [of r w a r' w'] Resolve_loaded by fastforce

end

section \<open>The etcd registry\<close>

lemma loadAll_store:
  "loadAll http c net st = (res, c', net', st') \<Longrightarrow>
    (case res of Inl _ \<Rightarrow> st' = st | Inr _ \<Rightarrow> \<exists>m. st' = Some m \<and> wf_mapping m)"
  using build_mapping_wf by (auto simp: loadAll_def Swap_def split: prod.splits sum.splits)

interpretation etcd_registry: shard_registry "EtcdRegistry_Start http" rstore
proof
  fix r net a r' net'
  assume "EtcdRegistry_Start http r net = (Inr a, r', net')"
  then show "\<exists>m. rstore r' = Some m \<and> wf_mapping m"
    by (auto simp: EtcdRegistry_Start_def Let_def split: prod.splits option.splits sum.splits if_splits dest: loadAll_store)
next
  fix r net e r' net'
  assume "EtcdRegistry_Start http r net = (Inl e, r', net')"
  then show "rstore r' = rstore r"
    by (auto simp: EtcdRegistry_Start_def Let_def split: prod.splits option.splits sum.splits if_splits dest: loadAll_store)
qed

section \<open>The file registry\<close>

record FileRegistry =
  fpath :: bytes
  fstore :: Store

definition NewFileRegistry :: "bytes \<Rightarrow> FileRegistry" where
  "NewFileRegistry path = \<lparr>fpath = path, fstore = NewStore\<rparr>"

text \<open>\<open>Start\<close> with the file system as the outside world.\<close>

definition start_file :: "((bytes \<times> BucketDef) list \<Rightarrow> (bytes \<times> BucketDef) list) \<Rightarrow> FileRegistry
    \<Rightarrow> (bytes \<Rightarrow> (bytes, bytes) result) \<Rightarrow> (file_error, unit) result \<times> FileRegistry \<times> (bytes \<Rightarrow> (bytes, bytes) result)" where
  "start_file order r fs =
     (case FileRegistry_Start (fs (fpath r)) order (fstore r) of
        (Some e, st) \<Rightarrow> (Inl e, r\<lparr>fstore := st\<rparr>, fs)
      | (None, st) \<Rightarrow> (Inr (), r\<lparr>fstore := st\<rparr>, fs))"

lemma FileRegistry_Start_store:
  "FileRegistry_Start contents order st = (e, st') \<Longrightarrow>
    (case e of Some _ \<Rightarrow> st' = st | None \<Rightarrow> \<exists>m. st' = Some m \<and> wf_mapping m)"
  by (auto simp: FileRegistry_Start_def Swap_def split: sum.splits dest: insert_buckets_wf)

interpretation file_registry: shard_registry "start_file order" fstore
proof
  fix r fs a r' fs'
  assume "start_file order r fs = (Inr a, r', fs')"
  then show "\<exists>m. fstore r' = Some m \<and> wf_mapping m"
    by (auto simp: start_file_def split: prod.splits option.splits dest: FileRegistry_Start_store)
next
  fix r fs e r' fs'
  assume "start_file order r fs = (Inl e, r', fs')"
  then show "fstore r' = fstore r"
    by (auto simp: start_file_def split: prod.splits option.splits dest: FileRegistry_Start_store)
qed

end
