(* ===== verification/Config.thy ===== *)
theory Config
  imports Go_Text Go_Decode Breaker Secrets
begin

text \<open>
  \<open>internal/config/config.go\<close>: the configuration from environment variables. The environment is
  an argument; \<open>strconv.Atoi\<close> and \<open>time.ParseDuration\<close> are defined, the latter with its
  \<open>float64\<close> arithmetic for fractions and its \<open>uint64\<close> sums.
\<close>

section \<open>Durations\<close>

datatype duration_error = InvalidDuration | MissingUnit | UnknownUnit bytes

definition Millisecond :: duration where
  "Millisecond = 1000000"

definition Hour :: duration where
  "Hour = 60 * Minute"

text \<open>\<open>unitMap\<close>; the micro sign and the Greek mu are both accepted.\<close>

definition unitMap :: "(bytes \<times> nat) list" where
  "unitMap = [(''ns'', 1), (''us'', 1000), ([CHR 0xC2, CHR 0xB5, CHR ''s''], 1000), ([CHR 0xCE, CHR 0xBC, CHR ''s''], 1000),
     (''ms'', 1000000), (''s'', 1000000000), (''m'', 60000000000), (''h'', 3600000000000)]"

text \<open>\<open>leadingFraction\<close>: the digits are accumulated in an \<open>int64\<close> until one more does not fit; the
  scale is a power of ten of at most 19 digits, so it is exact as a \<open>float64\<close>.\<close>

fun leadingFraction :: "bytes \<Rightarrow> nat \<Rightarrow> nat \<Rightarrow> nat \<times> nat" where
  "leadingFraction [] x scale = (x, scale)"
| "leadingFraction (c # ds) x scale =
     (if (2 ^ 63 - 1) div 10 < x then (x, scale)
      else let y = 10 * x + digit_val c in
        if 2 ^ 63 < y then (x, scale) else leadingFraction ds y (10 * scale))"

text \<open>\<open>uint64(float64(f) * (float64(unit) / scale))\<close>, with every operation rounded.\<close>

definition float_nat :: "nat \<times> int \<Rightarrow> nat" where
  "float_nat x = (case float_frac (fst x) (snd x) of (n, d) \<Rightarrow> n div d)"

definition fraction_nanos :: "nat \<Rightarrow> nat \<Rightarrow> nat \<Rightarrow> nat" where
  "fraction_nanos f unit scale =
     (case (round_rat f 1, round_rat unit scale) of
        (Some (m1, e1), Some (m2, e2)) \<Rightarrow>
          (case float_frac (m1 * m2) (e1 + e2) of (n, d) \<Rightarrow>
            (case round_rat n d of Some x \<Rightarrow> float_nat x | None \<Rightarrow> 0))
      | _ \<Rightarrow> 0)"

text \<open>One number with its unit: the value added, and the rest of the text.\<close>

definition is_num_char :: "char \<Rightarrow> bool" where
  "is_num_char c \<longleftrightarrow> c = CHR ''.'' \<or> is_digit c"

definition duration_unit :: "nat \<Rightarrow> nat \<Rightarrow> nat \<Rightarrow> bytes \<Rightarrow> (duration_error, nat \<times> bytes) result" where
  "duration_unit v f scale s =
     (let u = takeWhile (\<lambda>c. \<not> is_num_char c) s in
      if u = [] then Inl MissingUnit
      else case map_of unitMap u of
        None \<Rightarrow> Inl (UnknownUnit u)
      | Some unit \<Rightarrow>
          if 2 ^ 63 div unit < v then Inl InvalidDuration
          else if f = 0 then Inr (v * unit, drop (length u) s)
          else let v = v * unit + fraction_nanos f unit scale in
            if 2 ^ 63 < v then Inl InvalidDuration else Inr (v, drop (length u) s))"

text \<open>The fraction: its digits, if there is a point, and what follows them.\<close>

definition duration_fraction :: "bytes \<Rightarrow> bytes \<times> bytes" where
  "duration_fraction s =
     (case s of c # t \<Rightarrow> if c = CHR ''.'' then (takeWhile is_digit t, dropWhile is_digit t) else ([], s) | [] \<Rightarrow> ([], s))"

definition duration_part :: "bytes \<Rightarrow> (duration_error, nat \<times> bytes) result" where
  "duration_part s =
     (let ds = takeWhile is_digit s in
      if s = [] \<or> \<not> is_num_char (hd s) \<or> 2 ^ 63 < digits_val ds then Inl InvalidDuration
      else case duration_fraction (dropWhile is_digit s) of (fs, s) \<Rightarrow>
        if ds = [] \<and> fs = [] then Inl InvalidDuration
        else case leadingFraction fs 0 1 of (f, scale) \<Rightarrow> duration_unit (digits_val ds) f scale s)"

lemma duration_unit_shorter: "duration_unit v f scale s = Inr (x, r) \<Longrightarrow> length r < length s"
  by (cases s) (auto simp: duration_unit_def Let_def split: if_splits option.splits)

lemma duration_fraction_length: "duration_fraction s = (fs, r) \<Longrightarrow> length r \<le> length s"
  using length_dropWhile_le [of is_digit "tl s"]
  by (cases s) (auto simp: duration_fraction_def split: if_splits)

lemma duration_part_shorter:
  assumes "duration_part s = Inr (v, r)"
  shows "length r < length s"
proof -
  obtain fs t where ft: "duration_fraction (dropWhile is_digit s) = (fs, t)"
    by (cases "duration_fraction (dropWhile is_digit s)")
  have "length r < length t"
    using assms ft by (auto simp: duration_part_def Let_def split: if_splits prod.splits dest: duration_unit_shorter)
  also have "length t \<le> length s"
    using duration_fraction_length [OF ft] length_dropWhile_le [of is_digit s] by linarith
  finally show ?thesis .
qed

text \<open>The loop over the parts; \<open>d\<close> is a \<open>uint64\<close>.\<close>

function duration_parts :: "nat \<Rightarrow> bytes \<Rightarrow> (duration_error, nat) result" where
  "duration_parts d s =
     (if s = [] then Inr d
      else case duration_part s of
        Inl e \<Rightarrow> Inl e
      | Inr (v, r) \<Rightarrow>
          let d = (d + v) mod 2 ^ 64 in
          if 2 ^ 63 < d then Inl InvalidDuration else duration_parts d r)"
  by pat_completeness auto
termination
  by (relation "measure (\<lambda>(_, s). length s)") (auto dest: duration_part_shorter)

declare duration_parts.simps [simp del]

definition ParseDuration :: "bytes \<Rightarrow> (duration_error, duration) result" where
  "ParseDuration orig =
     (let (neg, s) = split_sign orig in
      if s = ''0'' then Inr 0
      else if s = [] then Inl InvalidDuration
      else case duration_parts 0 s of
        Inl e \<Rightarrow> Inl e
      | Inr d \<Rightarrow>
          if neg then Inr (wrap64 (- wrap64 (int d)))
          else if 2 ^ 63 - 1 < d then Inl InvalidDuration else Inr (int d))"

section \<open>Reading the environment\<close>

definition getEnv :: "environment \<Rightarrow> bytes \<Rightarrow> bytes \<Rightarrow> bytes" where
  "getEnv env key def = (let v = Getenv env key in if v \<noteq> [] then v else def)"

definition getInt :: "environment \<Rightarrow> bytes \<Rightarrow> int \<Rightarrow> int" where
  "getInt env key def =
     (let v = Getenv env key in
      if v = [] then def else case Atoi v of Inl _ \<Rightarrow> def | Inr n \<Rightarrow> n)"

definition getDuration :: "environment \<Rightarrow> bytes \<Rightarrow> duration \<Rightarrow> duration" where
  "getDuration env key def =
     (let v = Getenv env key in
      if v = [] then def else case ParseDuration v of Inl _ \<Rightarrow> def | Inr d \<Rightarrow> d)"

definition splitCSV :: "bytes \<Rightarrow> bytes list" where
  "splitCSV v = (if v = [] then [] else filter (\<lambda>p. p \<noteq> []) (map TrimSpace (Split (CHR '','') v)))"

section \<open>The configuration\<close>

type_synonym RegistryMode = bytes

definition RegistryModeEtcd :: RegistryMode where "RegistryModeEtcd = ''etcd''"
definition RegistryModeFile :: RegistryMode where "RegistryModeFile = ''file''"

record AppConfig =
  HTTPAddr :: bytes
  cfgRegistryMode :: RegistryMode
  EtcdEndpoints :: "bytes list"
  EtcdDialTimeout :: duration
  EtcdReconcileInterval :: duration
  EtcdUsername :: bytes
  EtcdPassword :: bytes
  MappingFile :: bytes
  cfgBucketCount :: int
  PoolMaxConns :: int

datatype config_error = InvalidMode RegistryMode | EmptyEndpoints

definition load_env :: "environment \<Rightarrow> AppConfig" where
  "load_env env = \<lparr>
     HTTPAddr = getEnv env ''HTTP_ADDR'' '':8080'',
     cfgRegistryMode = getEnv env ''REGISTRY_MODE'' RegistryModeEtcd,
     EtcdEndpoints = splitCSV (getEnv env ''ETCD_ENDPOINTS'' ''http://127.0.0.1:2379''),
     EtcdDialTimeout = getDuration env ''ETCD_DIAL_TIMEOUT'' (5 * Second),
     EtcdReconcileInterval = getDuration env ''ETCD_RECONCILE_INTERVAL'' (60 * Second),
     EtcdUsername = Getenv env ''ETCD_USERNAME'',
     EtcdPassword = Getenv env ''ETCD_PASSWORD'',
     MappingFile = getEnv env ''MAPPING_FILE'' ''testdata/mapping.example.json'',
     cfgBucketCount = getInt env ''BUCKET_COUNT'' 1024,
     PoolMaxConns = wrap32 (getInt env ''POOL_MAX_CONNS'' 10)\<rparr>"

definition Config_Load :: "environment \<Rightarrow> (config_error, AppConfig) result" where
  "Config_Load env =
     (let c = load_env env in
      if cfgRegistryMode c \<noteq> RegistryModeEtcd \<and> cfgRegistryMode c \<noteq> RegistryModeFile
      then Inl (InvalidMode (cfgRegistryMode c))
      else if cfgRegistryMode c = RegistryModeEtcd \<and> EtcdEndpoints c = [] then Inl EmptyEndpoints
      else Inr c)"

lemma duration_tests:
  "ParseDuration ''1h30m'' = Inr (90 * Minute)" "ParseDuration ''-250ms'' = Inr (- 250 * Millisecond)"
  "ParseDuration ''10'' = Inl MissingUnit" "ParseDuration ''1e3s'' = Inl (UnknownUnit ''e'')"
  "ParseDuration ''0'' = Inr 0" "ParseDuration ''.s'' = Inl InvalidDuration"
  by code_simp+

section \<open>Properties\<close>

lemma unit_text:
  assumes "(u, unit) \<in> set unitMap"
  shows "map_of unitMap u = Some unit" and "takeWhile (\<lambda>c. \<not> is_num_char c) u = u" and "u \<noteq> []"
    and "takeWhile is_digit u = []" and "duration_fraction u = ([], u)" and "0 < unit"
proof -
  have "list_all (\<lambda>(u, unit). map_of unitMap u = Some unit \<and> takeWhile (\<lambda>c. \<not> is_num_char c) u = u \<and> u \<noteq> [] \<and>
      takeWhile is_digit u = [] \<and> duration_fraction u = ([], u) \<and> 0 < unit) unitMap"
    by code_simp
  then have *: "map_of unitMap u = Some unit \<and> takeWhile (\<lambda>c. \<not> is_num_char c) u = u \<and> u \<noteq> [] \<and>
      takeWhile is_digit u = [] \<and> duration_fraction u = ([], u) \<and> 0 < unit"
    using assms by (fastforce simp: list_all_iff)
  show "map_of unitMap u = Some unit" "takeWhile (\<lambda>c. \<not> is_num_char c) u = u" "u \<noteq> []"
    "takeWhile is_digit u = []" "duration_fraction u = ([], u)" "0 < unit"
    using * by blast+
qed

lemma digits_before:
  assumes "takeWhile is_digit u = []"
  shows "takeWhile is_digit (fmt_nat n @ u) = fmt_nat n" and "dropWhile is_digit (fmt_nat n @ u) = u"
proof -
  have "\<forall>c\<in>set (fmt_nat n). is_digit c" using fmt_nat_digits by blast
  moreover have "dropWhile is_digit u = u" using assms by (cases u) (auto split: if_splits)
  ultimately show "takeWhile is_digit (fmt_nat n @ u) = fmt_nat n" "dropWhile is_digit (fmt_nat n @ u) = u"
    using assms by (simp_all add: takeWhile_append dropWhile_append)
qed

lemma ParseDuration_whole:
  assumes "(u, unit) \<in> set unitMap"
  shows "ParseDuration (fmt_nat n @ u) =
    (if n * unit < 2 ^ 63 then Inr (int (n * unit)) else Inl InvalidDuration)"
proof -
  note u = unit_text [OF assms]
  obtain c t where ct: "fmt_nat n = c # t" by (cases "fmt_nat n") simp_all
  then have c: "is_digit c" using fmt_nat_digits [of c n] by simp
  have sign: "split_sign (fmt_nat n @ u) = (False, fmt_nat n @ u)"
    using c by (auto simp: ct)
  have zero: "fmt_nat n @ u \<noteq> ''0''" using u(3) by (simp add: ct)
  have hd: "is_num_char (hd (fmt_nat n @ u))" using c by (simp add: ct is_num_char_def)
  have uu: "duration_unit n 0 (Suc 0) u = (if 2 ^ 63 div unit < n then Inl InvalidDuration else Inr (n * unit, []))"
    unfolding duration_unit_def u(2) using u(1,3) by simp
  have part: "duration_part (fmt_nat n @ u) =
      (if 2 ^ 63 < n \<or> 2 ^ 63 div unit < n then Inl InvalidDuration else Inr (n * unit, []))"
    using uu hd u by (simp add: duration_part_def Let_def digits_before)
  have "n * unit \<le> 2 ^ 63 \<longleftrightarrow> n \<le> 2 ^ 63 div unit"
    using u(6) by (simp add: less_eq_div_iff_mult_less_eq)
  moreover have "n * unit \<le> 2 ^ 63 \<Longrightarrow> \<not> 2 ^ 63 < n"
    using u(6) order.trans [of n "n * unit" "2 ^ 63"] by simp
  ultimately have "duration_part (fmt_nat n @ u) = (if n * unit \<le> 2 ^ 63 then Inr (n * unit, []) else Inl InvalidDuration)"
    using part by auto
  then have "duration_parts 0 (fmt_nat n @ u) = (if n * unit \<le> 2 ^ 63 then Inr (n * unit) else Inl InvalidDuration)"
    using u(3) by (subst duration_parts.simps) (auto simp: duration_parts.simps [of _ "[]"])
  then show ?thesis
    using sign zero by (auto simp: ParseDuration_def ct)
qed

text \<open>
  a duration in the environment means what it says. A whole number of any documented unit is that
  many nanoseconds, up to the largest duration there is; one that is too large is not wrapped
  but ignored, as the default is for any value that does not parse.
\<close>

theorem configured_durations:
  assumes "env key = Some (fmt_nat n @ u)" and "(u, unit) \<in> set unitMap"
  shows "getDuration env key def = (if n * unit < 2 ^ 63 then int (n * unit) else def)"
  using assms(1) ParseDuration_whole [OF assms(2), of n] unit_text(3) [OF assms(2)]
  by (simp add: getDuration_def Getenv_def)

theorem configured_durations_witness:
  "getDuration [''ETCD_DIAL_TIMEOUT'' \<mapsto> fmt_nat 90 @ ''m''] ''ETCD_DIAL_TIMEOUT'' (5 * Second) = 5400000000000"
  using configured_durations [of "[''ETCD_DIAL_TIMEOUT'' \<mapsto> fmt_nat 90 @ ''m'']" "''ETCD_DIAL_TIMEOUT''" 90 "''m''" 60000000000 "5 * Second"]
  by (simp add: unitMap_def)

text \<open>
  the list of endpoints reads back. A list of endpoints, none empty, with a comma or with white
  space around it, that is written to the variable with commas between is the list the
  configuration has.
\<close>

theorem csv_roundtrip:
  assumes "eps \<noteq> []" and "list_all (\<lambda>ep. ep \<noteq> [] \<and> CHR '','' \<notin> set ep \<and> trimmed ep) eps"
  shows "splitCSV (sep_by (CHR '','') eps) = eps"
proof -
  have "Split (CHR '','') (sep_by (CHR '','') eps) = eps"
    using assms by (intro Split_sep_by) (auto simp: list_all_iff)
  moreover have "map TrimSpace eps = eps"
    using assms(2) by (simp add: list_all_iff TrimSpace_trimmed map_idI)
  moreover have "filter (\<lambda>p. p \<noteq> []) eps = eps"
    using assms(2) by (auto simp: list_all_iff filter_id_conv)
  moreover have "sep_by (CHR '','') eps \<noteq> []"
    using assms by (cases "(CHR '','', eps)" rule: sep_by.cases) auto
  ultimately show ?thesis by (simp add: splitCSV_def)
qed

theorem csv_roundtrip_witness:
  "splitCSV (sep_by (CHR '','') [''http://etcd-01:2379'', ''http://etcd-02:2379'']) = [''http://etcd-01:2379'', ''http://etcd-02:2379'']"
proof (rule csv_roundtrip)
  show "list_all (\<lambda>ep. ep \<noteq> [] \<and> CHR '','' \<notin> set ep \<and> trimmed ep) [''http://etcd-01:2379'', ''http://etcd-02:2379'']"
    by code_simp
qed simp

lemma getInt_int64: "in_int64 d \<Longrightarrow> in_int64 (getInt env k d)"
  using Atoi_in_range by (auto simp: getInt_def Let_def split: sum.splits)

lemma loaded_bucketCount: "Config_Load env = Inr c \<Longrightarrow> in_int64 (cfgBucketCount c)"
  using getInt_int64 [of 1024] by (auto simp: Config_Load_def load_env_def Let_def in_range_def [of 64 1024] split: if_splits)

text \<open>
  an accepted configuration is usable. If \<open>Load\<close> returns a configuration, then its mode is one of
  the two, in etcd mode there is an endpoint, no endpoint is empty or has white space around
  it, and the numbers fit their types; the address is never empty.
\<close>

theorem loaded_config_usable:
  assumes "Config_Load env = Inr c"
  shows "(cfgRegistryMode c = ''etcd'' \<and> EtcdEndpoints c \<noteq> [] \<or> cfgRegistryMode c = ''file'') \<and>
    (\<forall>ep\<in>set (EtcdEndpoints c). ep \<noteq> [] \<and> trimmed ep) \<and>
    in_int64 (cfgBucketCount c) \<and> in_range 32 (PoolMaxConns c) \<and> HTTPAddr c \<noteq> []"
proof -
  have c: "c = load_env env"
    using assms by (simp add: Config_Load_def Let_def split: if_splits)
  note getInt_int64
  moreover have "\<forall>ep\<in>set (splitCSV v). ep \<noteq> [] \<and> trimmed ep" for v
    by (auto simp: splitCSV_def trimmed_TrimSpace)
  ultimately show ?thesis
    using assms wrap_in_range [of 32]
    by (auto simp: c Config_Load_def Let_def load_env_def RegistryModeEtcd_def RegistryModeFile_def getEnv_def
        in_range_def [of 64 1024] split: if_splits)
qed

theorem loaded_config_usable_witness:
  "in_range 32 (PoolMaxConns (load_env (Map.empty(''POOL_MAX_CONNS'' \<mapsto> ''5000000000'', ''REGISTRY_MODE'' \<mapsto> ''file''))))"
proof -
  let ?env = "Map.empty(''POOL_MAX_CONNS'' \<mapsto> ''5000000000'', ''REGISTRY_MODE'' \<mapsto> ''file'')"
  have "Config_Load ?env = Inr (load_env ?env)"
    by (simp add: Config_Load_def load_env_def getEnv_def Getenv_def RegistryModeFile_def RegistryModeEtcd_def)
  from loaded_config_usable [OF this] show ?thesis by blast
qed

text \<open>
  the size of the connection pools is the number in \<open>POOL_MAX_CONNS\<close> only while it fits 32 bits.
  A larger one is cut to its low 32 bits without an error, so 4294967296 is read as zero.
\<close>

theorem pool_size_truncated:
  assumes "env ''POOL_MAX_CONNS'' = Some (fmt_int n)" and "in_int64 n" and "Config_Load env = Inr c"
  shows "PoolMaxConns c = wrap32 n"
proof -
  have "fmt_int n \<noteq> []" by (simp add: fmt_int_def)
  then have "getInt env ''POOL_MAX_CONNS'' 10 = n"
    using assms(1,2) by (simp add: getInt_def Getenv_def Atoi_fmt_int)
  with assms(3) show ?thesis
    by (auto simp: Config_Load_def load_env_def Let_def split: if_splits)
qed

theorem pool_size_truncated_witness:
  "PoolMaxConns (load_env (Map.empty(''POOL_MAX_CONNS'' \<mapsto> fmt_int 4294967296, ''REGISTRY_MODE'' \<mapsto> ''file''))) = 0"
proof -
  let ?env = "Map.empty(''POOL_MAX_CONNS'' \<mapsto> fmt_int 4294967296, ''REGISTRY_MODE'' \<mapsto> ''file'')"
  have "Config_Load ?env = Inr (load_env ?env)"
    by (simp add: Config_Load_def load_env_def getEnv_def Getenv_def RegistryModeFile_def RegistryModeEtcd_def)
  moreover have "?env ''POOL_MAX_CONNS'' = Some (fmt_int 4294967296)" by simp
  ultimately show ?thesis
    using pool_size_truncated [of ?env 4294967296] by (simp add: in_range_def wrap_def)
qed

end
