(* ===== verification/Service.thy ===== *)
theory Service
  imports Registry_Interface Config Api
begin

text \<open>
  \<open>run\<close> of \<open>cmd/shard-router/main.go\<close> up to the point where the service listens: configuration,
  registry, router, pools, server. The environment, the file system and the network are
  arguments. \<open>Lifecycle\<close> goes on from there.
\<close>

datatype run_error = BadConfig config_error | FileFailed file_error | EtcdFailed registry_error

text \<open>What runs afterwards; the etcd registry with the revision its watch starts after, if there is one.\<close>

record service =
  svcAddr :: bytes
  svcStore :: Store
  svcServer :: Server
  svcEtcd :: "(EtcdRegistry \<times> int) option"

definition etcd_config :: "AppConfig \<Rightarrow> EtcdConfig" where
  "etcd_config c = \<lparr>Endpoints = EtcdEndpoints c, DialTimeout = EtcdDialTimeout c,
     Username = EtcdUsername c, Password = EtcdPassword c, ReconcileInterval = EtcdReconcileInterval c\<rparr>"

text \<open>The registry of the configured mode, started: its store, and the etcd registry if it is one.\<close>

definition start_registry :: "((bytes \<times> BucketDef) list \<Rightarrow> (bytes \<times> BucketDef) list) \<Rightarrow> (bytes \<Rightarrow> (bytes, bytes) result)
    \<Rightarrow> 'n transport \<Rightarrow> AppConfig \<Rightarrow> 'n \<Rightarrow> (run_error, Store \<times> (EtcdRegistry \<times> int) option) result \<times> 'n" where
  "start_registry order fs http c net =
     (if cfgRegistryMode c = RegistryModeFile then
        (case start_file order (NewFileRegistry (MappingFile c)) fs of
           (Inl e, _, _) \<Rightarrow> (Inl (FileFailed e), net)
         | (Inr _, r, _) \<Rightarrow> (Inr (fstore r, None), net))
      else
        (case NewEtcdRegistry (etcd_config c) of
           Inl e \<Rightarrow> (Inl (EtcdFailed e), net)
         | Inr r \<Rightarrow>
             (case EtcdRegistry_Start http r net of
                (Inl e, _, net) \<Rightarrow> (Inl (EtcdFailed e), net)
              | (Inr rv, r, net) \<Rightarrow> (Inr (rstore r, Some (r, rv)), net))))"

definition run :: "environment \<Rightarrow> ((bytes \<times> BucketDef) list \<Rightarrow> (bytes \<times> BucketDef) list) \<Rightarrow> (bytes \<Rightarrow> (bytes, bytes) result)
    \<Rightarrow> 'n transport \<Rightarrow> 'n \<Rightarrow> (run_error, service) result \<times> 'n" where
  "run env order fs http net =
     (case Config_Load env of
        Inl e \<Rightarrow> (Inl (BadConfig e), net)
      | Inr c \<Rightarrow>
          (case start_registry order fs http c net of
             (Inl e, net) \<Rightarrow> (Inl e, net)
           | (Inr (st, etcd), net) \<Rightarrow>
               (let r = Router.New (cfgBucketCount c);
                    poolCfg = DefaultConfig\<lparr>MaxConns := PoolMaxConns c\<rparr>;
                    connPool = NewManager poolCfg NewRegistry
                in (Inr \<lparr>svcAddr = HTTPAddr c, svcStore = st, svcServer = NewServer r connPool NewMetrics, svcEtcd = etcd\<rparr>, net))))"

lemma start_registry_ready:
  assumes "start_registry order fs http c net = (Inr (st, etcd), net')"
  shows "\<exists>m. st = Some m \<and> wf_mapping m"
proof (cases "cfgRegistryMode c = RegistryModeFile")
  case True
  obtain res r fs' where "start_file order (NewFileRegistry (MappingFile c)) fs = (res, r, fs')"
    by (metis prod.exhaust)
  with True assms file_registry.start_loads [of order _ fs _ r fs'] show ?thesis
    by (cases res) (auto simp: start_registry_def)
next
  case False
  then obtain r where r: "NewEtcdRegistry (etcd_config c) = Inr r"
    using assms by (auto simp: start_registry_def split: sum.splits)
  obtain res r' n' where "EtcdRegistry_Start http r net = (res, r', n')"
    by (metis prod.exhaust)
  with False r assms etcd_registry.start_loads [of http r net _ r' n'] show ?thesis
    by (cases res) (auto simp: start_registry_def)
qed

lemma run_service:
  assumes "run env order fs http net = (Inr svc, net')"
  obtains c st etcd where "Config_Load env = Inr c" "start_registry order fs http c net = (Inr (st, etcd), net')"
    "svc = \<lparr>svcAddr = HTTPAddr c, svcStore = st, svcServer = NewServer (Router.New (cfgBucketCount c))
       (NewManager (DefaultConfig\<lparr>MaxConns := PoolMaxConns c\<rparr>) NewRegistry) NewMetrics, svcEtcd = etcd\<rparr>"
  using assms by (auto simp: run_def Let_def split: sum.splits prod.splits)

text \<open>
  the service never listens without a map. If \<open>run\<close> gets as far as listening, in either mode, then
  the store holds a well-formed map, so no request is ever answered for want of one, and the
  reaper of the pools has a valid period.
\<close>

theorem service_starts_ready:
  assumes "run env order fs http net = (Inr svc, net')"
  shows "(\<exists>m. svcStore svc = Some m \<and> wf_mapping m) \<and>
    Resolve (srvRouter (svcServer svc)) (svcStore svc) k \<noteq> Inl ErrNoMapping \<and>
    reap_period (cfg (srvPool (svcServer svc))) \<noteq> None"
proof -
  from assms obtain c st etcd where svc: "start_registry order fs http c net = (Inr (st, etcd), net')"
    "svc = \<lparr>svcAddr = HTTPAddr c, svcStore = st, svcServer = NewServer (Router.New (cfgBucketCount c))
       (NewManager (DefaultConfig\<lparr>MaxConns := PoolMaxConns c\<rparr>) NewRegistry) NewMetrics, svcEtcd = etcd\<rparr>"
    by (rule run_service)
  obtain m where m: "st = Some m" "wf_mapping m" using start_registry_ready [OF svc(1)] by blast
  then show ?thesis
    using Resolve_loaded by (simp add: svc(2) NewServer_def NewManager_def reap_period_def reap_ttl_def DefaultConfig_def Minute_def Second_def)
qed

section \<open>Service in file mode\<close>

text \<open>The environment of the documentation's local setup, with one bucket.\<close>

definition local_env :: environment where
  "local_env = [''REGISTRY_MODE'' \<mapsto> ''file'', ''BUCKET_COUNT'' \<mapsto> ''1'', ''MAPPING_FILE'' \<mapsto> ''mapping.json'']"

definition local_fs :: "bytes \<Rightarrow> (bytes, bytes) result" where
  "local_fs path = (if path = ''mapping.json'' then Inr example_file else Inl ''no such file'')"

lemma local_config: "Config_Load local_env = Inr (load_env local_env)" "MappingFile (load_env local_env) = ''mapping.json''"
  "cfgRegistryMode (load_env local_env) = RegistryModeFile" "cfgBucketCount (load_env local_env) = 1"
proof -
  have "Atoi ''1'' = Inr 1" by code_simp
  then show "Config_Load local_env = Inr (load_env local_env)" "MappingFile (load_env local_env) = ''mapping.json''"
    "cfgRegistryMode (load_env local_env) = RegistryModeFile" "cfgBucketCount (load_env local_env) = 1"
    by (simp_all add: Config_Load_def load_env_def local_env_def getEnv_def getInt_def Getenv_def RegistryModeFile_def RegistryModeEtcd_def)
qed

lemma local_load: "FileRegistry_Start (Inr example_file) id NewStore =
    (None, Some \<lparr>Revision = 1, Shards = map_of (doc_shards example_doc),
      Buckets = [0 \<mapsto> (snd (doc_buckets example_doc ! 0))\<lparr>BucketID := 0\<rparr>, 1 \<mapsto> (snd (doc_buckets example_doc ! 1))\<lparr>BucketID := 1\<rparr>,
        2 \<mapsto> (snd (doc_buckets example_doc ! 2))\<lparr>BucketID := 2\<rparr>, 3 \<mapsto> (snd (doc_buckets example_doc ! 3))\<lparr>BucketID := 3\<rparr>]\<rparr>)"
proof -
  obtain kb0 kb1 kb2 kb3 where kbs: "doc_buckets example_doc = [kb0, kb1, kb2, kb3]"
    by (simp add: example_doc_def)
  have parse: "parseBucketID (fst kb0) = Inr 0" "parseBucketID (fst kb1) = Inr 1" "parseBucketID (fst kb2) = Inr 2" "parseBucketID (fst kb3) = Inr 3"
    using parse_example unfolding kbs by simp_all
  have "fold_result insert_bucket (doc_buckets example_doc) Map.empty =
      Inr [0 \<mapsto> (snd kb0)\<lparr>BucketID := 0\<rparr>, 1 \<mapsto> (snd kb1)\<lparr>BucketID := 1\<rparr>, 2 \<mapsto> (snd kb2)\<lparr>BucketID := 2\<rparr>, 3 \<mapsto> (snd kb3)\<lparr>BucketID := 3\<rparr>]"
    unfolding kbs using parse by (cases kb0; cases kb1; cases kb2; cases kb3) simp
  then show ?thesis
    by (simp add: FileRegistry_Start_def Unmarshal_example_file Swap_def) (simp add: kbs)
qed

lemma local_run: "run local_env id local_fs http net =
    (Inr \<lparr>svcAddr = HTTPAddr (load_env local_env), svcStore = snd (FileRegistry_Start (Inr example_file) id NewStore),
       svcServer = NewServer (Router.New 1) (NewManager (DefaultConfig\<lparr>MaxConns := PoolMaxConns (load_env local_env)\<rparr>) NewRegistry) NewMetrics,
       svcEtcd = None\<rparr>, net)"
  by (simp add: run_def local_config start_registry_def start_file_def NewFileRegistry_def local_fs_def local_load)

theorem service_starts_ready_witness:
  "\<exists>svc. fst (run local_env id local_fs dead_transport ()) = Inr svc \<and> (\<exists>m. svcStore svc = Some m \<and> wf_mapping m)"
  using service_starts_ready [OF local_run [of dead_transport "()"]] by (subst local_run) (auto simp only: fst_conv)

section \<open>Reconciliation interval\<close>

lemma EtcdRegistry_Start_interval: "EtcdRegistry_Start http r net = (res, r', net') \<Longrightarrow> interval r' = interval r"
  by (auto simp: EtcdRegistry_Start_def Let_def split: prod.splits option.splits sum.splits if_splits)

text \<open>
  only zero is taken as no interval. In etcd mode a reconciliation interval of zero becomes a minute
  and a positive one is used, but a negative one, which \<open>Load\<close> accepts, goes to \<open>NewTicker\<close> as it is
  and panics the process after it has started to serve.
\<close>

theorem reconcile_interval_used:
  assumes "run env order fs http net = (Inr svc, net')" and "svcEtcd svc = Some (r, rv)"
  shows "reconcile_period r = (let d = getDuration env ''ETCD_RECONCILE_INTERVAL'' (60 * Second) in
    if d < 0 then None else if d = 0 then Some (60 * Second) else Some d)"
proof -
  from assms(1) obtain c st etcd where c: "Config_Load env = Inr c" "start_registry order fs http c net = (Inr (st, etcd), net')"
    and svc: "svc = \<lparr>svcAddr = HTTPAddr c, svcStore = st, svcServer = NewServer (Router.New (cfgBucketCount c))
       (NewManager (DefaultConfig\<lparr>MaxConns := PoolMaxConns c\<rparr>) NewRegistry) NewMetrics, svcEtcd = etcd\<rparr>"
    by (rule run_service)
  have d: "EtcdReconcileInterval c = getDuration env ''ETCD_RECONCILE_INTERVAL'' (60 * Second)"
    using c(1) by (auto simp: Config_Load_def load_env_def Let_def split: if_splits)
  have etcd: "start_registry order fs http c net = (Inr (st, Some (r, rv)), net')"
    using c(2) assms(2) by (simp add: svc)
  then have mode: "cfgRegistryMode c \<noteq> RegistryModeFile"
    by (auto simp: start_registry_def split: if_splits prod.splits sum.splits)
  then obtain r0 where r0: "NewEtcdRegistry (etcd_config c) = Inr r0"
    using etcd by (auto simp: start_registry_def split: sum.splits)
  obtain res r' n' where s: "EtcdRegistry_Start http r0 net = (res, r', n')" by (metis prod.exhaust)
  then have "r' = r" using etcd mode r0 by (auto simp: start_registry_def split: sum.splits)
  with EtcdRegistry_Start_interval [OF s] have "interval r = interval r0" by simp
  moreover have "interval r0 = (if EtcdReconcileInterval c = 0 then 60 * Second else EtcdReconcileInterval c)"
    using r0 by (auto simp: NewEtcdRegistry_def etcd_config_def Let_def Second_def split: if_splits)
  ultimately show ?thesis
    by (simp add: reconcile_period_def d Let_def) (simp add: Second_def)
qed

definition empty_transport :: "unit transport" where
  "empty_transport rq n = (Reply 200 (gateway_range [] 7), n)"

definition negative_env :: environment where
  "negative_env = [''ETCD_RECONCILE_INTERVAL'' \<mapsto> ''-1s'']"

lemma negative_config: "Config_Load negative_env = Inr (load_env negative_env)"
  "cfgRegistryMode (load_env negative_env) \<noteq> RegistryModeFile"
  "EtcdEndpoints (load_env negative_env) = [''http://127.0.0.1:2379'']" "EtcdUsername (load_env negative_env) = []"
proof -
  have "splitCSV ''http://127.0.0.1:2379'' = [''http://127.0.0.1:2379'']" by code_simp
  then show "Config_Load negative_env = Inr (load_env negative_env)" "cfgRegistryMode (load_env negative_env) \<noteq> RegistryModeFile"
    "EtcdEndpoints (load_env negative_env) = [''http://127.0.0.1:2379'']" "EtcdUsername (load_env negative_env) = []"
    by (simp_all add: Config_Load_def load_env_def negative_env_def getEnv_def Getenv_def RegistryModeFile_def RegistryModeEtcd_def)
qed

theorem reconcile_interval_used_witness:
  "\<exists>svc r rv. fst (run negative_env id local_fs empty_transport ()) = Inr svc \<and> svcEtcd svc = Some (r, rv) \<and> reconcile_period r = None"
proof -
  let ?c = "load_env negative_env"
  obtain r where r: "NewEtcdRegistry (etcd_config ?c) = Inr r" "endpoints (client r) = [''http://127.0.0.1:2379'']" "username (client r) = []"
    by (fastforce simp: NewEtcdRegistry_def etcd_config_def negative_config newEtcdClient_def Let_def)
  have "decode_range (gateway_range [] 7) = Inr ([], 7)"
    by (rule decode_gateway_range) (simp add: in_range_def)
  then obtain r' where "EtcdRegistry_Start empty_transport r () = (Inr 7, r', ())"
    using r(2,3) by (simp add: EtcdRegistry_Start_def loadAll_def rangePrefix_def postAny_def empty_transport_def)
  then have "start_registry id local_fs empty_transport ?c () = (Inr (rstore r', Some (r', 7)), ())"
    using r(1) negative_config(2) by (simp add: start_registry_def)
  then obtain svc where svc: "run negative_env id local_fs empty_transport () = (Inr svc, ())" "svcEtcd svc = Some (r', 7)"
    by (simp add: run_def negative_config(1))
  have "ParseDuration ''-1s'' = Inr (- 1000000000)" by code_simp
  then have "getDuration negative_env ''ETCD_RECONCILE_INTERVAL'' (60 * Second) < 0"
    by (simp add: getDuration_def Getenv_def negative_env_def)
  with reconcile_interval_used [OF svc] svc show ?thesis by auto
qed

end
