(* ===== verification/Lifecycle.thy ===== *)
theory Lifecycle
  imports Schedules Service
begin

text \<open>
  The process of \<open>cmd/shard-router/main.go\<close> from the moment it listens to its exit: requests and
  goroutines as in \<open>Goroutines\<close>, the signal, \<open>http.Server.Shutdown\<close> with its deadline, the deferred
  \<open>Close\<close> of the pools, and the exit code. The time of the signal and of the deadline is open: both
  can come at any step.
\<close>

section \<open>The process\<close>

text \<open>How \<open>run\<close> ends once it listens: the result of \<open>Shutdown\<close>, or the error of \<open>ListenAndServe\<close>.\<close>

datatype run_end = Clean | ShutdownTimedOut | ListenFailed

text \<open>\<open>Closing\<close> is inside \<open>Manager.Close\<close>, with its mutex locked, and with the pool it is closing if
  there is one: \<open>pgxpool\<close> refuses further connections at once and returns when all are back.\<close>

datatype phase = Listening | Draining | Closing run_end "pool option" | Exited int

record process =
  pPhase :: phase
  pSys :: system
  pAccepted :: "bytes list"

text \<open>\<open>main\<close> exits with 1 if \<open>run\<close> returns an error, before it listens or after.\<close>

definition main_exit :: "(run_error, 'a) result \<Rightarrow> int option" where
  "main_exit r = (case r of Inl _ \<Rightarrow> Some 1 | Inr _ \<Rightarrow> None)"

definition exit_code :: "run_end \<Rightarrow> int" where
  "exit_code e = (case e of Clean \<Rightarrow> 0 | _ \<Rightarrow> 1)"

text \<open>The process at the point where \<open>run\<close> starts the listener.\<close>

definition serve :: "service \<Rightarrow> process" where
  "serve svc = \<lparr>pPhase = Listening,
     pSys = \<lparr>gServer = svcServer svc, gStages = [], gLog = [], gCreated = {}, gLive = {}, gReaping = []\<rparr>, pAccepted = []\<rparr>"

text \<open>The goroutines \<open>Shutdown\<close> does not wait for: the second writes.\<close>

fun second_task :: "task \<Rightarrow> bool" where
  "second_task (SecondWrite d) = True"
| "second_task _ = False"

fun background :: "stage \<Rightarrow> bool" where
  "background (Received body) = False"
| "background (Unrouted err) = False"
| "background (Counting req res) = False"
| "background (Admitting t) = second_task t"
| "background (LookingUp t) = second_task t"
| "background (Building t) = second_task t"
| "background (Installing t p) = second_task t"
| "background (Dropping t p q) = second_task t"
| "background (Dialing t p) = second_task t"
| "background (Failing t r) = (r = None)"
| "background (Succeeding t p c) = second_task t"
| "background (Using t p c) = second_task t"
| "background (Releasing p c r) = (r = None)"
| "background (Finished r) = (r = None)"

definition drained :: "system \<Rightarrow> bool" where
  "drained s \<longleftrightarrow> (\<forall>st\<in>set (gStages s). background st \<or> (\<exists>r. st = Finished r))"

text \<open>The stages whose next step needs the manager's mutex.\<close>

fun needs_mutex :: "stage \<Rightarrow> bool" where
  "needs_mutex (LookingUp t) = True"
| "needs_mutex (Installing t p) = True"
| "needs_mutex _ = False"

definition lent :: "system \<Rightarrow> pool \<Rightarrow> bool" where
  "lent s p \<longleftrightarrow> (\<exists>st\<in>set (gStages s). \<exists>c. holds st = Some (p, c))"

definition stop_reaper :: "system \<Rightarrow> system" where
  "stop_reaper s = s\<lparr>gServer := (gServer s)\<lparr>srvPool := (srvPool (gServer s))\<lparr>stopReap := True\<rparr>\<rparr>\<rparr>"

inductive proc_step :: "('c, 'd, 's, 'v) world set \<Rightarrow> Store set \<Rightarrow> process \<Rightarrow> process \<Rightarrow> bool" for ws stores where
  accept: "pPhase x = Listening \<Longrightarrow>
    proc_step ws stores x (x\<lparr>pSys := (pSys x)\<lparr>gStages := gStages (pSys x) @ [Received body]\<rparr>, pAccepted := pAccepted x @ [body]\<rparr>)"
| goroutine: "pPhase x \<in> {Listening, Draining} \<Longrightarrow> work_step ws stores i (pSys x) s \<Longrightarrow>
    proc_step ws stores x (x\<lparr>pSys := s\<rparr>)"
| goroutine_closing: "pPhase x = Closing e pl \<Longrightarrow> work_step ws stores i (pSys x) s \<Longrightarrow> \<not> needs_mutex (gStages (pSys x) ! i) \<Longrightarrow>
    proc_step ws stores x (x\<lparr>pSys := s\<rparr>)"
| reaper: "pPhase x \<in> {Listening, Draining} \<Longrightarrow> reap_step (pSys x) s \<Longrightarrow>
    proc_step ws stores x (x\<lparr>pSys := s\<rparr>)"
| reaper_closing: "pPhase x = Closing e pl \<Longrightarrow> gReaping (pSys x) \<noteq> [] \<Longrightarrow> reap_step (pSys x) s \<Longrightarrow>
    proc_step ws stores x (x\<lparr>pSys := s\<rparr>)"
| listen_error: "pPhase x = Listening \<Longrightarrow>
    proc_step ws stores x (x\<lparr>pPhase := Closing ListenFailed None, pSys := stop_reaper (pSys x)\<rparr>)"
| signal: "pPhase x = Listening \<Longrightarrow> proc_step ws stores x (x\<lparr>pPhase := Draining\<rparr>)"
| drained: "pPhase x = Draining \<Longrightarrow> drained (pSys x) \<Longrightarrow>
    proc_step ws stores x (x\<lparr>pPhase := Closing Clean None, pSys := stop_reaper (pSys x)\<rparr>)"
| deadline: "pPhase x = Draining \<Longrightarrow>
    proc_step ws stores x (x\<lparr>pPhase := Closing ShutdownTimedOut None, pSys := stop_reaper (pSys x)\<rparr>)"
| close_pool: "pPhase x = Closing e None \<Longrightarrow> close_entry key (pools_of (pSys x), []) = (ps, [p]) \<Longrightarrow>
    proc_step ws stores x (x\<lparr>pPhase := Closing e (Some p),
      pSys := logged [PoolClosed p] ((set_pools ps (pSys x))\<lparr>gLive := gLive (pSys x) - {p}\<rparr>)\<rparr>)"
| pool_closed: "pPhase x = Closing e (Some p) \<Longrightarrow> \<not> lent (pSys x) p \<Longrightarrow>
    proc_step ws stores x (x\<lparr>pPhase := Closing e None\<rparr>)"
| exit: "pPhase x = Closing e None \<Longrightarrow> pools_of (pSys x) = Map.empty \<Longrightarrow>
    proc_step ws stores x (x\<lparr>pPhase := Exited (exit_code e)\<rparr>)"

definition proc_start :: "process \<Rightarrow> bool" where
  "proc_start x \<longleftrightarrow> pPhase x = Listening \<and> svc_start (pSys x) \<and> pAccepted x = []"

lemma serve_starts:
  assumes "run env order fs http net = (Inr svc, net')"
  shows "proc_start (serve svc)"
  using assms
  by (rule run_service)
    (simp add: proc_start_def serve_def svc_start_def pools_of_def breakers_of_def NewServer_def NewManager_def)

section \<open>Bookkeeping\<close>

lemma stop_reaper_simps [simp]: "gStages (stop_reaper s) = gStages s" "gLog (stop_reaper s) = gLog s" "gReaping (stop_reaper s) = gReaping s"
  "gCreated (stop_reaper s) = gCreated s" "gLive (stop_reaper s) = gLive s" "pools_of (stop_reaper s) = pools_of s"
  "srvRouter (gServer (stop_reaper s)) = srvRouter (gServer s)" "remaining (stop_reaper s) = remaining s"
  by (simp_all add: stop_reaper_def pools_of_def remaining_def)

lemma remaining_simps [simp]: "remaining (set_pools ps s) = remaining s" "remaining (logged es s) = remaining s"
  "remaining (s\<lparr>gLive := ls\<rparr>) = remaining s" "remaining (s\<lparr>gReaping := cl\<rparr>) = remaining s"
  by (simp_all add: remaining_def)

lemma statement_response: "statement w t c = (eff, r, ds) \<Longrightarrow> r = None \<longleftrightarrow> second_task t"
  by (cases t) (auto split: sum.splits)

lemma refusal_response [simp]: "refusal w t e = None \<longleftrightarrow> second_task t"
  by (cases t) simp_all

lemma task_of_request: "task_of req res = Some t \<Longrightarrow> \<not> second_task t"
  by (auto simp: task_of_def split: if_splits)

text \<open>A goroutine keeps its kind, and those it starts are second writes.\<close>

lemma kinds_update:
  assumes "at_stage s i st" and "gStages s' = (gStages s)[i := st'] @ map (Admitting \<circ> SecondWrite) ds" and "background st' = background st"
  shows "\<exists>k. map background (gStages s') = map background (gStages s) @ replicate k True"
  using assms by (intro exI [of _ "length ds"]) (auto simp: at_stage_def map_update list_update_same_conv map_replicate_const comp_def)

lemma kinds_move:
  assumes "at_stage s i st" and "gStages s' = (gStages s)[i := st']" and "background st' = background st"
  shows "\<exists>k. map background (gStages s') = map background (gStages s) @ replicate k True"
  using kinds_update [OF assms(1), of s' st' "[]"] assms(2,3) by simp

lemma work_kinds:
  assumes "work_step ws stores i s s'"
  shows "\<exists>k. map background (gStages s') = map background (gStages s) @ replicate k True"
  using assms
proof cases
  case (use t p c w eff r ds)
  then show ?thesis
    using statement_response [OF use(4)] by (intro kinds_update [OF use(2), of _ "Releasing p c r" ds]) auto
next
  case (count req res t)
  then show ?thesis
    using task_of_request [OF count(3)] by (intro kinds_update [OF count(2), of _ "Admitting t" "[]"]) auto
qed (hypsubst, rule kinds_move, assumption, simp, simp; fail)+

lemma work_requests:
  assumes "work_step ws stores i s s'"
  shows "length (filter (Not \<circ> background) (gStages s')) = length (filter (Not \<circ> background) (gStages s))"
proof -
  have flt: "length (filter (Not \<circ> background) xs) = length (filter Not (map background xs))" for xs
    by (simp add: filter_map)
  obtain k where "map background (gStages s') = map background (gStages s) @ replicate k True"
    using work_kinds [OF assms] by blast
  then show ?thesis unfolding flt by simp
qed

lemma work_drained:
  assumes "work_step ws stores i s s'" and "drained s"
  shows "drained s'"
  unfolding drained_def
proof
  fix st assume "st \<in> set (gStages s')"
  then obtain j where j: "j < length (gStages s')" "st = gStages s' ! j" by (auto simp: in_set_conv_nth)
  obtain k where k: "map background (gStages s') = map background (gStages s) @ replicate k True"
    using work_kinds [OF assms(1)] by blast
  have len: "length (gStages s') = length (gStages s) + k" using arg_cong [OF k, of length] by simp
  show "background st \<or> (\<exists>r. st = Finished r)"
  proof (cases "j < length (gStages s) \<and> \<not> background (gStages s ! j)")
    case True
    then obtain r where r: "gStages s ! j = Finished r" using assms(2) by (auto simp: drained_def)
    from assms(1) have "gStages s' ! j = gStages s ! j"
      by cases (use True r in \<open>auto simp: at_stage_def nth_append nth_list_update\<close>)
    with j r show ?thesis by simp
  next
    case False
    have "background st = (map background (gStages s')) ! j" using j by simp
    also have "\<dots>" using False j(1) by (auto simp: k nth_append len)
    finally show ?thesis by simp
  qed
qed

section \<open>What holds of the process\<close>

fun ends_clean :: "phase \<Rightarrow> bool" where
  "ends_clean (Closing e pl) = (e = Clean)"
| "ends_clean (Exited c) = (c = 0)"
| "ends_clean _ = False"

definition proc_inv :: "Store set \<Rightarrow> process \<Rightarrow> bool" where
  "proc_inv stores x \<longleftrightarrow> conn_inv (pSys x) \<and> sound stores (pSys x) \<and> pool_inv (pool_view (pSys x)) \<and>
     length (filter (Not \<circ> background) (gStages (pSys x))) = length (pAccepted x) \<and>
     (ends_clean (pPhase x) \<longrightarrow> drained (pSys x)) \<and>
     (\<forall>code. pPhase x = Exited code \<longrightarrow> pools_of (pSys x) = Map.empty)"

lemma pool_inv_view: "pool_view s' = pool_view s \<or> pool_step ttl (pool_view s) (pool_view s') \<Longrightarrow> pool_inv (pool_view s) \<Longrightarrow> pool_inv (pool_view s')"
  by (auto intro: pool_step_inv)

lemma pool_inv_stop: "pool_inv (pool_view s) \<Longrightarrow> pool_inv (pool_view (stop_reaper s))"
proof (erule inv_same)
  show "owns (pool_view (stop_reaper s)) o1 p \<longleftrightarrow> owns (pool_view s) o1 p" for o1 p
    by (cases o1) (simp_all add: pool_view_def)
qed simp_all

lemma pool_inv_close:
  assumes "pool_inv (pool_view s)" and "close_entry key (pools_of s, []) = (ps, [p])"
    and "s' = logged es ((set_pools ps s)\<lparr>gLive := gLive s - {p}\<rparr>)"
  shows "pool_inv (pool_view s')"
proof -
  obtain e where e: "pools_of s key = Some e" "epool e = p" "ps = (pools_of s)(key := None)"
    using assms(2) by (auto simp: close_entry_def split: option.splits)
  then have own: "owns (pool_view s) (InMap key) p" by auto
  have "readers (pool_view s') = readers (pool_view s)" by (simp add: pool_view_def assms(3) fun_eq_iff)
  then have "owns (pool_view s') o1 q \<longleftrightarrow> owns (pool_view s) o1 q \<and> q \<notin> {p}" for o1 q
    using inv_owner [OF assms(1) own, of o1] e by (cases o1) (auto simp: assms(3))
  then show ?thesis
    using assms(1) by (intro inv_released [OF assms(1), of _ "{p}"]) (auto simp: assms(3) pool_inv_def)
qed

lemma proc_inv_system:
  assumes "proc_inv stores x" and "conn_inv s" and "sound stores s" and "pool_inv (pool_view s)"
    and "length (filter (Not \<circ> background) (gStages s)) = length (filter (Not \<circ> background) (gStages (pSys x)))"
    and "drained (pSys x) \<Longrightarrow> drained s" and "\<forall>code. pPhase x \<noteq> Exited code"
  shows "proc_inv stores (x\<lparr>pSys := s\<rparr>)"
  using assms by (auto simp: proc_inv_def)

lemma proc_inv_work:
  assumes "proc_inv stores x" and "work_step ws stores i (pSys x) s" and "\<forall>code. pPhase x \<noteq> Exited code"
  shows "proc_inv stores (x\<lparr>pSys := s\<rparr>)"
  using assms(1)
  by (intro proc_inv_system)
    (auto simp: proc_inv_def assms(3) work_requests [OF assms(2)]
      intro: conn_inv_work [OF assms(2)] sound_work [OF assms(2)] work_drained [OF assms(2)] pool_inv_view [OF work_pools [OF assms(2)]])

lemma reap_stages: "reap_step s s' \<Longrightarrow> gStages s' = gStages s"
  by (induction rule: reap_step.induct) simp_all

lemma proc_inv_reap:
  assumes "proc_inv stores x" and "reap_step (pSys x) s" and "\<forall>code. pPhase x \<noteq> Exited code"
  shows "proc_inv stores (x\<lparr>pSys := s\<rparr>)"
  using assms(1)
  by (intro proc_inv_system)
    (auto simp: proc_inv_def sound_def drained_def assms(3) reap_stages [OF assms(2)]
      intro: conn_inv_reap [OF assms(2)] origin_reap [OF assms(2)] finite_pools_reap [OF assms(2)]
        pool_inv_view [OF disjI2 [OF reap_pools [OF assms(2)]]])

lemma conn_at_stages: "gStages s' = gStages s \<Longrightarrow> conn_at s' = conn_at s"
  by (simp add: conn_at_def fun_eq_iff)

lemma sound_simps [simp]: "sound stores (stop_reaper s) = sound stores s" "conn_inv (stop_reaper s) = conn_inv s" "drained (stop_reaper s) = drained s"
  using conn_at_stages [of "stop_reaper s" s] by (simp_all add: sound_def origin_inv_def finite_pools_def conn_inv_def drained_def)

lemma proc_inv_step:
  assumes "proc_step ws stores x y" and inv: "proc_inv stores x"
  shows "proc_inv stores y"
  using assms(1)
proof cases
  case (accept body)
  have "svc_step ws stores (pSys x) ((pSys x)\<lparr>gStages := gStages (pSys x) @ [Received body]\<rparr>)"
    by (rule svc_step.accept)
  from conn_inv_step [OF this] sound_runs.inv_step [OF this] show ?thesis
    using inv accept by (auto simp: proc_inv_def accept_pools)
next
  case (close_pool e key ps p)
  let ?s = "logged [PoolClosed p] ((set_pools ps (pSys x))\<lparr>gLive := gLive (pSys x) - {p}\<rparr>)"
  have "pool_inv (pool_view ?s)"
    using inv by (intro pool_inv_close [OF _ close_pool(3) refl]) (simp add: proc_inv_def)
  moreover have "conn_inv ?s"
    by (rule conn_inv_same [of "pSys x", OF _ conn_at_stages, of _ "[p]"]) (use inv in \<open>simp_all add: proc_inv_def\<close>)
  moreover have "dom ps \<subseteq> dom (pools_of (pSys x))"
    using close_pool(3) by (auto simp: close_entry_def split: option.splits if_splits)
  then have "sound stores ?s"
    using inv by (auto simp: proc_inv_def sound_def origin_inv_def finite_pools_def intro: finite_subset)
  ultimately show ?thesis
    using inv close_pool by (auto simp: proc_inv_def drained_def)
next
  case (goroutine i s)
  then show ?thesis using proc_inv_work [OF inv goroutine(3)] by auto
next
  case (goroutine_closing e pl i s)
  then show ?thesis using proc_inv_work [OF inv goroutine_closing(3)] by auto
next
  case (reaper s)
  then show ?thesis using proc_inv_reap [OF inv reaper(3)] by auto
next
  case (reaper_closing e pl s)
  then show ?thesis using proc_inv_reap [OF inv reaper_closing(4)] by auto
qed (use inv in \<open>auto simp: proc_inv_def exit_code_def pool_inv_stop split: run_end.splits\<close>)

interpretation process_runs: inductive_invariant proc_start "proc_step ws stores" "proc_inv stores" for ws stores
proof
  show "proc_start x \<Longrightarrow> proc_inv stores x" for x
  proof -
    assume start: "proc_start x"
    then have "svc_start (pSys x)" by (simp add: proc_start_def)
    then have "conn_inv (pSys x)" "sound stores (pSys x)" "sys_start (pool_view (pSys x))"
      by (auto simp: sys_start_def pool_view_def svc_start_def sound_def origin_inv_def finite_pools_def intro: conn_inv_start)
    with start show "proc_inv stores x"
      using pool_start_inv by (auto simp: proc_inv_def proc_start_def svc_start_def)
  qed
qed (rule proc_inv_step)

section \<open>After the signal\<close>

fun phase_left :: "phase \<Rightarrow> nat" where
  "phase_left Draining = 3"
| "phase_left (Closing e (Some p)) = 2"
| "phase_left (Closing e None) = 1"
| "phase_left _ = 0"

definition proc_left :: "process \<Rightarrow> nat" where
  "proc_left x = 4 * remaining (pSys x) + 3 * card (dom (pools_of (pSys x))) + length (gReaping (pSys x)) + phase_left (pPhase x)"

lemma work_dom: "work_step ws stores i s s' \<Longrightarrow> gReaping s' = gReaping s \<and> card (dom (pools_of s')) \<le> Suc (card (dom (pools_of s)))"
  by (induction rule: work_step.induct) (auto dest: lookup_dom install_dom simp: card_insert_le_m1)

lemma work_left:
  assumes "work_step ws stores i (pSys x) s"
  shows "proc_left (x\<lparr>pSys := s\<rparr>) < proc_left x"
  using work_decreases [OF assms] work_dom [OF assms] by (simp add: proc_left_def)

lemma reap_left:
  assumes "reap_step (pSys x) s" and "finite (dom (pools_of (pSys x)))"
  shows "proc_left (x\<lparr>pSys := s\<rparr>) < proc_left x"
  using assms(1)
proof cases
  case (reap ks now ps cl)
  then have "card (dom ps) + length cl = card (dom (pools_of (pSys x)))" "0 < length cl"
    using reap_dom [OF reap(5)] assms(2) by simp_all
  with reap(1,2) show ?thesis by (simp add: proc_left_def del: length_greater_0_conv)
next
  case (close_reaped p cl)
  then show ?thesis by (simp add: proc_left_def pools_of_def)
qed

lemma stopping_decreases:
  assumes "proc_inv stores x" and "pPhase x \<noteq> Listening" and "proc_step ws stores x y"
  shows "proc_left y < proc_left x"
proof -
  have fin: "finite (dom (pools_of (pSys x)))" using assms(1) by (simp add: proc_inv_def sound_def finite_pools_def)
  from assms(3) show ?thesis
  proof cases
    case (close_pool e key ps p)
    then obtain ent where "pools_of (pSys x) key = Some ent" "ps = (pools_of (pSys x))(key := None)"
      by (auto simp: close_entry_def split: option.splits)
    then have "card (dom (pools_of (pSys x))) = Suc (card (dom ps))"
      using card.remove [of "dom (pools_of (pSys x))" key] fin by (simp add: domI)
    with close_pool show ?thesis by (simp add: proc_left_def)
  qed (use assms(2) fin in \<open>auto simp: work_left reap_left\<close>, auto simp: proc_left_def)
qed

interpretation stopping: decreasing_steps "proc_step ws stores" proc_left "\<lambda>x. proc_inv stores x \<and> pPhase x \<noteq> Listening" for ws stores
proof
  show "proc_inv stores y \<and> pPhase y \<noteq> Listening" if "proc_inv stores x \<and> pPhase x \<noteq> Listening" "proc_step ws stores x y" for x y
    using that proc_inv_step [of ws stores x y] by (auto elim: proc_step.cases)
qed (auto intro: stopping_decreases)

lemma lent_enabled:
  assumes "lent s p" and "ws \<noteq> {}"
  shows "\<exists>i s'. work_step ws stores i s s' \<and> \<not> needs_mutex (gStages s ! i)"
proof -
  obtain w where w: "w \<in> ws" using assms(2) by blast
  obtain i c where st: "at_stage s i (gStages s ! i)" and h: "holds (gStages s ! i) = Some (p, c)"
    using assms(1) by (auto simp: lent_def in_set_conv_nth at_stage_def)
  have "\<exists>s'. work_step ws stores i s s'"
  proof (cases "gStages s ! i")
    case (Succeeding t q c)
    from work_step.succeed [OF st [unfolded Succeeding]] show ?thesis by blast
  next
    case (Using t q c)
    obtain eff r ds where "statement w t c = (eff, r, ds)" by (metis prod.exhaust)
    from work_step.use [OF st [unfolded Using] w this] show ?thesis by blast
  next
    case (Releasing q c r)
    from work_step.release [OF st [unfolded Releasing]] show ?thesis by blast
  qed (use h in simp_all)
  moreover have "\<not> needs_mutex (gStages s ! i)" using h by (cases "gStages s ! i") simp_all
  ultimately show ?thesis by blast
qed

lemma stopping_stuck:
  assumes "\<forall>y. \<not> proc_step ws stores x y" and "pPhase x \<noteq> Listening" and "ws \<noteq> {}"
  shows "\<exists>code. pPhase x = Exited code"
proof (cases "pPhase x")
  case Draining
  with assms(1) proc_step.deadline show ?thesis by blast
next
  case (Closing e pl)
  show ?thesis
  proof (cases pl)
    case None
    show ?thesis
    proof (cases "pools_of (pSys x) = Map.empty")
      case False
      then obtain key ent where "pools_of (pSys x) key = Some ent" by (meson not_Some_eq ext)
      then have "close_entry key (pools_of (pSys x), []) = ((pools_of (pSys x))(key := None), [epool ent])"
        by (simp add: close_entry_def)
      with assms(1) Closing None proc_step.close_pool show ?thesis by blast
    qed (use assms(1) Closing None proc_step.exit in blast)
  next
    case (Some p)
    with Closing assms(1) proc_step.pool_closed have "lent (pSys x) p" by blast
    from lent_enabled [OF this assms(3), of stores] Closing assms(1) proc_step.goroutine_closing show ?thesis by blast
  qed
qed (use assms(2) in simp_all)

text \<open>
  C19: the process comes to its end. Once the signal has come or the listener has failed, the process
  makes a bounded number of steps, linear in the goroutines and the pools there are, and stops
  only by exiting: no request, second write, reaper or pool to close can hold it up for ever,
  provided that each statement and each call of the driver returns.
\<close>

theorem shutdown_terminates:
  assumes "reach proc_start (proc_step ws stores) x" and "pPhase x \<noteq> Listening" and "ws \<noteq> {}"
    and "(proc_step ws stores ^^ n) x y"
  shows "n \<le> 80 * length (gStages (pSys x)) + 3 * card (dom (pools_of (pSys x))) + length (gReaping (pSys x)) + 3 \<and>
    ((\<exists>z. proc_step ws stores y z) \<or> (\<exists>code. pPhase y = Exited code))"
proof -
  have inv: "proc_inv stores x \<and> pPhase x \<noteq> Listening" using process_runs.inv_reach [OF assms(1)] assms(2) by blast
  have "origin_inv stores (pSys x)" using inv by (simp add: proc_inv_def sound_def)
  from remaining_bound [OF this]
  have "proc_left x \<le> 80 * length (gStages (pSys x)) + 3 * card (dom (pools_of (pSys x))) + length (gReaping (pSys x)) + 3"
    using phase_left.elims by (cases "pPhase x" rule: phase_left.cases) (simp_all add: proc_left_def)
  moreover have "n \<le> proc_left x" using stopping.run_bounded [OF inv assms(4)] by simp
  moreover have "pPhase y \<noteq> Listening"
    using stopping.steps_keep [OF relpowp_imp_rtranclp [OF assms(4)] inv] by simp
  ultimately show ?thesis using stopping_stuck [of ws stores y] assms(3) by auto
qed


section \<open>Runs\<close>

lemma serving_reach_from:
  assumes "reach I (svc_step ws stores) s" and J: "\<And>s. I s \<Longrightarrow> J \<lparr>pPhase = Listening, pSys = s, pAccepted = []\<rparr>"
  shows "\<exists>acc. reach J (proc_step ws stores) \<lparr>pPhase = Listening, pSys = s, pAccepted = acc\<rparr>"
  using assms(1)
proof (induction rule: reach.induct)
  case (reach_start s)
  then show ?case
    by (intro exI [of _ "[]"] reach.reach_start J)
next
  case (reach_step s t)
  then obtain acc where acc: "reach J (proc_step ws stores) \<lparr>pPhase = Listening, pSys = s, pAccepted = acc\<rparr>" by blast
  from reach_step(2) have "\<exists>acc'. proc_step ws stores \<lparr>pPhase = Listening, pSys = s, pAccepted = acc\<rparr> \<lparr>pPhase = Listening, pSys = t, pAccepted = acc'\<rparr>"
  proof cases
    case (accept body)
    then show ?thesis
      using proc_step.accept [of "\<lparr>pPhase = Listening, pSys = s, pAccepted = acc\<rparr>" ws stores body] by auto
  next
    case (work i)
    then show ?thesis
      using proc_step.goroutine [of "\<lparr>pPhase = Listening, pSys = s, pAccepted = acc\<rparr>" ws stores i t] by auto
  next
    case reaper
    then show ?thesis
      using proc_step.reaper [of "\<lparr>pPhase = Listening, pSys = s, pAccepted = acc\<rparr>" t ws stores] by auto
  qed
  with acc show ?case by (blast intro: reach.reach_step)
qed

lemma serving_reach:
  assumes "reach svc_start (svc_step ws stores) s"
  shows "\<exists>acc. reach proc_start (proc_step ws stores) \<lparr>pPhase = Listening, pSys = s, pAccepted = acc\<rparr>"
  using assms by (rule serving_reach_from) (simp add: proc_start_def)

text \<open>\<open>Close\<close> runs through when no connection is out.\<close>

lemma close_run:
  assumes "finite (dom (pools_of s))" and "\<And>p. \<not> lent s p"
  shows "\<exists>s' cls. rtranclp (proc_step ws stores) \<lparr>pPhase = Closing e None, pSys = s, pAccepted = acc\<rparr>
      \<lparr>pPhase = Exited (exit_code e), pSys = s', pAccepted = acc\<rparr> \<and> gStages s' = gStages s \<and> gLog s' = gLog s @ map PoolClosed cls"
  using assms
proof (induction "card (dom (pools_of s))" arbitrary: s)
  case 0
  then have "pools_of s = Map.empty" by simp
  then have "proc_step ws stores \<lparr>pPhase = Closing e None, pSys = s, pAccepted = acc\<rparr> \<lparr>pPhase = Exited (exit_code e), pSys = s, pAccepted = acc\<rparr>"
    using proc_step.exit [of "\<lparr>pPhase = Closing e None, pSys = s, pAccepted = acc\<rparr>" e ws stores] by simp
  then show ?case by (intro exI [of _ s] exI [of _ "[]"]) auto
next
  case (Suc n)
  then have "dom (pools_of s) \<noteq> {}" by (metis card.empty nat.distinct(1))
  then obtain key where key: "key \<in> dom (pools_of s)" by (meson ex_in_conv)
  from key obtain ent where k: "pools_of s key = Some ent" by (auto simp: dom_def)
  let ?s1 = "logged [PoolClosed (epool ent)] ((set_pools ((pools_of s)(key := None)) s)\<lparr>gLive := gLive s - {epool ent}\<rparr>)"
  have "close_entry key (pools_of s, []) = ((pools_of s)(key := None), [epool ent])" using k by (simp add: close_entry_def)
  then have s1: "proc_step ws stores \<lparr>pPhase = Closing e None, pSys = s, pAccepted = acc\<rparr>
      \<lparr>pPhase = Closing e (Some (epool ent)), pSys = ?s1, pAccepted = acc\<rparr>"
    using proc_step.close_pool [of "\<lparr>pPhase = Closing e None, pSys = s, pAccepted = acc\<rparr>" e key _ "epool ent" ws stores] by simp
  have lent: "\<not> lent ?s1 p" for p using Suc.prems(2) by (simp add: lent_def)
  then have s2: "proc_step ws stores \<lparr>pPhase = Closing e (Some (epool ent)), pSys = ?s1, pAccepted = acc\<rparr>
      \<lparr>pPhase = Closing e None, pSys = ?s1, pAccepted = acc\<rparr>"
    using proc_step.pool_closed [of "\<lparr>pPhase = Closing e (Some (epool ent)), pSys = ?s1, pAccepted = acc\<rparr>" e "epool ent" ws stores] by simp
  have "Suc n = Suc (card (dom (pools_of s) - {key}))"
    unfolding Suc.hyps(2) by (rule card.remove [OF Suc.prems(1) key])
  then have "n = card (dom (pools_of ?s1))" by simp
  from Suc.hyps(1) [OF this _ lent] Suc.prems(1) obtain s' cls where
    "rtranclp (proc_step ws stores) \<lparr>pPhase = Closing e None, pSys = ?s1, pAccepted = acc\<rparr> \<lparr>pPhase = Exited (exit_code e), pSys = s', pAccepted = acc\<rparr>"
    "gStages s' = gStages s" "gLog s' = gLog s @ map PoolClosed (epool ent # cls)"
    by auto
  with s1 s2 show ?case
    by (intro exI [of _ s'] exI [of _ "epool ent # cls"]) (meson converse_rtranclp_into_rtranclp)
qed

lemma drained_exit:
  assumes "reach svc_start (svc_step ws stores) s" and "drained s" and "\<And>p. \<not> lent s p"
  shows "\<exists>x cls. reach proc_start (proc_step ws stores) x \<and> pPhase x = Exited 0 \<and> gStages (pSys x) = gStages s \<and>
    gLog (pSys x) = gLog s @ map PoolClosed cls"
proof -
  obtain acc where x0: "reach proc_start (proc_step ws stores) \<lparr>pPhase = Listening, pSys = s, pAccepted = acc\<rparr>"
    using serving_reach [OF assms(1)] by blast
  have "proc_step ws stores \<lparr>pPhase = Listening, pSys = s, pAccepted = acc\<rparr> \<lparr>pPhase = Draining, pSys = s, pAccepted = acc\<rparr>"
    using proc_step.signal [of "\<lparr>pPhase = Listening, pSys = s, pAccepted = acc\<rparr>" ws stores] by simp
  moreover have "proc_step ws stores \<lparr>pPhase = Draining, pSys = s, pAccepted = acc\<rparr> \<lparr>pPhase = Closing Clean None, pSys = stop_reaper s, pAccepted = acc\<rparr>"
    using proc_step.drained [of "\<lparr>pPhase = Draining, pSys = s, pAccepted = acc\<rparr>" ws stores] assms(2) by simp
  moreover have "finite (dom (pools_of (stop_reaper s)))"
    using sound_runs.inv_reach [OF assms(1)] by (simp add: sound_def finite_pools_def)
  from close_run [OF this, of ws stores Clean acc] assms(3)
  obtain s' cls where "rtranclp (proc_step ws stores) \<lparr>pPhase = Closing Clean None, pSys = stop_reaper s, pAccepted = acc\<rparr>
      \<lparr>pPhase = Exited (exit_code Clean), pSys = s', pAccepted = acc\<rparr>" "gStages s' = gStages s" "gLog s' = gLog s @ map PoolClosed cls"
    by (auto simp: lent_def)
  ultimately show ?thesis
    using reach_steps [OF x0] by (intro exI [of _ "\<lparr>pPhase = Exited (exit_code Clean), pSys = s', pAccepted = acc\<rparr>"] exI [of _ cls])
      (auto simp: exit_code_def intro: converse_rtranclp_into_rtranclp)
qed

section \<open>What a map that stays rules out\<close>

lemma proc_router: "proc_step ws stores x y \<Longrightarrow> srvRouter (gServer (pSys y)) = srvRouter (gServer (pSys x))"
  by (induction rule: proc_step.induct) (simp_all add: work_config reap_config)

lemma proc_none_unrouted:
  assumes "proc_step ws stores x y" and "none_unrouted E (pSys x)"
    and "\<And>store key err. store \<in> stores \<Longrightarrow> Resolve (srvRouter (gServer (pSys x))) store key = Inl err \<Longrightarrow> err \<notin> E"
  shows "none_unrouted E (pSys y)"
proof -
  have "none_unrouted E s" if "work_step ws stores i (pSys x) s" for i s
    using that assms(2,3) by (rule none_unrouted_work)
  with assms(1,2) show ?thesis by cases (auto simp: none_unrouted_def reap_stages)
qed

lemma service_routes:
  assumes "reach (\<lambda>x. x = serve svc) (proc_step ws stores) x"
    and "\<And>store key err. store \<in> stores \<Longrightarrow> Resolve (srvRouter (svcServer svc)) store key = Inl err \<Longrightarrow> err \<notin> E"
  shows "srvRouter (gServer (pSys x)) = srvRouter (svcServer svc) \<and> none_unrouted E (pSys x)"
  using assms(1)
proof (induction rule: reach.induct)
  case (reach_start x)
  then show ?case by (simp add: serve_def none_unrouted_def)
next
  case (reach_step x y)
  with assms(2) show ?case using proc_none_unrouted [OF reach_step(2), of E] by (simp add: proc_router)
qed

lemma reach_from_start: "reach I step x \<Longrightarrow> (\<And>x. I x \<Longrightarrow> J x) \<Longrightarrow> reach J step x"
  by (induction rule: reach.induct) (auto intro: reach.intros)

text \<open>
  C26: a clean shutdown can lose a second write. There is a run in which a write during a migration is
  answered with 200 after the source has executed it, the signal comes, the process waits for its
  requests, closes the pools and exits with 0, and the goroutine that was to write to the
  destination has never moved.
\<close>

theorem shutdown_drops_second_write:
  "\<exists>x resp d. reach proc_start (proc_step {test_world} {test_store ''DUAL_WRITE''}) x \<and> pPhase x = Exited 0 \<and>
    gStages (pSys x) = [Finished (Some resp), Admitting (SecondWrite d)] \<and> rStatus resp = 200 \<and>
    ShardID (dwShard d) = ''shard-05'' \<and> dwSQL d = ''A'' \<and> writes_in (gLog (pSys x)) = [(''shard-01'', ''A'')]"
proof -
  obtain s resp cls where s: "reach svc_start (svc_step {test_world} {test_store ''DUAL_WRITE''}) s"
    and log: "gLog s = map PoolClosed cls @ [Connected source_shard (Writer source_shard) 7, Executed 7 ''A'' [], Released 7]"
    and stages: "gStages s = [Finished (Some resp), Admitting (SecondWrite \<lparr>dwShard = dest_shard, dwSQL = ''A'', dwArgs = []\<rparr>)]"
    and ok: "rStatus resp = 200"
    using fixture_run [of "{test_world}" "{test_store ''DUAL_WRITE''}"] by auto
  have "drained s" "\<not> lent s p" for p by (simp_all add: drained_def lent_def stages)
  from drained_exit [OF s this] obtain x cls' where x: "reach proc_start (proc_step {test_world} {test_store ''DUAL_WRITE''}) x"
      "pPhase x = Exited 0" "gStages (pSys x) = gStages s" "gLog (pSys x) = gLog s @ map PoolClosed cls'"
    by blast
  have "writes_in (gLog (pSys x)) = [(''shard-01'', ''A'')]"
    by (simp add: x(4) log writes_in_append) (simp add: source_shard_def test_shard_def)
  with x ok stages show ?thesis
    by (intro exI [of _ x] exI [of _ resp] exI [of _ "\<lparr>dwShard = dest_shard, dwSQL = ''A'', dwArgs = []\<rparr>"])
      (simp add: dest_shard_def test_shard_def)
qed


theorem shutdown_terminates_witness:
  "\<exists>x y. pPhase x = Draining \<and> length (gStages (pSys x)) = 2 \<and> rtranclp (proc_step {test_world} {test_store ''DUAL_WRITE''}) x y \<and>
    (\<exists>code. pPhase y = Exited code)"
proof -
  let ?step = "proc_step {test_world} {test_store ''DUAL_WRITE''}"
  obtain s where s: "reach svc_start (svc_step {test_world} {test_store ''DUAL_WRITE''}) s" and len: "length (gStages s) = 2"
    using fixture_run [of "{test_world}" "{test_store ''DUAL_WRITE''}"] by auto
  obtain acc where x0: "reach proc_start ?step \<lparr>pPhase = Listening, pSys = s, pAccepted = acc\<rparr>"
    using serving_reach [OF s] by blast
  have "?step \<lparr>pPhase = Listening, pSys = s, pAccepted = acc\<rparr> \<lparr>pPhase = Draining, pSys = s, pAccepted = acc\<rparr>"
    using proc_step.signal [of "\<lparr>pPhase = Listening, pSys = s, pAccepted = acc\<rparr>"] by simp
  with x0 have x: "reach proc_start ?step \<lparr>pPhase = Draining, pSys = s, pAccepted = acc\<rparr>" by (rule reach.reach_step)
  then have "proc_inv {test_store ''DUAL_WRITE''} \<lparr>pPhase = Draining, pSys = s, pAccepted = acc\<rparr> \<and>
      pPhase \<lparr>pPhase = Draining, pSys = s, pAccepted = acc\<rparr> \<noteq> Listening"
    using process_runs.inv_reach [OF x] by simp
  from stopping.run_to_end [OF this]
  obtain y where y: "rtranclp ?step \<lparr>pPhase = Draining, pSys = s, pAccepted = acc\<rparr> y" "\<forall>z. \<not> ?step y z"
    by blast
  obtain n where "(?step ^^ n) \<lparr>pPhase = Draining, pSys = s, pAccepted = acc\<rparr> y"
    using rtranclp_imp_relpowp [OF y(1)] by blast
  from shutdown_terminates [OF x _ _ this] y(2) have "\<exists>code. pPhase y = Exited code" by simp
  with y(1) len show ?thesis by (intro exI [of _ "\<lparr>pPhase = Draining, pSys = s, pAccepted = acc\<rparr>"] exI [of _ y]) simp
qed

end
