(* ===== verification/Reports.thy ===== *)
theory Reports
  imports Schedules
begin

text \<open>
  The circuit breakers of the running service: whatever goroutines interleave, a breaker sees a
  sequence of calls, each admission is answered by one report, and so the theorems of \<open>Breaker\<close>
  about sequences of calls hold of the breakers of the service.
\<close>

section \<open>Counting admissions and reports\<close>

text \<open>The shard whose breaker has let a goroutine in and has not heard from it yet.\<close>

fun pending :: "stage \<Rightarrow> bytes option" where
  "pending (LookingUp t) = Some (task_sid t)"
| "pending (Building t) = Some (task_sid t)"
| "pending (Installing t p) = Some (task_sid t)"
| "pending (Dropping t p q) = Some (task_sid t)"
| "pending (Dialing t p) = Some (task_sid t)"
| "pending (Failing t r) = Some (task_sid t)"
| "pending (Succeeding t p c) = Some (task_sid t)"
| "pending _ = None"

definition in_flight :: "bytes \<Rightarrow> system \<Rightarrow> nat" where
  "in_flight sid s = length (filter (\<lambda>st. pending st = Some sid) (gStages s))"

definition ops_on :: "bytes \<Rightarrow> (bytes \<times> op) list \<Rightarrow> op list" where
  "ops_on sid calls = map snd (filter (\<lambda>c. fst c = sid) calls)"

definition admitted :: "op list \<Rightarrow> nat" where
  "admitted ops = length (filter (\<lambda>r. r = None) (allow_results ops Breaker.New))"

fun is_report :: "op \<Rightarrow> bool" where
  "is_report (OpAllow now) = False"
| "is_report _ = True"

definition reported :: "op list \<Rightarrow> nat" where
  "reported ops = length (filter is_report ops)"

definition accounts :: "system \<Rightarrow> (bytes \<times> op) list \<Rightarrow> bool" where
  "accounts s calls \<longleftrightarrow> breakers_of s = fold registry_op calls NewRegistry \<and>
     (\<forall>sid. admitted (ops_on sid calls) = reported (ops_on sid calls) + in_flight sid s)"

lemma ops_on_snoc: "ops_on sid (calls @ [c]) = ops_on sid calls @ (if fst c = sid then [snd c] else [])"
  by (simp add: ops_on_def)

lemma allow_results_append: "allow_results (xs @ ys) b = allow_results xs b @ allow_results ys (fold apply_op xs b)"
  by (induction xs b rule: allow_results.induct) simp_all

definition granted :: "op \<Rightarrow> Breaker \<Rightarrow> nat" where
  "granted op b = (case op of OpAllow now \<Rightarrow> of_bool (fst (Allow now b) = None) | _ \<Rightarrow> 0)"

lemma admitted_snoc: "admitted (ops @ [op]) = admitted ops + granted op (fold apply_op ops Breaker.New)"
  by (cases op) (simp_all add: admitted_def granted_def allow_results_append)

lemma reported_snoc: "reported (ops @ [op]) = reported ops + of_bool (is_report op)"
  by (simp add: reported_def)

lemma breaker_of_calls: "breaker_of (fold registry_op calls NewRegistry) sid = fold apply_op (ops_on sid calls) Breaker.New"
  unfolding ops_on_def by (rule breakers_are_independent)

section \<open>Steps\<close>

lemma in_flight_update:
  assumes "at_stage s i st" and "gStages s' = (gStages s)[i := st'] @ map (Admitting \<circ> SecondWrite) ds"
  shows "in_flight sid s' + of_bool (pending st = Some sid) = in_flight sid s + of_bool (pending st' = Some sid)"
  unfolding in_flight_def by (rule stage_count [OF assms]) simp

lemma accounts_stay:
  assumes "accounts s calls" and "at_stage s i st" and "gStages s' = (gStages s)[i := st'] @ map (Admitting \<circ> SecondWrite) ds"
    and "breakers_of s' = breakers_of s" and "pending st' = pending st"
  shows "accounts s' calls"
  using assms(1,4,5) in_flight_update [OF assms(2,3)] by (simp add: accounts_def)

lemma accounts_call:
  assumes "accounts s calls" and "at_stage s i st" and "gStages s' = (gStages s)[i := st']"
    and "breakers_of s' = registry_op (sid, op) (breakers_of s)"
    and "\<And>x. granted op (breaker_of (breakers_of s) sid) * of_bool (x = sid) + of_bool (pending st = Some x) =
      of_bool (is_report op \<and> x = sid) + of_bool (pending st' = Some x)"
  shows "accounts s' (calls @ [(sid, op)])"
  unfolding accounts_def
proof (intro conjI allI)
  show "breakers_of s' = fold registry_op (calls @ [(sid, op)]) NewRegistry"
    using assms(1,4) by (simp add: accounts_def)
  fix x
  have eq: "in_flight x s' + of_bool (pending st = Some x) = in_flight x s + of_bool (pending st' = Some x)"
    using in_flight_update [OF assms(2), of s' st' "[]" x] assms(3) by simp
  have "breaker_of (breakers_of s) sid = fold apply_op (ops_on sid calls) Breaker.New"
    using assms(1) breaker_of_calls by (simp add: accounts_def)
  moreover have "admitted (ops_on x calls) = reported (ops_on x calls) + in_flight x s"
    using assms(1) by (simp add: accounts_def)
  ultimately show "admitted (ops_on x (calls @ [(sid, op)])) = reported (ops_on x (calls @ [(sid, op)])) + in_flight x s'"
    using eq assms(5) [of x] by (cases "x = sid") (simp_all add: ops_on_snoc admitted_snoc reported_snoc)
qed

text \<open>A breaker a goroutine has to report to is there.\<close>

lemma pending_known:
  assumes "accounts s calls" and "at_stage s i st" and "pending st = Some sid"
  shows "breakers_of s sid \<noteq> None"
proof -
  have "st \<in> set (gStages s)" using assms(2) by (auto simp: at_stage_def)
  then have "0 < in_flight sid s" using assms(3) by (auto simp: in_flight_def filter_empty_conv)
  then have "0 < admitted (ops_on sid calls)" using assms(1) by (simp add: accounts_def)
  then have "ops_on sid calls \<noteq> []" by (auto simp: admitted_def)
  then have "sid \<in> fst ` set calls" by (auto simp: ops_on_def filter_empty_conv)
  then have "sid \<in> dom (breakers_of s)" using assms(1) by (simp add: accounts_def dom_registry_run)
  then show ?thesis by auto
qed

lemma registry_allow:
  "Allow now (breaker_of (For sid r) sid) = (e, b) \<Longrightarrow> on_breaker sid (\<lambda>_. b) (For sid r) = registry_op (sid, OpAllow now) r"
  by (auto simp: registry_op_def on_breaker_def For_def breaker_of_def split: option.splits)

lemma registry_report:
  "r sid \<noteq> None \<Longrightarrow> on_breaker sid (Failure now) r = registry_op (sid, OpFailure now) r"
  "r sid \<noteq> None \<Longrightarrow> on_breaker sid Success r = registry_op (sid, OpSuccess) r"
  by (auto simp: registry_op_def For_def on_breaker_def)

lemma breakers_simps [simp]: "breakers_of (set_breakers bs s) = bs" "breakers_of (move i st s) = breakers_of s"
  "breakers_of (set_pools ps s) = breakers_of s" "breakers_of (logged es s) = breakers_of s" "breakers_of (set_metrics f s) = breakers_of s"
  "breakers_of (s\<lparr>gStages := sts\<rparr>) = breakers_of s" "breakers_of (s\<lparr>gLive := ls\<rparr>) = breakers_of s"
  "breakers_of (s\<lparr>gCreated := cs, gLive := ls\<rparr>) = breakers_of s" "breakers_of (s\<lparr>gReaping := cl\<rparr>) = breakers_of s"
  "breakers_of (s\<lparr>gReaping := cl, gLive := ls\<rparr>) = breakers_of s"
  by (simp_all add: breakers_of_def set_breakers_def set_pools_def set_metrics_def move_def logged_def)

lemma accounts_work:
  assumes "work_step ws stores i s s'" and inv: "accounts s calls"
  shows "\<exists>calls'. accounts s' calls'"
  using assms(1)
proof cases
  case (deny t w bs now e b)
  have "granted (OpAllow now) (breaker_of (breakers_of s) (task_sid t)) = 0"
    using deny(4,5) by (simp add: granted_def breaker_of_For)
  with deny show ?thesis
    by (intro exI [of _ "calls @ [(task_sid t, OpAllow now)]"] accounts_call [OF inv deny(2)]) (auto simp: registry_allow)
next
  case (allow t bs now b)
  have "granted (OpAllow now) (breaker_of (breakers_of s) (task_sid t)) = 1"
    using allow(3,4) by (simp add: granted_def breaker_of_For)
  with allow show ?thesis
    by (intro exI [of _ "calls @ [(task_sid t, OpAllow now)]"] accounts_call [OF inv allow(2)]) (auto simp: registry_allow)
next
  case (fail t r now)
  with pending_known [OF inv fail(2)] show ?thesis
    by (intro exI [of _ "calls @ [(task_sid t, OpFailure now)]"] accounts_call [OF inv fail(2)])
      (auto simp: registry_report granted_def)
next
  case (succeed t p c)
  with pending_known [OF inv succeed(2)] show ?thesis
    by (intro exI [of _ "calls @ [(task_sid t, OpSuccess)]"] accounts_call [OF inv succeed(2)])
      (auto simp: registry_report granted_def)
next
  case (use t p c w eff r ds)
  then show ?thesis
    by (intro exI [of _ calls] accounts_stay [OF inv use(2), of _ "Releasing p c r" ds]) simp_all
next
  case (build t w p)
  then show ?thesis
    by (intro exI [of _ calls] accounts_stay [OF inv build(2), of _ "Installing t p" "[]"]) (simp_all add: breakers_of_def)
qed (hypsubst, rule exI [of _ calls], rule accounts_stay [OF inv, where ds = "[]"], assumption, simp, simp, simp; fail)+

lemma accounts_step:
  assumes "svc_step ws stores s s'" and "accounts s calls"
  shows "\<exists>calls'. accounts s' calls'"
  using assms(1)
proof cases
  case (accept body)
  with assms(2) show ?thesis by (intro exI [of _ calls]) (simp add: accounts_def in_flight_def)
next
  case (work i)
  then show ?thesis using assms(2) by (rule accounts_work)
next
  case reaper
  then have "gStages s' = gStages s" "breakers_of s' = breakers_of s" by (cases, simp, simp)+
  with assms(2) show ?thesis by (intro exI [of _ calls]) (simp add: accounts_def in_flight_def)
qed



end
