(* ===== verification/Counting.thy ===== *)
theory Counting
  imports Schedules
begin

text \<open>
  The metrics of the running service: \<open>handleQuery\<close> counts a request once, when it has been routed or
  could not be, whatever other goroutines do meanwhile; second writes are not counted. The
  counters are those of \<open>Metrics\<close>, so \<open>/metrics\<close> shows the requests that got past decoding.
\<close>

section \<open>Requests that have been counted\<close>

fun request_task :: "task \<Rightarrow> bool" where
  "request_task (SecondWrite d) = False"
| "request_task _ = True"

text \<open>An answer other than 400, which is what a request gets that is not counted.\<close>

definition answered :: "response option \<Rightarrow> bool" where
  "answered r \<longleftrightarrow> (\<exists>resp. r = Some resp \<and> rStatus resp \<noteq> 400)"

fun tallied :: "stage \<Rightarrow> bool" where
  "tallied (Received body) = False"
| "tallied (Unrouted err) = False"
| "tallied (Counting req res) = False"
| "tallied (Admitting t) = request_task t"
| "tallied (LookingUp t) = request_task t"
| "tallied (Building t) = request_task t"
| "tallied (Installing t p) = request_task t"
| "tallied (Dropping t p q) = request_task t"
| "tallied (Dialing t p) = request_task t"
| "tallied (Failing t r) = answered r"
| "tallied (Succeeding t p c) = request_task t"
| "tallied (Using t p c) = request_task t"
| "tallied (Releasing p c r) = answered r"
| "tallied (Finished r) = answered r"

lemma answered_refusal [simp]: "answered (refusal w t e) = request_task t"
  by (cases t) (simp_all add: answered_def)

lemma answered_statement: "statement w t c = (eff, r, ds) \<Longrightarrow> answered r = request_task t"
  by (cases t) (auto simp: answered_def read_response_status split: sum.splits if_splits)

lemma answered_invalid: "decode_query w body = Inl resp \<Longrightarrow> \<not> answered (Some resp)"
  by (auto simp: decode_query_def answered_def split: sum.splits if_splits)

lemma answered_unrouted: "answered (Some (writeRouterError pr err))"
  by (cases err) (simp_all add: answered_def writeRouterError_status)

lemma request_task_of: "task_of req res = Some t \<Longrightarrow> request_task t"
  by (auto simp: task_of_def split: if_splits)

section \<open>Steps\<close>

text \<open>What the counters have been through: one operation for each counted request, and each routed one
  after the route that one of the maps gave it.\<close>

definition tally :: "Store set \<Rightarrow> system \<Rightarrow> metric_op list \<Rightarrow> bool" where
  "tally stores s ops \<longleftrightarrow> srvMetrics (gServer s) = fold apply_metric ops NewMetrics \<and>
     length ops = length (filter tallied (gStages s)) \<and>
     (\<forall>sid b. Routed sid b \<in> set ops \<longrightarrow> (\<exists>store\<in>stores. \<exists>key res. Resolve (srvRouter (gServer s)) store key = Inr res \<and>
        sid = ShardID (ReadShard res) \<and> b = ResBucketID res))"

lemma tally_stays:
  assumes "tally stores s ops" and "at_stage s i st" and "gStages s' = (gStages s)[i := st'] @ map (Admitting \<circ> SecondWrite) ds"
    and "tallied st' = tallied st" and "srvMetrics (gServer s') = srvMetrics (gServer s)" and "srvRouter (gServer s') = srvRouter (gServer s)"
  shows "tally stores s' ops"
  using assms(1,4-6) stage_count [OF assms(2,3), of tallied] by (simp add: tally_def)

lemma tally_counts:
  assumes "tally stores s ops" and "at_stage s i st" and "gStages s' = (gStages s)[i := st']"
    and "tallied st' \<and> \<not> tallied st" and "srvMetrics (gServer s') = apply_metric x (srvMetrics (gServer s))"
    and "srvRouter (gServer s') = srvRouter (gServer s)"
    and "\<And>sid b. x = Routed sid b \<Longrightarrow> \<exists>store\<in>stores. \<exists>key res. Resolve (srvRouter (gServer s)) store key = Inr res \<and>
        sid = ShardID (ReadShard res) \<and> b = ResBucketID res"
  shows "tally stores s' (ops @ [x])"
  using assms(1,4-7) stage_count [OF assms(2), of s' st' "[]" tallied] assms(3) by (auto simp: tally_def)

lemma metrics_simps [simp]: "srvMetrics (gServer (set_breakers bs s)) = srvMetrics (gServer s)"
  "srvMetrics (gServer (set_pools ps s)) = srvMetrics (gServer s)"
  "srvMetrics (gServer (set_metrics f s)) = f (srvMetrics (gServer s))"
  by (simp_all add: set_breakers_def set_pools_def set_metrics_def)

lemma tally_work:
  assumes "work_step ws stores i s s'" and inv: "tally stores s ops" and orig: "origin_inv stores s"
  shows "\<exists>ops'. tally stores s' ops'"
  using assms(1)
proof cases
  case (invalid body w resp)
  then show ?thesis
    using answered_invalid [OF invalid(4)]
    by (intro exI [of _ ops] tally_stays [OF inv invalid(2), of _ "Finished (Some resp)" "[]"]) simp_all
next
  case (count_error err w)
  then show ?thesis
    by (intro exI [of _ "ops @ [Failed]"] tally_counts [OF inv count_error(2),
        of _ "Finished (Some (writeRouterError (Printable w) err))"]) (simp_all add: answered_unrouted)
next
  case (count req res t)
  from stage_at_ok [OF orig count(2)] obtain store where "store \<in> stores" "Resolve (srvRouter (gServer s)) store (qShardKey req) = Inr res"
    by auto
  then show ?thesis
    using count request_task_of [OF count(3)]
    by (intro exI [of _ "ops @ [Routed (ShardID (ReadShard res)) (ResBucketID res)]"] tally_counts [OF inv count(2), of _ "Admitting t"]) auto
next
  case (use t p c w eff r ds)
  then show ?thesis
    using answered_statement [OF use(4)]
    by (intro exI [of _ ops] tally_stays [OF inv use(2), of _ "Releasing p c r" ds]) simp_all
qed (hypsubst, rule exI [of _ ops], rule tally_stays [OF inv, where ds = "[]"], assumption, simp, simp, simp, simp; fail)+

lemma tally_step:
  assumes "svc_step ws stores s s'" and "tally stores s ops" and "origin_inv stores s"
  shows "\<exists>ops'. tally stores s' ops'"
  using assms(1)
proof cases
  case (accept body)
  with assms(2) show ?thesis by (intro exI [of _ ops]) (simp add: tally_def)
next
  case (work i)
  then show ?thesis using assms(2,3) by (rule tally_work)
next
  case reaper
  then have "gStages s' = gStages s" "srvMetrics (gServer s') = srvMetrics (gServer s)" by (cases, simp, simp)+
  with assms(2) reap_config [OF reaper] show ?thesis by (intro exI [of _ ops]) (simp add: tally_def)
qed



end
