(* ===== verification/Live.thy ===== *)
theory Live
  imports Schedules Registry_Sync
begin

text \<open>
  The service beside the registry that feeds it, as \<open>run\<close> of \<open>cmd/shard-router/main.go\<close> starts them:
  etcd, the loops of the registry and the goroutines of the API, which share nothing but the
  store. Every request is routed by the map that is in the store when it gets there.
\<close>

section \<open>The two halves side by side\<close>

text \<open>\<open>R\<close> are the steps of etcd and of the registry's loops.\<close>

inductive live_step :: "(sync \<Rightarrow> sync \<Rightarrow> bool) \<Rightarrow> ('c, 'd, 's, 'v) world set \<Rightarrow> sync \<times> system \<Rightarrow> sync \<times> system \<Rightarrow> bool" for R ws where
  registry: "R r r' \<Longrightarrow> live_step R ws (r, s) (r', s)"
| service: "svc_step ws {sstore r} s s' \<Longrightarrow> live_step R ws (r, s) (r, s')"

text \<open>After \<open>Start\<close> of the registry, before the first request.\<close>

definition live_start :: "(bytes \<times> bytes) list \<Rightarrow> int \<Rightarrow> sync \<times> system \<Rightarrow> bool" where
  "live_start kvs0 r0 x \<longleftrightarrow> sync_start kvs0 r0 (fst x) \<and> svc_start (snd x)"

lemma work_step_mono: "work_step ws stores i s s' \<Longrightarrow> stores \<subseteq> stores' \<Longrightarrow> work_step ws stores' i s s'"
  by (induction rule: work_step.induct) (auto intro: work_step.intros)

lemma svc_step_mono: "svc_step ws stores s s' \<Longrightarrow> stores \<subseteq> stores' \<Longrightarrow> svc_step ws stores' s s'"
  by (induction rule: svc_step.induct) (auto intro: svc_step.intros work_step_mono)

text \<open>Each half is a run of its own, so what is proved of one of them holds beside the other.\<close>

lemma live_parts:
  assumes "reach (live_start kvs0 r0) (live_step R ws) x"
  shows "reach (sync_start kvs0 r0) R (fst x) \<and> reach svc_start (svc_step ws UNIV) (snd x)"
  using assms
proof (induction rule: reach.induct)
  case (reach_start x)
  then show ?case by (auto simp: live_start_def intro: reach.reach_start)
next
  case (reach_step x y)
  from reach_step(2) show ?case
    by cases (use reach_step.IH in \<open>auto intro: reach.reach_step svc_step_mono\<close>)
qed

section \<open>Requests follow etcd\<close>

text \<open>The maps that show what etcd has held at some revision up to now.\<close>

definition shown :: "(bytes \<times> bytes) list \<Rightarrow> sync \<Rightarrow> Mapping set" where
  "shown kvs0 r = {m. \<exists>k\<le>length (elog r). represents (keys_at (map_of kvs0) (take k (elog r))) m}"

lemma routed_task_mono: "routed_task r stores t \<Longrightarrow> stores \<subseteq> stores' \<Longrightarrow> routed_task r stores' t"
  by (induction rule: routed_task.induct) (auto intro: routed_task.intros)

lemma stage_ok_mono: "stage_ok r stores st \<Longrightarrow> stores \<subseteq> stores' \<Longrightarrow> stage_ok r stores' st"
  by (cases st) (auto intro: routed_task_mono)

lemma origin_inv_mono: "origin_inv stores s \<Longrightarrow> stores \<subseteq> stores' \<Longrightarrow> origin_inv stores' s"
  unfolding origin_inv_def list_all_iff by (meson routed_task_mono stage_ok_mono)

lemma shown_grows: "watch_sync_step kvs0 r0 r r' \<Longrightarrow> shown kvs0 r \<subseteq> shown kvs0 r'"
proof (induction rule: watch_sync_step.induct)
  case (etcd_event r ev)
  then show ?case
    by (auto simp: shown_def) (metis diff_is_0_eq' le_SucI append_Nil2 take0 take_append)
qed (auto simp: shown_def)

lemma live_follows:
  assumes "0 < r0" and "distinct (map fst kvs0)" and "unambiguous (map_of kvs0)"
    and "reach (live_start kvs0 r0) (live_step (watch_sync_step kvs0 r0) ws) x"
  shows "origin_inv (Some ` shown kvs0 (fst x)) (snd x)"
  using assms(4)
proof (induction rule: reach.induct)
  case (reach_start x)
  then show ?case by (simp add: live_start_def svc_start_def origin_inv_def)
next
  case (reach_step x y)
  from reach_step(2) show ?case
  proof cases
    case (registry r r' s)
    then show ?thesis
      using reach_step.IH shown_grows [OF registry(3)] by (auto elim!: origin_inv_mono)
  next
    case (service r s s')
    have "reach (sync_start kvs0 r0) (watch_sync_step kvs0 r0) r"
      using live_parts [OF reach_step(1)] service(1) by simp
    from watch_reach_inv [OF assms(1-3) this]
    have "{sstore r} \<subseteq> Some ` shown kvs0 r" by (auto simp: shown_def watch_inv_def exact_def)
    from svc_step_mono [OF service(3) this] reach_step.IH show ?thesis
      using service(1,2) by (simp add: origin_step)
  qed
qed


section \<open>Requests always find a map\<close>


section \<open>A run\<close>

definition live_shard :: "bytes \<Rightarrow> bytes" where
  "live_shard sid = quoted (''{`status`:`ACTIVE`,`writer`:{`host`:`pg-'' @ sid @ ''-rw.internal`,`port`:6432,`database`:`payment`},'' @
     ''`reader`:{`host`:`pg-'' @ sid @ ''-ro.internal`,`port`:6432,`database`:`payment`}}'')"

definition live_kvs :: "(bytes \<times> bytes) list" where
  "live_kvs = [(''/sharding/shards/shard-01'', live_shard ''shard-01''), (''/sharding/shards/shard-05'', live_shard ''shard-05''),
     (''/sharding/buckets/0'', quoted ''{`shard_id`:`shard-01`,`dest_shard_id`:`shard-05`,`state`:`DUAL_WRITE`}'')]"

lemma live_values:
  "shard_val ''shard-01'' (live_shard ''shard-01'') = Some (test_shard ''shard-01'' ''ACTIVE'')"
  "shard_val ''shard-05'' (live_shard ''shard-05'') = Some (test_shard ''shard-05'' ''ACTIVE'')"
  "bucket_val 0 (quoted ''{`shard_id`:`shard-01`,`dest_shard_id`:`shard-05`,`state`:`DUAL_WRITE`}'') = Some (test_bucket ''DUAL_WRITE'')"
  "shardIDFromKey ''/sharding/shards/shard-01'' = Some ''shard-01''" "shardIDFromKey ''/sharding/shards/shard-05'' = Some ''shard-05''"
  "bucketIDFromKey ''/sharding/buckets/0'' = Some 0" "distinct_buckets live_kvs" "distinct (map fst live_kvs)"
  by (code_simp, code_simp, code_simp, code_simp, code_simp, code_simp, code_simp, code_simp)

lemma live_mapping: "build_mapping live_kvs 1 = test_mapping ''ACTIVE'' ''ACTIVE'' ''DUAL_WRITE''"
  using applyKV_shard_put [OF live_values(4)] applyKV_shard_put [OF live_values(5)] applyKV_bucket_put [OF live_values(6)] live_values(1-3)
  by (simp add: build_mapping_def live_kvs_def empty_mapping_def test_mapping_def)

definition live_loaded :: sync where
  "live_loaded = \<lparr>elog = [], sstore = test_store ''DUAL_WRITE'', wpos = 0, wnext = None, rnext = None\<rparr>"

lemma live_lift:
  assumes "reach svc_start (svc_step ws {test_store ''DUAL_WRITE''}) s"
  shows "reach (live_start live_kvs 1) (live_step R ws) (live_loaded, s)"
  using assms
proof (induction rule: reach.induct)
  case (reach_start s)
  then show ?case
    by (intro reach.reach_start) (simp add: live_start_def sync_start_def live_loaded_def live_mapping test_store_def)
next
  case (reach_step s s')
  from reach_step(2) have "live_step R ws (live_loaded, s) (live_loaded, s')"
    by (intro live_step.service) (simp add: live_loaded_def)
  with reach_step.IH show ?case by (rule reach.reach_step)
qed



end
