(* ===== verification/Loops.thy ===== *)
theory Loops
  imports Registry_Sync Pool
begin

text \<open>
  The two loops of \<open>internal/registry/etcd.go\<close> in time: when they look at the context, how long
  they sleep, and that they end. \<open>Registry_Sync\<close> runs \<open>watchLoop\<close> for a number of rounds; here the
  number follows from the moment the context is canceled. How long a stream or a load lasts is an
  argument, cut off by the cancellation, which aborts the request.
\<close>

section \<open>Context and clock\<close>

text \<open>The moment a context is canceled, if it ever is.\<close>

type_synonym cancellation = "time option"

definition canceled :: "cancellation \<Rightarrow> time \<Rightarrow> bool" where
  "canceled c now \<longleftrightarrow> (case c of None \<Rightarrow> False | Some t \<Rightarrow> t \<le> now)"

text \<open>The end of a request that would last until \<open>u\<close>.\<close>

definition cut_off :: "cancellation \<Rightarrow> time \<Rightarrow> time \<Rightarrow> time" where
  "cut_off c now u = (case c of None \<Rightarrow> u | Some t \<Rightarrow> min u (max now t))"

text \<open>Whether the sleep ran its course, and when it ended. With both channels of the \<open>select\<close> ready at
  once the code takes either; the loop ends there in both cases.\<close>

definition sleepOrDone :: "cancellation \<Rightarrow> time \<Rightarrow> duration \<Rightarrow> bool \<times> time" where
  "sleepOrDone c now d =
     (case c of
        None \<Rightarrow> (True, now + d)
      | Some t \<Rightarrow> if t \<le> now + d then (False, max now t) else (True, now + d))"

section \<open>The watch loop\<close>

text \<open>Rounds made so far, time, state. A round that cannot open the watch sleeps and starts again
  like one whose stream has ended. \<open>None\<close> is a loop that never ends.\<close>

partial_function (option) watch_until ::
  "((bytes \<rightharpoonup> ShardDef) \<Rightarrow> bytes list) \<Rightarrow> ((int \<rightharpoonup> BucketDef) \<Rightarrow> int list) \<Rightarrow> 'n transport \<Rightarrow> etcdClient
     \<Rightarrow> cancellation \<Rightarrow> (nat \<Rightarrow> duration) \<Rightarrow> nat \<Rightarrow> time \<Rightarrow> (Store \<times> int) \<times> 'n \<Rightarrow> (nat \<times> time \<times> ((Store \<times> int) \<times> 'n)) option" where
  "watch_until ko bo http cl c took k now s =
     (if canceled c now then Some (k, now, s)
      else (case sleepOrDone c (cut_off c now (now + took k)) Second of
              (slept, now') \<Rightarrow>
                if slept then watch_until ko bo http cl c took (Suc k) now' (watch_round ko bo http cl s)
                else Some (Suc k, now', watch_round ko bo http cl s)))"

section \<open>The reconciliation loop\<close>

text \<open>A ticker with period \<open>d\<close> fires at every multiple of it and keeps one tick for a slow receiver:
  the time the next tick is received and its number, if the last one received was number \<open>j\<close>.\<close>

definition next_tick :: "duration \<Rightarrow> time \<Rightarrow> time \<Rightarrow> int \<Rightarrow> time \<times> int" where
  "next_tick d start now j =
     (if start + (j + 1) * d \<le> now then (now, (now - start) div d) else (start + (j + 1) * d, j + 1))"

text \<open>The times of the loads made, with the state they leave.\<close>

partial_function (option) reconcile_until ::
  "'n transport \<Rightarrow> cancellation \<Rightarrow> duration \<Rightarrow> (nat \<Rightarrow> duration) \<Rightarrow> time \<Rightarrow> time list \<Rightarrow> time \<Rightarrow> int \<Rightarrow> etcdClient \<times> 'n \<times> Store
     \<Rightarrow> (time list \<times> (etcdClient \<times> 'n \<times> Store)) option" where
  "reconcile_until http c d took start loads now j s =
     (case next_tick d start now j of (tick, j') \<Rightarrow>
        if canceled c tick then Some (loads, s)
        else reconcile_until http c d took start (loads @ [tick]) (cut_off c tick (tick + took (length loads))) j'
               (case s of (cl, net, st) \<Rightarrow> reconcile http cl net st))"

section \<open>Both loops end\<close>

lemma cut_off_bounds: "now \<le> u \<Longrightarrow> now \<le> cut_off c now u" "cut_off (Some t) now u \<le> max now t"
  by (auto simp: cut_off_def split: option.split)

lemma watch_until_ends:
  assumes "\<And>k. 0 \<le> took k"
  shows "\<exists>n now'. watch_until ko bo http cl (Some t) took k now s = Some (k + n, now', (watch_round ko bo http cl ^^ n) s) \<and>
    now \<le> now' \<and> now' \<le> max now t \<and> (n \<noteq> 0 \<longrightarrow> (int n - 1) * Second \<le> t - now)"
proof (induction "nat (t - now)" arbitrary: k now s rule: less_induct)
  case less
  show ?case
  proof (cases "t \<le> now")
    case True
    then show ?thesis
      by (intro exI [of _ 0] exI [of _ now]) (subst watch_until.simps, simp add: canceled_def)
  next
    case False
    let ?u = "cut_off (Some t) now (now + took k)"
    have u: "now \<le> ?u" "?u \<le> t" using cut_off_bounds(1) [of now "now + took k" "Some t"] cut_off_bounds(2) [of t now "now + took k"] assms [of k] False
      by simp_all
    show ?thesis
    proof (cases "t \<le> ?u + Second")
      case True
      then have "watch_until ko bo http cl (Some t) took k now s = Some (Suc k, max ?u t, watch_round ko bo http cl s)"
        using False by (subst watch_until.simps) (simp add: canceled_def sleepOrDone_def)
      with u False show ?thesis by (intro exI [of _ 1] exI [of _ "max ?u t"]) simp
    next
      case wait: False
      have step: "watch_until ko bo http cl (Some t) took k now s =
          watch_until ko bo http cl (Some t) took (Suc k) (?u + Second) (watch_round ko bo http cl s)"
        using False wait by (subst watch_until.simps) (simp add: canceled_def sleepOrDone_def)
      have "nat (t - (?u + Second)) < nat (t - now)" using u wait by (simp add: Second_def)
      from less [OF this, of "Suc k" "watch_round ko bo http cl s"] obtain n now' where n:
        "watch_until ko bo http cl (Some t) took (Suc k) (?u + Second) (watch_round ko bo http cl s) =
           Some (Suc k + n, now', (watch_round ko bo http cl ^^ n) (watch_round ko bo http cl s))"
        "?u + Second \<le> now'" "now' \<le> max (?u + Second) t" "n \<noteq> 0 \<longrightarrow> (int n - 1) * Second \<le> t - (?u + Second)"
        by blast
      have "int n * Second \<le> t - now"
        using n(4) u wait by (cases "n = 0") (auto simp: algebra_simps Second_def)
      with step n u wait show ?thesis
        by (intro exI [of _ "Suc n"] exI [of _ now']) (auto simp: funpow_swap1 Second_def)
    qed
  qed
qed

text \<open>The load of one tick, as a function of the loop's state.\<close>

definition load_once :: "'n transport \<Rightarrow> etcdClient \<times> 'n \<times> Store \<Rightarrow> etcdClient \<times> 'n \<times> Store" where
  "load_once http s = (case s of (cl, net, st) \<Rightarrow> reconcile http cl net st)"

lemma next_tick_advances:
  assumes "0 < d" and "next_tick d start now j = (tick, j')"
  shows "j < j' \<and> start + j' * d \<le> tick \<and> tick = max now (start + (j + 1) * d)"
proof (cases "start + (j + 1) * d \<le> now")
  case True
  then have "j' = (now - start) div d" "tick = now" using assms(2) by (auto simp: next_tick_def)
  moreover have "j + 1 \<le> (now - start) div d"
    using zdiv_mono1 [of "(j + 1) * d" "now - start" d] True assms(1) by simp
  moreover have "(now - start) div d * d \<le> now - start"
    using div_mult_mod_eq [of "now - start" d] pos_mod_sign [OF assms(1), of "now - start"] by linarith
  ultimately show ?thesis using True by simp
next
  case False
  then have "j' = j + 1" "tick = start + (j + 1) * d" using assms(2) by (auto simp: next_tick_def)
  with False show ?thesis by simp
qed

lemma reconcile_until_ends:
  assumes "0 < d" and "\<And>k. 0 \<le> took k" and "0 \<le> j"
  shows "\<exists>ticks. reconcile_until http (Some t) d took start loads now j s =
      Some (loads @ ticks, (load_once http ^^ length ticks) s) \<and>
    (\<forall>x\<in>set ticks. x < t) \<and> (ticks \<noteq> [] \<longrightarrow> (j + int (length ticks)) * d < t - start)"
  using assms(3)
proof (induction "nat (t - (start + j * d))" arbitrary: loads now j s rule: less_induct)
  case less
  obtain tick j' where nt: "next_tick d start now j = (tick, j')" by (metis prod.exhaust)
  note adv = next_tick_advances [OF assms(1) nt]
  show ?case
  proof (cases "t \<le> tick")
    case True
    then show ?thesis
      by (intro exI [of _ "[]"]) (subst reconcile_until.simps, simp add: nt canceled_def)
  next
    case False
    let ?now = "cut_off (Some t) tick (tick + took (length loads))" and ?s = "load_once http s"
    have step: "reconcile_until http (Some t) d took start loads now j s = reconcile_until http (Some t) d took start (loads @ [tick]) ?now j' ?s"
      using False by (subst reconcile_until.simps) (simp add: nt canceled_def load_once_def)
    have jd: "(j + 1) * d \<le> j' * d" using adv assms(1) by (intro mult_right_mono) simp_all
    moreover have "(j + 1) * d = j * d + d" by (simp add: distrib_right)
    ultimately have "start + j * d < start + j' * d" using assms(1) by linarith
    moreover have "start + j' * d < t" using adv False by linarith
    ultimately have "nat (t - (start + j' * d)) < nat (t - (start + j * d))" by linarith
    from less.hyps [OF this, of "loads @ [tick]" ?now ?s] adv less.prems obtain ticks where ticks:
      "reconcile_until http (Some t) d took start (loads @ [tick]) ?now j' ?s =
         Some ((loads @ [tick]) @ ticks, (load_once http ^^ length ticks) ?s)"
      "\<forall>x\<in>set ticks. x < t" "ticks \<noteq> [] \<longrightarrow> (j' + int (length ticks)) * d < t - start"
      by auto
    have "(j + int (length (tick # ticks))) * d < t - start"
    proof (cases "ticks = []")
      case True
      then show ?thesis using \<open>start + j' * d < t\<close> jd by simp
    next
      case ne: False
      have "(j + int (length (tick # ticks))) * d \<le> (j' + int (length ticks)) * d"
        using adv assms(1) by (intro mult_right_mono) simp_all
      with ticks(3) ne show ?thesis by linarith
    qed
    with step ticks False show ?thesis
      by (intro exI [of _ "tick # ticks"]) (simp add: funpow_swap1)
  qed
qed

text \<open>Only a cancellation ends the watch loop.\<close>

lemma watch_until_needs_cancel:
  assumes "watch_until ko bo http cl c took k now s = Some r"
  shows "c \<noteq> None"
proof (rule watch_until.raw_induct [where P = "\<lambda>_ _ _ _ c _ _ _ _ _. c \<noteq> None", OF _ assms])
  fix wu ko bo http cl took k now s r and c :: cancellation
  assume IH: "\<And>ko bo http cl c took k now s r. wu ko bo http cl c took k now s = Some r \<Longrightarrow> c \<noteq> None"
    and "(if canceled c now then Some (k, now, s)
      else (case sleepOrDone c (cut_off c now (now + took k)) Second of
              (slept, now') \<Rightarrow>
                if slept then wu ko bo http cl c took (Suc k) now' (watch_round ko bo http cl s)
                else Some (Suc k, now', watch_round ko bo http cl s))) = Some r"
  then show "c \<noteq> None"
    by (cases c) (auto simp: canceled_def sleepOrDone_def dest: IH)
qed


definition loop_registry :: EtcdRegistry where
  "loop_registry = \<lparr>client = newEtcdClient [''http://etcd''] [] [], rstore = Some (empty_mapping 7),
     interval = 60 * Second, cancel = Some False\<rparr>"

lemma loop_registry_period: "reconcile_period loop_registry = Some (60 * Second)"
  by (simp add: reconcile_period_def loop_registry_def Second_def)


section \<open>How often the map is reloaded\<close>

lemma reconcile_until_on_time:
  assumes "0 < d" and "\<And>k. 0 \<le> took k \<and> took k < d" and "now < start + (j + 1) * d"
  shows "\<exists>n. reconcile_until http (Some t) d took start loads now j s =
      Some (loads @ map (\<lambda>i. start + (j + 1 + int i) * d) [0..<n], (load_once http ^^ n) s) \<and>
    (n \<noteq> 0 \<longrightarrow> start + (j + int n) * d < t) \<and> t \<le> start + (j + int n + 1) * d"
  using assms(3)
proof (induction "nat (t - (start + j * d))" arbitrary: loads now j s rule: less_induct)
  case less
  let ?tick = "start + (j + 1) * d"
  have nt: "next_tick d start now j = (?tick, j + 1)"
    using less.prems by (simp add: next_tick_def)
  show ?case
  proof (cases "t \<le> ?tick")
    case True
    then show ?thesis
      by (intro exI [of _ 0]) (subst reconcile_until.simps, simp add: nt canceled_def)
  next
    case False
    let ?now = "cut_off (Some t) ?tick (?tick + took (length loads))" and ?s = "load_once http s"
    have next_deadline: "start + ((j + 1) + 1) * d = ?tick + d" by (simp add: algebra_simps)
    have now: "?now < start + ((j + 1) + 1) * d"
      using assms(2) [of "length loads"] unfolding next_deadline cut_off_def by (simp add: min_less_iff_disj)
    have step: "reconcile_until http (Some t) d took start loads now j s =
        reconcile_until http (Some t) d took start (loads @ [?tick]) ?now (j + 1) ?s"
      using False by (subst reconcile_until.simps) (simp add: nt canceled_def load_once_def)
    have "nat (t - ?tick) < nat (t - (start + j * d))"
      using False assms(1) by (simp add: distrib_right)
    from less.hyps [OF this now, of "loads @ [?tick]" ?s] obtain n where n:
      "reconcile_until http (Some t) d took start (loads @ [?tick]) ?now (j + 1) ?s =
         Some ((loads @ [?tick]) @ map (\<lambda>i. start + (j + 1 + 1 + int i) * d) [0..<n], (load_once http ^^ n) ?s)"
      "n \<noteq> 0 \<longrightarrow> start + (j + 1 + int n) * d < t" "t \<le> start + (j + 1 + int n + 1) * d"
      by blast
    have "map (\<lambda>i. start + (j + 1 + int i) * d) [0..<Suc n] = ?tick # map (\<lambda>i. start + (j + 1 + 1 + int i) * d) [0..<n]"
      by (simp add: map_upt_Suc algebra_simps del: upt_Suc)
    moreover have "start + (j + int (Suc n)) * d < t"
      using n(2) False by (cases "n = 0") (simp_all add: algebra_simps)
    ultimately show ?thesis
      using step n by (intro exI [of _ "Suc n"]) (simp add: funpow_swap1 algebra_simps del: upt_Suc)
  qed
qed

text \<open>
  C37: the reconciliation is on time. While every load takes less than the interval, the loads of
  \<open>reconcileLoop\<close> start exactly at the multiples of the interval after its start, all of those
  before the cancellation and no others, so no two full loads are further apart than the interval.
\<close>

theorem reconcile_on_time:
  assumes "reconcile_period r = Some d" and "\<And>k. 0 \<le> loading k \<and> loading k < d"
  shows "\<exists>n. reconcile_until http (Some t) d loading now [] now 0 s =
      Some (map (\<lambda>i. now + (int i + 1) * d) [0..<n], (load_once http ^^ n) s) \<and>
    (\<forall>i. i < n \<longleftrightarrow> now + (int i + 1) * d < t)"
proof -
  have d: "0 < d" using assms(1) by (auto simp: reconcile_period_def split: if_splits)
  from reconcile_until_on_time [where took = loading and now = now and start = now and j = 0 and http = http and t = t and loads = "[]" and s = s, OF d assms(2)] d obtain n where n:
    "reconcile_until http (Some t) d loading now [] now 0 s = Some (map (\<lambda>i. now + (1 + int i) * d) [0..<n], (load_once http ^^ n) s)"
    "n \<noteq> 0 \<longrightarrow> now + int n * d < t" "t \<le> now + (int n + 1) * d"
    by auto
  have "i < n \<longleftrightarrow> now + (int i + 1) * d < t" for i
  proof
    assume "i < n"
    then have "(int i + 1) * d \<le> int n * d" using d by (intro mult_right_mono) simp_all
    with n(2) \<open>i < n\<close> show "now + (int i + 1) * d < t" by linarith
  next
    assume "now + (int i + 1) * d < t"
    with n(3) have "(int i + 1) * d < (int n + 1) * d" by linarith
    with d show "i < n" by simp
  qed
  with n(1) show ?thesis by (intro exI [of _ n]) (simp add: add.commute)
qed

theorem reconcile_on_time_witness:
  "\<exists>s. reconcile_until dead_transport (Some (130 * Second)) (60 * Second) (\<lambda>_. 5 * Second) 0 [] 0 0
      (client loop_registry, (), rstore loop_registry) = Some ([60 * Second, 120 * Second], s)"
proof -
  obtain n where n: "reconcile_until dead_transport (Some (130 * Second)) (60 * Second) (\<lambda>_. 5 * Second) 0 [] 0 0
      (client loop_registry, (), rstore loop_registry) =
    Some (map (\<lambda>i. 0 + (int i + 1) * (60 * Second)) [0..<n], (load_once dead_transport ^^ n) (client loop_registry, (), rstore loop_registry))"
    "\<forall>i. i < n \<longleftrightarrow> 0 + (int i + 1) * (60 * Second) < 130 * Second"
    using reconcile_on_time [OF loop_registry_period, of "\<lambda>_. 5 * Second" dead_transport "130 * Second" 0
        "(client loop_registry, (), rstore loop_registry)"] by (auto simp: Second_def)
  have "1 < n" "\<not> 2 < n" using n(2) by (simp_all add: Second_def)
  then have "n = 2" by simp
  with n(1) show ?thesis
    by (intro exI [of _ "(load_once dead_transport ^^ 2) (client loop_registry, (), rstore loop_registry)"]) (simp add: upt_rec)
qed

end
