(* ===== verification/Watch_Stream.thy ===== *)
theory Watch_Stream
  imports Registry_Sync Step_Measure "HOL-Library.Sublist"
begin

text \<open>
  The two goroutines of one watch: the one \<open>watchPrefix\<close> starts, which decodes the response body and
  offers batches on an unbuffered channel, and \<open>watchLoop\<close>, which takes them and applies them.
  \<open>Registry_Sync\<close> takes the stream as the list of its batches and applies them in one piece; here
  is why it may: the hand-over is in order, loses nothing unless the context is canceled, and
  neither goroutine is left waiting for the other.
\<close>

section \<open>The two goroutines\<close>

text \<open>\<open>Applying b\<close> has received \<open>b\<close>; \<open>Left\<close> is out of the loop over the channel.\<close>

datatype producer = Decoding | Offering watchBatch | Stopped

datatype consumer = Receiving | Applying watchBatch | Left

record stream_pair =
  wInput :: bytes
  wProducer :: producer
  wConsumer :: consumer
  wState :: "Store \<times> int"
  wCanceled :: bool

definition watch_start :: "bytes \<Rightarrow> Store \<times> int \<Rightarrow> stream_pair \<Rightarrow> bool" where
  "watch_start body s0 x \<longleftrightarrow>
     x = \<lparr>wInput = body, wProducer = Decoding, wConsumer = Receiving, wState = s0, wCanceled = False\<rparr>"

definition apply_to :: "((bytes \<rightharpoonup> ShardDef) \<Rightarrow> bytes list) \<Rightarrow> ((int \<rightharpoonup> BucketDef) \<Rightarrow> int list) \<Rightarrow> watchBatch \<Rightarrow> Store \<times> int \<Rightarrow> Store \<times> int" where
  "apply_to ko bo b s = (Swap (next_snapshot ko bo (fst s) b) (fst s), next_watchRev b (snd s))"

text \<open>With the context canceled the body cannot be read any more, and an offer may be given up.\<close>

inductive watch_move ::
  "((bytes \<rightharpoonup> ShardDef) \<Rightarrow> bytes list) \<Rightarrow> ((int \<rightharpoonup> BucketDef) \<Rightarrow> int list) \<Rightarrow> stream_pair \<Rightarrow> stream_pair \<Rightarrow> bool" for ko bo where
  cancel: "\<not> wCanceled x \<Longrightarrow> watch_move ko bo x (x\<lparr>wCanceled := True\<rparr>)"
| ack: "wProducer x = Decoding \<Longrightarrow> Decode (dec_struct msg_fields) zero_watchMsg (wInput x) = Inr (msg, r) \<Longrightarrow> MsgCreated msg \<Longrightarrow>
    watch_move ko bo x (x\<lparr>wInput := r\<rparr>)"
| decode: "wProducer x = Decoding \<Longrightarrow> Decode (dec_struct msg_fields) zero_watchMsg (wInput x) = Inr (msg, r) \<Longrightarrow> \<not> MsgCreated msg \<Longrightarrow>
    watch_move ko bo x (x\<lparr>wInput := r, wProducer := Offering (decode_batch msg)\<rparr>)"
| stream_ends: "wProducer x = Decoding \<Longrightarrow> Decode (dec_struct msg_fields) zero_watchMsg (wInput x) = Inl e \<Longrightarrow>
    watch_move ko bo x (x\<lparr>wProducer := Stopped\<rparr>)"
| aborted: "wProducer x = Decoding \<Longrightarrow> wCanceled x \<Longrightarrow> watch_move ko bo x (x\<lparr>wProducer := Stopped\<rparr>)"
| hand_over: "wProducer x = Offering b \<Longrightarrow> wConsumer x = Receiving \<Longrightarrow>
    watch_move ko bo x (x\<lparr>wProducer := (if Canceled b then Stopped else Decoding), wConsumer := Applying b\<rparr>)"
| give_up: "wProducer x = Offering b \<Longrightarrow> wCanceled x \<Longrightarrow> watch_move ko bo x (x\<lparr>wProducer := Stopped\<rparr>)"
| break: "wConsumer x = Applying b \<Longrightarrow> Canceled b \<Longrightarrow> watch_move ko bo x (x\<lparr>wConsumer := Left\<rparr>)"
| apply_batch: "wConsumer x = Applying b \<Longrightarrow> \<not> Canceled b \<Longrightarrow>
    watch_move ko bo x (x\<lparr>wConsumer := Receiving, wState := apply_to ko bo b (wState x)\<rparr>)"
| channel_closed: "wConsumer x = Receiving \<Longrightarrow> wProducer x = Stopped \<Longrightarrow> watch_move ko bo x (x\<lparr>wConsumer := Left\<rparr>)"

section \<open>The stream is handed over in order\<close>

text \<open>The batches the producer would still offer if it could go on.\<close>

fun offers :: "producer \<Rightarrow> bytes \<Rightarrow> watchBatch list" where
  "offers Decoding input = stream_batches input"
| "offers (Offering b) input = b # (if Canceled b then [] else stream_batches input)"
| "offers Stopped input = []"

lemma watch_pass_snoc:
  "list_all (\<lambda>b. \<not> Canceled b) bs \<Longrightarrow> watch_pass ko bo (bs @ [b]) s =
    (if Canceled b then watch_pass ko bo bs s else apply_to ko bo b (watch_pass ko bo bs s))"
proof (induction bs arbitrary: s)
  case Nil
  then show ?case by (cases s) (simp add: apply_to_def)
next
  case (Cons c bs)
  then show ?case by (cases s) simp
qed

text \<open>\<open>hs\<close> are the batches handed over so far.\<close>

definition handed :: "((bytes \<rightharpoonup> ShardDef) \<Rightarrow> bytes list) \<Rightarrow> ((int \<rightharpoonup> BucketDef) \<Rightarrow> int list) \<Rightarrow> bytes \<Rightarrow> Store \<times> int \<Rightarrow> stream_pair \<Rightarrow> watchBatch list \<Rightarrow> bool" where
  "handed ko bo body s0 x hs \<longleftrightarrow>
     prefix (hs @ offers (wProducer x) (wInput x)) (stream_batches body) \<and>
     (\<not> wCanceled x \<longrightarrow> hs @ offers (wProducer x) (wInput x) = stream_batches body) \<and>
     (case wConsumer x of
        Receiving \<Rightarrow> list_all (\<lambda>b. \<not> Canceled b) hs \<and> wState x = watch_pass ko bo hs s0
      | Applying b \<Rightarrow> (\<exists>bs. hs = bs @ [b] \<and> list_all (\<lambda>b. \<not> Canceled b) bs \<and> wState x = watch_pass ko bo bs s0) \<and>
          (Canceled b \<longrightarrow> wProducer x = Stopped)
      | Left \<Rightarrow> wState x = watch_pass ko bo hs s0 \<and> wProducer x = Stopped)"

lemma stream_step:
  "Decode (dec_struct msg_fields) zero_watchMsg s = Inr (msg, r) \<Longrightarrow> stream_batches s =
    (if MsgCreated msg then stream_batches r else if Canceled (decode_batch msg) then [decode_batch msg] else decode_batch msg # stream_batches r)"
  by (simp add: stream_batches.simps [of s] decode_batch_def Let_def)

lemma stream_stop: "Decode (dec_struct msg_fields) zero_watchMsg s = Inl e \<Longrightarrow> stream_batches s = []"
  by (simp add: stream_batches.simps [of s])

lemma prefix_cut: "prefix (xs @ ys) zs \<Longrightarrow> prefix xs zs"
  by (meson append_prefixD)

lemma handed_move: "watch_move ko bo x y \<Longrightarrow> handed ko bo body s0 x hs \<Longrightarrow> \<exists>hs'. handed ko bo body s0 y hs'"
proof (induction rule: watch_move.induct)
  case (cancel x)
  then show ?case by (intro exI [of _ hs]) (auto simp: handed_def split: consumer.split)
next
  case (ack x msg r)
  then show ?case by (intro exI [of _ hs]) (auto simp: handed_def stream_step split: consumer.splits)
next
  case (decode x msg r)
  then show ?case by (intro exI [of _ hs]) (auto simp: handed_def stream_step split: consumer.splits)
next
  case (stream_ends x e)
  then show ?case by (intro exI [of _ hs]) (auto simp: handed_def stream_stop split: consumer.splits)
next
  case (aborted x)
  then show ?case by (intro exI [of _ hs]) (auto simp: handed_def dest: prefix_cut split: consumer.splits)
next
  case (hand_over x b)
  then show ?case by (intro exI [of _ "hs @ [b]"]) (auto simp: handed_def)
next
  case (give_up x b)
  then show ?case by (intro exI [of _ hs]) (auto simp: handed_def dest: prefix_cut split: consumer.splits)
next
  case (break x b)
  then obtain bs where "hs = bs @ [b]" "list_all (\<lambda>b. \<not> Canceled b) bs" "wState x = watch_pass ko bo bs s0"
    unfolding handed_def by auto
  with break(2) watch_pass_snoc [of bs ko bo b s0] have "wState x = watch_pass ko bo hs s0" by simp
  moreover have "wProducer x = Stopped" using break unfolding handed_def by simp
  ultimately show ?case using break(3) by (intro exI [of _ hs]) (simp add: handed_def)
next
  case (apply_batch x b)
  then obtain bs where "hs = bs @ [b]" "list_all (\<lambda>b. \<not> Canceled b) bs" "wState x = watch_pass ko bo bs s0"
    unfolding handed_def by auto
  with apply_batch watch_pass_snoc [of bs ko bo b s0] show ?case by (intro exI [of _ hs]) (simp add: handed_def)
next
  case (channel_closed x)
  then show ?case by (intro exI [of _ hs]) (auto simp: handed_def)
qed

lemma handed_reach:
  assumes "reach (watch_start body s0) (watch_move ko bo) x"
  shows "\<exists>hs. handed ko bo body s0 x hs"
  using assms
proof (induction rule: reach.induct)
  case (reach_start x)
  then show ?case by (intro exI [of _ "[]"]) (simp add: handed_def watch_start_def)
next
  case (reach_step x y)
  then show ?case using handed_move by blast
qed

section \<open>Both goroutines end\<close>

fun producer_left :: "producer \<Rightarrow> nat" where
  "producer_left Decoding = 1"
| "producer_left (Offering b) = 4"
| "producer_left Stopped = 0"

fun consumer_left :: "consumer \<Rightarrow> nat" where
  "consumer_left Receiving = 1"
| "consumer_left (Applying b) = 2"
| "consumer_left Left = 0"

definition watch_left :: "stream_pair \<Rightarrow> nat" where
  "watch_left x = 4 * length (wInput x) + producer_left (wProducer x) + consumer_left (wConsumer x) + of_bool (\<not> wCanceled x)"

interpretation watching: decreasing_steps "watch_move ko bo" watch_left "\<lambda>_. True" for ko bo
proof
  show "watch_left y < watch_left x" if "watch_move ko bo x y" for x y
    using that by cases (auto simp: watch_left_def dest: Decode_consumes)
qed simp

text \<open>No deadlock: as long as one of the two is not at its end, one of them can move.\<close>

lemma watch_enabled:
  assumes "handed ko bo body s0 x hs" and "\<not> (wProducer x = Stopped \<and> wConsumer x = Left)"
  shows "\<exists>y. watch_move ko bo x y \<and> wCanceled y = wCanceled x"
proof (cases "wConsumer x")
  case (Applying b)
  show ?thesis
  proof (cases "Canceled b")
    case True
    from watch_move.break [OF Applying this, of ko bo] show ?thesis by fastforce
  next
    case False
    from watch_move.apply_batch [OF Applying this, of ko bo] show ?thesis by fastforce
  qed
next
  case Left
  with assms show ?thesis by (simp add: handed_def)
next
  case Receiving
  show ?thesis
  proof (cases "wProducer x")
    case Stopped
    from watch_move.channel_closed [OF Receiving Stopped, of ko bo] show ?thesis by fastforce
  next
    case (Offering b)
    from watch_move.hand_over [OF Offering Receiving, of ko bo] show ?thesis by fastforce
  next
    case Decoding
    show ?thesis
    proof (cases "Decode (dec_struct msg_fields) zero_watchMsg (wInput x)")
      case (Inl e)
      from watch_move.stream_ends [OF Decoding Inl, of ko bo] show ?thesis by fastforce
    next
      case (Inr a)
      obtain msg r where a: "a = (msg, r)" by (cases a)
      show ?thesis
      proof (cases "MsgCreated msg")
        case True
        from watch_move.ack [OF Decoding Inr [unfolded a] True, of ko bo] show ?thesis by fastforce
      next
        case False
        from watch_move.decode [OF Decoding Inr [unfolded a] False, of ko bo] show ?thesis by fastforce
      qed
    qed
  qed
qed

lemma watch_runs_on:
  assumes "reach (watch_start body s0) (watch_move ko bo) x"
  shows "\<exists>y. rtranclp (watch_move ko bo) x y \<and> reach (watch_start body s0) (watch_move ko bo) y \<and>
    wProducer y = Stopped \<and> wConsumer y = Left \<and> wCanceled y = wCanceled x"
  using assms
proof (induction "watch_left x" arbitrary: x rule: less_induct)
  case less
  show ?case
  proof (cases "wProducer x = Stopped \<and> wConsumer x = Left")
    case False
    from handed_reach [OF less.prems] obtain hs where "handed ko bo body s0 x hs" by blast
    from watch_enabled [OF this False] obtain y where y: "watch_move ko bo x y" "wCanceled y = wCanceled x" by blast
    from less.hyps [OF watching.step_decreases [OF TrueI y(1)] reach_step [OF less.prems y(1)]] y
    show ?thesis by (metis converse_rtranclp_into_rtranclp)
  qed (use less.prems in blast)
qed

section \<open>The two goroutines do one pass over the stream\<close>

text \<open>
  C16: the hand-over over the unbuffered channel, under every interleaving. Take a round of the watch
  loop whose request is answered 200 with a stream. Whatever has happened so far, the two
  goroutines can both run to their ends without the context being canceled, so neither blocks for
  ever on the other, and no run is longer than the bytes of the stream allow. When the consumer
  has left its loop the producer has stopped too, so no goroutine is leaked; store and revision
  are then what a pass over some first batches of the stream makes of them, and unless the
  context was canceled they are what the sequential \<open>watch_round\<close> computes.
\<close>

theorem stream_handed_over:
  assumes reach: "reach (watch_start body s0) (watch_move ko bo) x"
    and "endpoints c = ep # eps"
    and "http (request ep watch_path (watch_body key_prefix (snd s0)) c) net = (Reply 200 body, net')"
  shows "(\<exists>y. rtranclp (watch_move ko bo) x y \<and> wProducer y = Stopped \<and> wConsumer y = Left \<and> wCanceled y = wCanceled x) \<and>
    (\<forall>n y. (watch_move ko bo ^^ n) x y \<longrightarrow> n \<le> watch_left x) \<and>
    (wConsumer x = Left \<longrightarrow> wProducer x = Stopped \<and>
      (\<exists>hs. prefix hs (stream_batches body) \<and> wState x = watch_pass ko bo hs s0) \<and>
      (\<not> wCanceled x \<longrightarrow> wState x = fst (watch_round ko bo http c (s0, net))))"
proof (intro conjI)
  show "\<exists>y. rtranclp (watch_move ko bo) x y \<and> wProducer y = Stopped \<and> wConsumer y = Left \<and> wCanceled y = wCanceled x"
    using watch_runs_on [OF reach] by blast
  show "\<forall>n y. (watch_move ko bo ^^ n) x y \<longrightarrow> n \<le> watch_left x"
    using watching.run_bounded [OF TrueI] by (blast intro: add_leD1)
  have "watch_pass ko bo (stream_batches body) s0 = fst (watch_round ko bo http c (s0, net))"
    using assms(2,3) by (cases s0) (simp add: watch_round_def watchPrefix_def pickEndpoint_def)
  moreover from handed_reach [OF reach] obtain hs where "handed ko bo body s0 x hs" by blast
  ultimately show "wConsumer x = Left \<longrightarrow> wProducer x = Stopped \<and>
      (\<exists>hs. prefix hs (stream_batches body) \<and> wState x = watch_pass ko bo hs s0) \<and>
      (\<not> wCanceled x \<longrightarrow> wState x = fst (watch_round ko bo http c (s0, net)))"
    by (auto simp: handed_def)
qed

definition follow_body :: bytes where
  "follow_body = gateway_created 7 @ concat (map gateway_message follow_batches)"

theorem stream_handed_over_witness:
  "\<exists>x. reach (watch_start follow_body (Some (build_mapping follow_kvs 7), 8)) (watch_move key_order key_order) x \<and>
    wProducer x = Stopped \<and> wConsumer x = Left \<and> \<not> wCanceled x \<and>
    wState x = fst (watch_round key_order key_order follow_transport (newEtcdClient [''http://etcd''] [] [])
      ((Some (build_mapping follow_kvs 7), 8), ()))"
proof -
  let ?s = "(Some (build_mapping follow_kvs 7), 8 :: int)" and ?c = "newEtcdClient [''http://etcd''] [] []"
  let ?step = "watch_move key_order key_order"
  let ?x = "\<lparr>wInput = follow_body, wProducer = Decoding, wConsumer = Receiving, wState = ?s, wCanceled = False\<rparr>"
  have reply: "follow_transport (request ''http://etcd'' watch_path (watch_body key_prefix (snd ?s)) ?c) () = (Reply 200 follow_body, ())"
    by (simp add: follow_transport_def request_def range_path_def watch_path_def follow_body_def)
  have ep: "endpoints ?c = ''http://etcd'' # []" by (simp add: newEtcdClient_def)
  have "reach (watch_start follow_body ?s) ?step ?x" by (rule reach_start) (simp add: watch_start_def)
  from watch_runs_on [OF this] obtain y where y: "reach (watch_start follow_body ?s) ?step y"
    "wProducer y = Stopped" "wConsumer y = Left" "\<not> wCanceled y" by auto
  from stream_handed_over [where http = follow_transport and net = "()" and c = ?c, OF y(1) ep reply] y show ?thesis by blast
qed

section \<open>A watch refused\<close>

text \<open>
  \<open>postAny\<close> authenticates again when it is answered 401, \<open>watchPrefix\<close> does not: as long as etcd answers
  401 to the token the client holds, every round of the watch is refused and changes nothing.
\<close>

lemma stale_token_stops_watch:
  assumes "endpoints c = ep # eps"
    and "\<And>rev net. \<exists>body net'. http (request ep watch_path (watch_body key_prefix rev) c) net = (Reply 401 body, net')"
  shows "fst (watchLoop rounds ko bo http c rv st net) = (st, wrap64 (rv + 1))"
proof -
  have round: "fst (watch_round ko bo http c (s, net)) = s" for s net
    using assms(1) assms(2) [of "snd s" net]
    by (cases s) (auto simp: watch_round_def watchPrefix_def pickEndpoint_def)
  have "fst ((watch_round ko bo http c ^^ n) (s, net)) = s" for n s
    using round by (induction n) (simp, metis comp_apply funpow.simps(2) prod.collapse)
  then show ?thesis by (simp add: watchLoop_def)
qed

end
