(* ===== verification/Credentials.thy ===== *)
theory Credentials
  imports Registry_Sync
begin

text \<open>
  The one etcd client that \<open>watchLoop\<close> and \<open>reconcileLoop\<close> share, and what it tells the network: which
  requests it sends, where to, and where the tokens in them come from. The rounds of the watch and
  the reloads come in any order, each in one piece; a token that a reload obtains is the one the
  next round of the watch presents.
\<close>

section \<open>Recorded traffic\<close>

type_synonym traffic = "(httpRequest \<times> httpReply) list"

definition recording :: "'n transport \<Rightarrow> (traffic \<times> 'n) transport" where
  "recording http rq s = (case http rq (snd s) of (reply, net) \<Rightarrow> (reply, fst s @ [(rq, reply)], net))"

definition credentials_body :: "etcdClient \<Rightarrow> bytes" where
  "credentials_body c = marshal (JObj [(''name'', JStr (username c)), (''password'', JStr (password c))])"

text \<open>An endpoint has issued the token in an answer to the client's name and password.\<close>

definition issued :: "etcdClient \<Rightarrow> traffic \<Rightarrow> bytes \<Rightarrow> bool" where
  "issued c log tok \<longleftrightarrow> (\<exists>rq resp. (rq, Reply 200 resp) \<in> set log \<and> (\<exists>ep\<in>set (endpoints c). reqURL rq = ep @ auth_path) \<and>
     reqBody rq = credentials_body c \<and> Unmarshal (dec_struct token_fields) [] resp = Inr tok)"

text \<open>The three requests the registry makes: a login, a range and a watch.\<close>

definition body_for :: "etcdClient \<Rightarrow> bytes \<Rightarrow> bytes \<Rightarrow> bool" where
  "body_for c path body \<longleftrightarrow>
     path = auth_path \<and> username c \<noteq> [] \<and> body = credentials_body c \<or>
     path = range_path \<and> body = range_body key_prefix \<or>
     path = watch_path \<and> (\<exists>rev. body = watch_body key_prefix rev)"

definition proper :: "etcdClient \<Rightarrow> traffic \<Rightarrow> httpRequest \<Rightarrow> bool" where
  "proper c log rq \<longleftrightarrow> (\<exists>ep\<in>set (endpoints c). \<exists>path. reqURL rq = ep @ path \<and> body_for c path (reqBody rq)) \<and>
     (\<forall>tok. reqToken rq = Some tok \<longrightarrow> username c \<noteq> [] \<and> issued c log tok)"

definition all_proper :: "etcdClient \<Rightarrow> traffic \<Rightarrow> bool" where
  "all_proper c log \<longleftrightarrow> (\<forall>k<length log. proper c (take k log) (fst (log ! k)))"

lemma all_proper_snoc: "all_proper c (log @ [x]) \<longleftrightarrow> all_proper c log \<and> proper c log (fst x)"
  by (auto simp: all_proper_def nth_append less_Suc_eq)

lemma all_proper_Nil [simp]: "all_proper c []"
  by (simp add: all_proper_def)

lemma issued_more: "issued c log tok \<Longrightarrow> issued c (log @ log2) tok"
  unfolding issued_def set_append by blast

section \<open>What every operation of the client keeps\<close>

text \<open>\<open>c0\<close> is the client as it was made; only its token changes.\<close>

definition client_inv :: "etcdClient \<Rightarrow> etcdClient \<Rightarrow> traffic \<times> 'n \<Rightarrow> bool" where
  "client_inv c0 c s \<longleftrightarrow> c\<lparr>token := []\<rparr> = c0\<lparr>token := []\<rparr> \<and> all_proper c0 (fst s) \<and>
     (token c \<noteq> [] \<longrightarrow> username c0 \<noteq> [] \<and> issued c0 (fst s) (token c))"

lemma client_same:
  assumes "client_inv c0 c s"
  shows "endpoints c = endpoints c0" "username c = username c0" "password c = password c0" "credentials_body c = credentials_body c0"
proof -
  have eq: "c\<lparr>token := []\<rparr> = c0\<lparr>token := []\<rparr>" using assms by (simp add: client_inv_def)
  from arg_cong [OF eq, of endpoints] arg_cong [OF eq, of username] arg_cong [OF eq, of password]
  show "endpoints c = endpoints c0" "username c = username c0" "password c = password c0" by simp_all
  then show "credentials_body c = credentials_body c0" by (simp add: credentials_body_def)
qed

text \<open>One request.\<close>

lemma client_sends:
  assumes "recording http (request ep path body c) s = (reply, s')" and inv: "client_inv c0 c s"
    and "ep \<in> set (endpoints c0)" and "body_for c0 path body"
  shows "client_inv c0 c s' \<and> (request ep path body c, reply) \<in> set (fst s')"
proof -
  obtain net where s': "s' = (fst s @ [(request ep path body c, reply)], net)"
    using assms(1) by (auto simp: recording_def split: prod.splits)
  have "proper c0 (fst s) (request ep path body c)"
    using inv assms(3,4) by (auto simp: proper_def request_def client_inv_def)
  with inv show ?thesis by (auto simp: client_inv_def s' all_proper_snoc intro: issued_more)
qed

text \<open>The loop over the endpoints, for any authentication that keeps the same.\<close>

lemma client_posts:
  assumes "post_loop (recording http) auth path body eps lastErr c s = (r, c', s')" and "client_inv c0 c s"
    and "set eps \<subseteq> set (endpoints c0)" and "body_for c0 path body"
    and auth: "\<And>c s e c' s'. path \<noteq> auth_path \<Longrightarrow> auth c s = (e, c', s') \<Longrightarrow> client_inv c0 c s \<Longrightarrow> client_inv c0 c' s'"
  shows "client_inv c0 c' s' \<and> (\<forall>resp. r = Inr resp \<longrightarrow>
    (\<exists>ep\<in>set eps. \<exists>rq. (rq, Reply 200 resp) \<in> set (fst s') \<and> reqURL rq = ep @ path \<and> reqBody rq = body))"
  using assms(1-3)
proof (induction eps arbitrary: lastErr c s)
  case (Cons ep eps)
  obtain reply s1 where sent: "recording http (request ep path body c) s = (reply, s1)"
    by (cases "recording http (request ep path body c) s")
  from client_sends [OF sent Cons.prems(2) _ assms(4)] Cons.prems(3)
  have s1: "client_inv c0 c s1" "(request ep path body c, reply) \<in> set (fst s1)" by simp_all
  have go_on: ?case if "post_loop (recording http) auth path body eps lastErr2 c2 s2 = (r, c', s')" "client_inv c0 c2 s2" for lastErr2 c2 s2
    using Cons.IH [OF that] Cons.prems(3) by (auto 0 3)
  show ?case
  proof (cases "\<exists>status resp. reply = Reply status resp")
    case False
    with Cons.prems(1) sent have "\<exists>l. post_loop (recording http) auth path body eps l c s1 = (r, c', s')"
      by (cases reply) auto
    with s1(1) show ?thesis using go_on by blast
  next
    case True
    then obtain status resp where Reply: "reply = Reply status resp" by blast
    consider (renew) "status = 401" "username c \<noteq> []" "path \<noteq> auth_path"
      | (other) "\<not> (status = 401 \<and> username c \<noteq> [] \<and> path \<noteq> auth_path)" "status \<noteq> 200"
      | (ok) "\<not> (status = 401 \<and> username c \<noteq> [] \<and> path \<noteq> auth_path)" "status = 200"
      by blast
    then show ?thesis
    proof cases
      case renew
      obtain e c2 s2 where a: "auth c s1 = (e, c2, s2)" by (cases "auth c s1")
      from auth [OF renew(3) a s1(1)] have c2: "client_inv c0 c2 s2" .
      from Cons.prems(1) renew Reply sent a have "\<exists>l. post_loop (recording http) auth path body eps l c2 s2 = (r, c', s')"
        by (cases e) auto
      with c2 show ?thesis using go_on by blast
    next
      case other
      from Cons.prems(1) other Reply sent have "\<exists>l. post_loop (recording http) auth path body eps l c s1 = (r, c', s')" by auto
      with s1(1) show ?thesis using go_on by blast
    next
      case ok
      with Cons.prems(1) Reply sent s1 show ?thesis by (auto simp: request_def)
    qed
  qed
qed auto

lemma authenticate_posts:
  "authenticate http c s =
     (if username c = [] then (None, c, s)
      else (case post_loop http no_auth auth_path (credentials_body c) (endpoints c) None c s of
          (Inl e, c, s) \<Rightarrow> (Some (AuthFailed e), c, s)
        | (Inr resp, c, s) \<Rightarrow>
            (case Unmarshal (dec_struct token_fields) [] resp of
               Inl e \<Rightarrow> (Some (AuthDecode e), c, s)
             | Inr tok \<Rightarrow> (None, c\<lparr>token := tok\<rparr>, s))))"
  by (simp only: authenticate_def credentials_body_def Let_def)

lemma client_authenticates:
  assumes "authenticate (recording http) c s = (e, c', s')" and inv: "client_inv c0 c s"
  shows "client_inv c0 c' s'"
proof (cases "username c = []")
  case True
  with assms show ?thesis by (simp add: authenticate_posts)
next
  case False
  obtain r c1 s1 where post: "post_loop (recording http) no_auth auth_path (credentials_body c) (endpoints c) None c s = (r, c1, s1)"
    by (cases "post_loop (recording http) no_auth auth_path (credentials_body c) (endpoints c) None c s")
  have "client_inv c0 c1 s1 \<and> (\<forall>resp. r = Inr resp \<longrightarrow> (\<exists>ep\<in>set (endpoints c). \<exists>rq. (rq, Reply 200 resp) \<in> set (fst s1) \<and>
      reqURL rq = ep @ auth_path \<and> reqBody rq = credentials_body c))"
    by (rule client_posts [OF post inv]) (use client_same [OF inv] False in \<open>auto simp: body_for_def\<close>)
  then have c1: "client_inv c0 c1 s1" and answer: "\<And>resp. r = Inr resp \<Longrightarrow> \<exists>ep\<in>set (endpoints c0). \<exists>rq. (rq, Reply 200 resp) \<in> set (fst s1) \<and>
      reqURL rq = ep @ auth_path \<and> reqBody rq = credentials_body c0"
    using client_same [OF inv] by auto
  show ?thesis
  proof (cases r)
    case (Inl err)
    with assms(1) False post c1 show ?thesis by (simp add: authenticate_posts)
  next
    case (Inr resp)
    show ?thesis
    proof (cases "Unmarshal (dec_struct token_fields) [] resp")
      case (Inl err)
      with assms(1) False post c1 Inr show ?thesis by (simp add: authenticate_posts)
    next
      case tok: (Inr tok)
      from answer [OF Inr] tok have "issued c0 (fst s1) tok" unfolding issued_def by blast
      with assms(1) False post c1 Inr tok client_same [OF inv] show ?thesis
        by (auto simp: authenticate_posts client_inv_def)
    qed
  qed
qed

lemma client_loads:
  assumes "loadAll (recording http) c s st = (r, c', s', st')" and inv: "client_inv c0 c s"
  shows "client_inv c0 c' s'"
proof -
  obtain p c1 s1 where post: "postAny (recording http) range_path (range_body key_prefix) c s = (p, c1, s1)"
    by (cases "postAny (recording http) range_path (range_body key_prefix) c s")
  have "body_for c0 range_path (range_body key_prefix)" by (simp add: body_for_def)
  then have "client_inv c0 c1 s1"
    using client_posts [OF post [unfolded postAny_def] inv _ _ client_authenticates] client_same(1) [OF inv] by simp
  with assms(1) post show ?thesis
    by (auto simp: loadAll_def rangePrefix_def split: sum.splits prod.splits)
qed

lemma client_watches:
  assumes "watch_round ko bo (recording http) c (loop, s) = (loop', s')" and inv: "client_inv c0 c s"
  shows "client_inv c0 c s'"
proof (cases "endpoints c")
  case Nil
  with assms show ?thesis by (cases loop) (simp add: watch_round_def watchPrefix_def pickEndpoint_def)
next
  case (Cons ep eps)
  let ?rq = "request ep watch_path (watch_body key_prefix (snd loop)) c"
  obtain reply s1 where sent: "recording http ?rq s = (reply, s1)" by (cases "recording http ?rq s")
  have "body_for c0 watch_path (watch_body key_prefix (snd loop))" by (auto simp: body_for_def)
  moreover have "ep \<in> set (endpoints c0)" using client_same(1) [OF inv] Cons by (metis list.set_intros(1))
  ultimately have "client_inv c0 c s1" using client_sends [OF sent inv] by blast
  with assms(1) sent Cons show ?thesis
    by (cases loop; cases reply) (auto simp: watch_round_def watchPrefix_def pickEndpoint_def split: if_splits)
qed

section \<open>The registry at work\<close>

record 'n registry_run =
  rnClient :: etcdClient
  rnLoop :: "Store \<times> int"
  rnNet :: "traffic \<times> 'n"

text \<open>After \<open>Start\<close>, from a registry as \<open>NewEtcdRegistry\<close> makes it.\<close>

definition registry_started :: "'n transport \<Rightarrow> EtcdConfig \<Rightarrow> 'n registry_run \<Rightarrow> bool" where
  "registry_started http cfg x \<longleftrightarrow> (\<exists>r rv r' net. NewEtcdRegistry cfg = Inr r \<and>
     EtcdRegistry_Start (recording http) r ([], net) = (Inr rv, r', rnNet x) \<and>
     rnClient x = client r' \<and> rnLoop x = (rstore r', wrap64 (rv + 1)))"

inductive registry_turn :: "'n transport \<Rightarrow> 'n registry_run \<Rightarrow> 'n registry_run \<Rightarrow> bool" for http where
  watch_turn: "watch_round ko bo (recording http) (rnClient x) (rnLoop x, rnNet x) = (loop, s) \<Longrightarrow>
    registry_turn http x (x\<lparr>rnLoop := loop, rnNet := s\<rparr>)"
| reload_turn: "reconcile (recording http) (rnClient x) (rnNet x) (fst (rnLoop x)) = (c, s, st) \<Longrightarrow>
    registry_turn http x (x\<lparr>rnClient := c, rnLoop := (st, snd (rnLoop x)), rnNet := s\<rparr>)"
| elsewhere: "registry_turn http x (x\<lparr>rnNet := (fst (rnNet x), net)\<rparr>)"

definition client_of :: "EtcdConfig \<Rightarrow> etcdClient" where
  "client_of cfg = newEtcdClient (Endpoints cfg) (Username cfg) (Password cfg)"

lemma NewEtcdRegistry_client: "NewEtcdRegistry cfg = Inr r \<Longrightarrow> client r = client_of cfg"
  by (auto simp: NewEtcdRegistry_def client_of_def Let_def split: if_splits)

lemma start_keeps:
  assumes "NewEtcdRegistry cfg = Inr r" and "EtcdRegistry_Start (recording http) r ([], net) = (res, r', s)"
  shows "client_inv (client_of cfg) (client r') s"
proof -
  have inv: "client_inv (client_of cfg) (client r) (([] :: traffic), net)"
    by (simp add: NewEtcdRegistry_client [OF assms(1)] client_inv_def client_of_def newEtcdClient_def)
  obtain e c1 s1 where auth: "(if username (client r) \<noteq> [] then authenticate (recording http) (client r) ([], net) else (None, client r, [], net)) = (e, c1, s1)"
    by (cases "(if username (client r) \<noteq> [] then authenticate (recording http) (client r) ([], net) else (None, client r, [], net))")
  have c1: "client_inv (client_of cfg) c1 s1"
    using auth inv by (auto dest: client_authenticates split: if_splits)
  obtain l c2 s2 st where load: "loadAll (recording http) c1 s1 (rstore r) = (l, c2, s2, st)"
    by (cases "loadAll (recording http) c1 s1 (rstore r)")
  from client_loads [OF load c1] assms(2) auth load c1 show ?thesis
    by (cases e; cases l) (auto simp: EtcdRegistry_Start_def)
qed

interpretation registry_runs: inductive_invariant "registry_started http cfg" "registry_turn http"
  "\<lambda>x. client_inv (client_of cfg) (rnClient x) (rnNet x)" for http cfg
proof
  show "client_inv (client_of cfg) (rnClient x) (rnNet x)" if "registry_started http cfg x" for x
    using that start_keeps unfolding registry_started_def by metis
  show "client_inv (client_of cfg) (rnClient y) (rnNet y)"
    if "registry_turn http x y" "client_inv (client_of cfg) (rnClient x) (rnNet x)" for x y
    using that
  proof cases
    case (reload_turn c s st)
    obtain r where "loadAll (recording http) (rnClient x) (rnNet x) (fst (rnLoop x)) = (r, c, s, st)"
      using reload_turn(2) by (cases "loadAll (recording http) (rnClient x) (rnNet x) (fst (rnLoop x))") (simp add: reconcile_def)
    from client_loads [OF this that(2)] reload_turn(1) show ?thesis by simp
  next
    case elsewhere
    with that(2) show ?thesis by (simp add: client_inv_def)
  qed (auto dest: client_watches)
qed

text \<open>
  C18: the registry says nothing it should not. Whatever the endpoints answer and however rounds of the watch
  and reloads follow each other, every request the registry has sent goes to a configured
  endpoint and is a login, a range over its key prefix or a watch of it; name and password are in
  logins only; and a token in a request is one that a configured endpoint has issued before in
  answer to these credentials, so that without a user none is ever sent.
\<close>

theorem requests_carry_issued_tokens:
  assumes "reach (registry_started http cfg) (registry_turn http) x" and "k < length (fst (rnNet x))"
    and "rq = fst (fst (rnNet x) ! k)"
  shows "(\<exists>ep\<in>set (Endpoints cfg). \<exists>path. reqURL rq = ep @ path \<and> body_for (client_of cfg) path (reqBody rq)) \<and>
    (\<forall>tok. reqToken rq = Some tok \<longrightarrow> Username cfg \<noteq> [] \<and> issued (client_of cfg) (take k (fst (rnNet x))) tok)"
proof -
  have "client_inv (client_of cfg) (rnClient x) (rnNet x)" using assms(1) by (rule registry_runs.inv_reach)
  with assms(2,3) show ?thesis
    by (auto simp: client_inv_def all_proper_def proper_def client_of_def newEtcdClient_def)
qed

text \<open>A network with one endpoint, which wants a login and holds an empty key-space.\<close>

definition login_transport :: "unit transport" where
  "login_transport rq n =
     (if reqURL rq = ''http://a'' @ auth_path then (Reply 200 (quoted ''{`token`:`t1`}''), n)
      else if reqToken rq = Some ''t1'' then (Reply 200 (gateway_range [] 7), n) else (Reply 401 [], n))"

definition login_config :: EtcdConfig where
  "login_config = \<lparr>Endpoints = [''http://a''], DialTimeout = 5, Username = ''root'', Password = ''pw'', ReconcileInterval = 60\<rparr>"

theorem requests_carry_issued_tokens_witness:
  "\<exists>x rq. reach (registry_started login_transport login_config) (registry_turn login_transport) x \<and> rq = fst (fst (rnNet x) ! 1) \<and>
    reqToken rq = Some ''t1'' \<and> issued (client_of login_config) (take 1 (fst (rnNet x))) ''t1''"
proof -
  let ?c = "client_of login_config"
  let ?login = "\<lparr>reqURL = ''http://a'' @ auth_path, reqBody = credentials_body ?c, reqToken = None\<rparr>"
  let ?range = "\<lparr>reqURL = ''http://a'' @ range_path, reqBody = range_body key_prefix, reqToken = Some ''t1''\<rparr>"
  let ?log = "[(?login, Reply 200 (quoted ''{`token`:`t1`}'')), (?range, Reply 200 (gateway_range [] 7))]"
  have c: "endpoints ?c = [''http://a'']" "username ?c = ''root''" "token ?c = []"
    by (simp_all add: client_of_def login_config_def newEtcdClient_def)
  obtain r where r: "NewEtcdRegistry login_config = Inr r" by (simp add: NewEtcdRegistry_def login_config_def)
  note rc = NewEtcdRegistry_client [OF r]
  have tok: "Unmarshal (dec_struct token_fields) [] (quoted ''{`token`:`t1`}'') = Inr ''t1''" by code_simp
  have "authenticate (recording login_transport) ?c ([], ()) = (None, ?c\<lparr>token := ''t1''\<rparr>, [hd ?log], ())"
    by (simp add: authenticate_posts c tok recording_def request_def login_transport_def)
  moreover have "decode_range (gateway_range [] 7) = Inr ([], 7)"
    by (rule decode_gateway_range) (simp add: in_range_def)
  then have "loadAll (recording login_transport) (?c\<lparr>token := ''t1''\<rparr>) ([hd ?log], ()) st =
      (Inr 7, ?c\<lparr>token := ''t1''\<rparr>, (?log, ()), Swap (build_mapping [] 7) st)" for st
    by (simp add: loadAll_def rangePrefix_def postAny_def c recording_def request_def login_transport_def range_path_def auth_path_def)
  ultimately obtain r' where start: "EtcdRegistry_Start (recording login_transport) r ([], ()) = (Inr 7, r', (?log, ()))"
    by (simp add: EtcdRegistry_Start_def rc c)
  let ?x = "\<lparr>rnClient = client r', rnLoop = (rstore r', wrap64 (7 + 1)), rnNet = (?log, ())\<rparr>"
  have "registry_started login_transport login_config ?x"
    unfolding registry_started_def using r start by (intro exI [of _ r] exI [of _ 7] exI [of _ r'] exI [of _ "()"]) simp
  then have x: "reach (registry_started login_transport login_config) (registry_turn login_transport) ?x" by (rule reach_start)
  from requests_carry_issued_tokens [OF x, of 1, OF _ refl] have "issued ?c (take 1 (fst (rnNet ?x))) ''t1''" by simp
  with x show ?thesis by (intro exI [of _ ?x] exI [of _ ?range]) simp
qed

end
