(* ===== verification/Typed.thy ===== *)
theory Typed
  imports Registry_Sync Registry_File Router
begin

text \<open>
  The types Go gives the shard map, which the model writes as \<open>int\<close>: whatever bytes the file or
  etcd deliver, every number in the map fits its Go type, so no later use of one can wrap around
  unseen, and every bucket carries the number it is stored under.
\<close>

section \<open>Types of the records\<close>

definition typed_endpoint :: "Endpoint \<Rightarrow> bool" where
  "typed_endpoint e \<longleftrightarrow> in_int64 (Port e)"

definition typed_shard :: "ShardDef \<Rightarrow> bool" where
  "typed_shard s \<longleftrightarrow> typed_endpoint (Writer s) \<and> (\<forall>e. Reader s = Some e \<longrightarrow> typed_endpoint e)"

definition typed_bucket :: "BucketDef \<Rightarrow> bool" where
  "typed_bucket b \<longleftrightarrow> in_int64 (BucketID b) \<and> in_int64 (MappingVersion b)"

definition typed_mapping :: "Mapping \<Rightarrow> bool" where
  "typed_mapping m \<longleftrightarrow> wf_mapping m \<and> in_int64 (Revision m) \<and>
     (\<forall>k s. Shards m k = Some s \<longrightarrow> typed_shard s) \<and> (\<forall>i b. Buckets m i = Some b \<longrightarrow> typed_bucket b)"

definition typed_store :: "Store \<Rightarrow> bool" where
  "typed_store st \<longleftrightarrow> (\<forall>m. Load st = Some m \<longrightarrow> typed_mapping m)"

lemma zero_int64 [simp]: "in_int64 0" "in_int64 1"
  by (simp_all add: in_range_def)

section \<open>Decoding keeps types\<close>

text \<open>A structure decoder keeps what each of its fields keeps.\<close>

lemma find_field_member: "find_field fs k = Some f \<Longrightarrow> \<exists>n. (n, f) \<in> set fs"
  by (auto simp: find_field_def find_Some_iff dest!: map_of_SomeD split: option.splits) (metis nth_mem)

lemma dec_members_keeps:
  assumes "\<And>n f s j s'. (n, f) \<in> set fs \<Longrightarrow> f s j = Some s' \<Longrightarrow> P s \<Longrightarrow> P s'"
  shows "dec_members fs kvs s = Some s' \<Longrightarrow> P s \<Longrightarrow> P s'"
proof (induction kvs arbitrary: s)
  case (Cons kv kvs)
  obtain k j where kv: "kv = (k, j)" by (cases kv)
  show ?case
  proof (cases "find_field fs k")
    case (Some f)
    then obtain x where "f s j = Some x" "dec_members fs kvs x = Some s'"
      using Cons.prems(1) by (auto simp: kv split: option.splits)
    then show ?thesis using Cons.IH assms find_field_member [OF Some] Cons.prems(2) by blast
  qed (use Cons in \<open>simp add: kv\<close>)
qed simp

lemma dec_struct_keeps:
  assumes "\<And>n f s j s'. (n, f) \<in> set fs \<Longrightarrow> f s j = Some s' \<Longrightarrow> P s \<Longrightarrow> P s'"
  shows "dec_struct fs j s = Some s' \<Longrightarrow> P s \<Longrightarrow> P s'"
  using dec_members_keeps [of fs P, OF assms] by (cases j) (auto simp: dec_struct_def)

lemma int_field_typed: "int_field upd s j = Some s' \<Longrightarrow> s' = s \<or> (\<exists>i. in_int64 i \<and> s' = upd i s)"
  by (auto simp: int_field_def dest: Atoi_in_range split: json.splits sum.splits)

lemma str_field_typed: "str_field upd s j = Some s' \<Longrightarrow> s' = s \<or> (\<exists>x. s' = upd x s)"
  by (auto simp: str_field_def split: json.splits)

lemmas field_typed = int_field_typed str_field_typed

lemma dec_Endpoint_typed: "dec_Endpoint j e = Some e' \<Longrightarrow> typed_endpoint e \<Longrightarrow> typed_endpoint e'"
  unfolding dec_Endpoint_def
  by (erule dec_struct_keeps [rotated]) (auto simp: Endpoint_fields_def typed_endpoint_def dest!: field_typed)

lemma zero_typed: "typed_endpoint zero_Endpoint" "typed_shard zero_ShardDef" "typed_bucket zero_BucketDef"
  by (simp_all add: typed_endpoint_def typed_shard_def typed_bucket_def zero_Endpoint_def zero_ShardDef_def zero_BucketDef_def)

lemma dec_reader_typed:
  assumes "dec_ptr dec_Endpoint zero_Endpoint j r = Some r'" and "\<forall>e. r = Some e \<longrightarrow> typed_endpoint e" and "r' = Some e'"
  shows "typed_endpoint e'"
  using assms dec_Endpoint_typed zero_typed(1) by (auto simp: dec_ptr_def split: json.splits option.splits)

lemma dec_ShardDef_typed: "dec_ShardDef j s = Some s' \<Longrightarrow> typed_shard s \<Longrightarrow> typed_shard s'"
  unfolding dec_ShardDef_def
proof (erule dec_struct_keeps [rotated])
  fix n f t i t'
  assume f: "(n, f) \<in> set ShardDef_fields" "f t i = Some t'" and t: "typed_shard t"
  from f(1) consider (str) upd where "f = str_field upd" "\<And>x. typed_shard (upd x t)"
    | (writer) "f = sub_field dec_Endpoint Writer (\<lambda>x. Writer_update (\<lambda>_. x))"
    | (reader) "f = sub_field (dec_ptr dec_Endpoint zero_Endpoint) Reader (\<lambda>x. Reader_update (\<lambda>_. x))"
    using t unfolding ShardDef_fields_def by (force simp: typed_shard_def)
  then show "typed_shard t'"
  proof cases
    case str
    then show ?thesis using f(2) t str_field_typed [of upd t i t'] by auto
  next
    case writer
    then show ?thesis using f(2) t dec_Endpoint_typed [of i "Writer t"] by (auto simp: sub_field_def typed_shard_def)
  next
    case reader
    then show ?thesis using f(2) t dec_reader_typed [of i "Reader t"] by (auto simp: sub_field_def typed_shard_def)
  qed
qed

lemma dec_BucketDef_typed: "dec_BucketDef j b = Some b' \<Longrightarrow> typed_bucket b \<Longrightarrow> typed_bucket b'"
  unfolding dec_BucketDef_def
  by (erule dec_struct_keeps [rotated]) (auto simp: BucketDef_fields_def typed_bucket_def dest!: field_typed)

lemma Unmarshal_typed:
  "Unmarshal_ShardDef v = Inr s \<Longrightarrow> typed_shard s" "Unmarshal_BucketDef v = Inr b \<Longrightarrow> typed_bucket b"
  using dec_ShardDef_typed zero_typed(2) dec_BucketDef_typed zero_typed(3)
  by (auto simp: Unmarshal_def split: option.splits)

section \<open>Operations keep types\<close>

lemma bucketIDFromKey_int64: "bucketIDFromKey k = Some i \<Longrightarrow> in_int64 i"
  by (auto simp: bucketIDFromKey_iff dest: Atoi_in_range)

lemma fill_ShardID_typed: "typed_shard (fill_ShardID sid s) = typed_shard s"
  by (simp add: fill_ShardID_def typed_shard_def)

lemma numbered_bucket_typed: "typed_bucket b \<Longrightarrow> in_int64 i \<Longrightarrow> typed_bucket (b\<lparr>BucketID := i\<rparr>)"
  by (simp add: typed_bucket_def)

lemma applyKV_typed:
  assumes "typed_mapping m"
  shows "typed_mapping (fst (applyKV m k v d))"
proof -
  have "Shards (fst (applyKV m k v d)) sid = Some s \<Longrightarrow> typed_shard s" for sid s
    using assms Unmarshal_typed(1) [of v] unfolding typed_mapping_def applyKV_def
    by (auto simp: fill_ShardID_typed split: option.splits sum.splits if_splits)
  moreover have "Buckets (fst (applyKV m k v d)) i = Some b \<Longrightarrow> typed_bucket b" for i b
    using assms Unmarshal_typed(2) [of v] bucketIDFromKey_int64 [of k] unfolding typed_mapping_def applyKV_def
    by (auto simp: numbered_bucket_typed split: option.splits sum.splits if_splits)
  ultimately show ?thesis
    using assms by (simp add: typed_mapping_def applyKV_wf applyKV_Revision)
qed

lemma fold_typed: "(\<And>x m. typed_mapping m \<Longrightarrow> typed_mapping (f x m)) \<Longrightarrow> typed_mapping m \<Longrightarrow> typed_mapping (fold f xs m)"
  by (induction xs arbitrary: m) simp_all

lemma typed_Revision: "typed_mapping m \<Longrightarrow> in_int64 r \<Longrightarrow> typed_mapping (m\<lparr>Revision := r\<rparr>)"
  by (simp add: typed_mapping_def wf_mapping_def)

lemma empty_mapping_typed: "in_int64 rv \<Longrightarrow> typed_mapping (empty_mapping rv)"
  by (simp add: typed_mapping_def empty_mapping_wf) (simp add: empty_mapping_def)

lemma build_mapping_typed: "in_int64 rv \<Longrightarrow> typed_mapping (build_mapping kvs rv)"
  unfolding build_mapping_def by (rule fold_typed) (auto simp: applyKV_typed empty_mapping_typed)

lemma apply_batch_typed: "typed_mapping m \<Longrightarrow> in_int64 (BatchRevision b) \<Longrightarrow> typed_mapping (apply_batch b m)"
  unfolding apply_batch_def Let_def
  by (simp add: fold_typed apply_event_def applyKV_typed typed_Revision)

lemma scan_revision_int64: "in_int64 (scan_revision s)"
  by (auto simp: scan_revision_def dest: Sscanf_d_range split: sum.split)

lemma stream_batches_int64: "b \<in> set (stream_batches s) \<Longrightarrow> in_int64 (BatchRevision b)"
proof (induction s rule: stream_batches.induct)
  case (1 s)
  show ?case
  proof (cases "Decode (dec_struct msg_fields) zero_watchMsg s")
    case (Inr x)
    obtain msg r where x: "x = (msg, r)" by (cases x)
    have "b \<in> set (if MsgCreated msg then stream_batches r
        else if MsgCanceled msg then [decode_batch msg] else decode_batch msg # stream_batches r)"
      using 1(3) Inr x by (simp add: stream_batches.simps [of s])
    then show ?thesis
      using 1(1,2) Inr x by (auto simp: decode_batch_def Let_def scan_revision_int64 split: if_splits)
  qed (use 1(3) in \<open>simp add: stream_batches.simps [of s]\<close>)
qed

lemma watchPrefix_int64: "watchPrefix http p rv c net = (Inr bs, net') \<Longrightarrow> b \<in> set bs \<Longrightarrow> in_int64 (BatchRevision b)"
  by (auto simp: watchPrefix_def stream_batches_int64 split: sum.splits prod.splits httpReply.splits if_splits)

lemma rangePrefix_int64: "rangePrefix http p c net = (Inr (kvs, rv), c', net') \<Longrightarrow> in_int64 rv"
  by (auto simp: rangePrefix_def decode_range_def scan_revision_int64 split: sum.splits prod.splits)

lemma loadAll_typed: "typed_store st \<Longrightarrow> loadAll http c net st = (r, c', net', st') \<Longrightarrow> typed_store st'"
  by (auto simp: loadAll_def typed_store_def Load_def Swap_def
      intro: build_mapping_typed dest: rangePrefix_int64 split: sum.splits prod.splits)

lemma next_snapshot_typed:
  assumes "orders ko bo" and "typed_store st" and "in_int64 (BatchRevision b)"
  shows "typed_mapping (next_snapshot ko bo st b)"
proof (cases st)
  case None
  then show ?thesis using assms(3) by (simp add: next_snapshot_def Load_def apply_batch_typed empty_mapping_typed)
next
  case (Some m)
  then have "typed_mapping m" using assms(2) by (simp add: typed_store_def Load_def)
  then show ?thesis
    using Some assms(3) next_snapshot_loaded [OF assms(1), of m b] apply_batch_typed [of m b] by (simp add: typed_mapping_def)
qed

lemma typed_store_Some: "typed_store (Some m) \<longleftrightarrow> typed_mapping m"
  by (simp add: typed_store_def Load_def)

lemma watch_pass_typed:
  "orders ko bo \<Longrightarrow> typed_store st \<Longrightarrow> \<forall>b\<in>set bs. in_int64 (BatchRevision b) \<Longrightarrow> typed_store (fst (watch_pass ko bo bs (st, w)))"
proof (induction bs arbitrary: st w)
  case (Cons b bs)
  then show ?case
    using next_snapshot_typed [OF Cons.prems(1,2), of b] by (simp add: typed_store_Some Swap_def)
qed simp

lemma watch_round_typed:
  assumes "orders ko bo" and "typed_store (fst (fst s))"
  shows "typed_store (fst (fst (watch_round ko bo http c s)))"
proof -
  obtain st w net where s: "s = ((st, w), net)" by (metis prod.exhaust)
  obtain r net' where w: "watchPrefix http key_prefix w c net = (r, net')" by fastforce
  show ?thesis
  proof (cases r)
    case (Inr bs)
    then have "\<forall>b\<in>set bs. in_int64 (BatchRevision b)" using watchPrefix_int64 [of http key_prefix w c net bs net'] w by simp
    then show ?thesis
      using watch_pass_typed [OF assms(1), of st bs w] w Inr assms(2) by (simp add: watch_round_def s)
  qed (use w assms(2) in \<open>simp add: watch_round_def s\<close>)
qed

lemma watchLoop_typed:
  assumes "orders ko bo" and "typed_store st"
  shows "typed_store (fst (fst (watchLoop n ko bo http c rv st net)))"
  unfolding watchLoop_def using assms(2) by (induction n) (simp_all add: watch_round_typed [OF assms(1)])

section \<open>The file\<close>

lemma dec_entries_typed:
  assumes "\<And>j x. dec j zero = Some x \<Longrightarrow> P x"
  shows "dec_entries dec zero kvs m = Some m' \<Longrightarrow> \<forall>x\<in>set m. P (snd x) \<Longrightarrow> \<forall>x\<in>set m'. P (snd x)"
proof (induction kvs arbitrary: m)
  case (Cons kv kvs)
  obtain k j where kv: "kv = (k, j)" by (cases kv)
  show ?case
  proof (cases "dec j zero")
    case (Some x)
    have "\<forall>y\<in>set (AList.update k x m). P (snd y)"
      using Cons.prems(2) assms [OF Some] by (induction m) auto
    with Cons Some show ?thesis by (simp add: kv)
  qed (use Cons in \<open>simp add: kv\<close>)
qed simp

lemma dec_map_typed:
  assumes "\<And>j x. dec j zero = Some x \<Longrightarrow> P x"
    and "dec_map dec zero j m = Some m'" and "\<forall>x\<in>set m. P (snd x)"
  shows "\<forall>x\<in>set m'. P (snd x)"
  using assms(2,3) dec_entries_typed [of dec zero P, OF assms(1)] by (auto simp: dec_map_def split: json.splits)

lemma dec_doc_typed:
  "dec_map dec_ShardDef zero_ShardDef j m = Some m' \<Longrightarrow> \<forall>x\<in>set m. typed_shard (snd x) \<Longrightarrow> \<forall>x\<in>set m'. typed_shard (snd x)"
  "dec_map dec_BucketDef zero_BucketDef j n = Some n' \<Longrightarrow> \<forall>x\<in>set n. typed_bucket (snd x) \<Longrightarrow> \<forall>x\<in>set n'. typed_bucket (snd x)"
proof -
  assume "dec_map dec_ShardDef zero_ShardDef j m = Some m'" "\<forall>x\<in>set m. typed_shard (snd x)"
  then show "\<forall>x\<in>set m'. typed_shard (snd x)"
    by (rule dec_map_typed [rotated]) (rule dec_ShardDef_typed [OF _ zero_typed(2)])
next
  assume "dec_map dec_BucketDef zero_BucketDef j n = Some n'" "\<forall>x\<in>set n. typed_bucket (snd x)"
  then show "\<forall>x\<in>set n'. typed_bucket (snd x)"
    by (rule dec_map_typed [rotated]) (rule dec_BucketDef_typed [OF _ zero_typed(3)])
qed

definition typed_doc :: "fileDoc \<Rightarrow> bool" where
  "typed_doc d \<longleftrightarrow> (\<forall>x\<in>set (doc_shards d). typed_shard (snd x)) \<and> (\<forall>x\<in>set (doc_buckets d). typed_bucket (snd x))"

lemma Unmarshal_fileDoc_typed: "Unmarshal_fileDoc data = Inr doc \<Longrightarrow> typed_doc doc"
proof -
  assume "Unmarshal_fileDoc data = Inr doc"
  then obtain j where "dec_struct fileDoc_fields j zero_fileDoc = Some doc"
    by (auto simp: Unmarshal_def split: option.splits)
  moreover have "typed_doc zero_fileDoc" by (simp add: typed_doc_def zero_fileDoc_def)
  moreover have "f d j = Some d' \<Longrightarrow> typed_doc d \<Longrightarrow> typed_doc d'" if "(n, f) \<in> set fileDoc_fields" for n f d j d'
    using that unfolding fileDoc_fields_def sub_field_def typed_doc_def
    by (auto dest!: dec_doc_typed)
  ultimately show ?thesis by (rule dec_struct_keeps [rotated])
qed

lemma insert_buckets_typed:
  "fold_result insert_bucket kbs bs = Inr bs' \<Longrightarrow> \<forall>x\<in>set kbs. typed_bucket (snd x) \<Longrightarrow>
    \<forall>i b. bs i = Some b \<longrightarrow> typed_bucket b \<Longrightarrow> bs' i = Some b \<Longrightarrow> typed_bucket b"
proof (induction kbs arbitrary: bs)
  case (Cons kb kbs)
  obtain k x where kb: "kb = (k, x)" by (cases kb)
  with Cons.prems(1) obtain n where n: "parseBucketID k = Inr n" "fold_result insert_bucket kbs (bs(n \<mapsto> x\<lparr>BucketID := n\<rparr>)) = Inr bs'"
    by (auto split: sum.splits)
  moreover have "typed_bucket (x\<lparr>BucketID := n\<rparr>)"
    using Cons.prems(2) kb n(1) by (simp add: numbered_bucket_typed parseBucketID_def Sscanf_d_range)
  ultimately show ?case using Cons.IH [OF n(2)] Cons.prems by simp
qed simp

lemma FileRegistry_Start_typed:
  assumes "\<And>xs. set (order xs) \<subseteq> set xs" and "typed_store st"
  shows "typed_store (snd (FileRegistry_Start contents order st))"
proof (cases "\<exists>data doc bs. contents = Inr data \<and> Unmarshal_fileDoc data = Inr doc \<and>
    fold_result insert_bucket (order (doc_buckets doc)) Map.empty = Inr bs")
  case True
  then obtain data doc bs where d: "contents = Inr data" "Unmarshal_fileDoc data = Inr doc"
    "fold_result insert_bucket (order (doc_buckets doc)) Map.empty = Inr bs" by blast
  note doc = Unmarshal_fileDoc_typed [OF d(2)]
  have "\<forall>i b. bs i = Some b \<longrightarrow> typed_bucket b"
  proof (intro allI impI)
    fix i b assume "bs i = Some b"
    moreover have "\<forall>x\<in>set (order (doc_buckets doc)). typed_bucket (snd x)"
      using doc assms(1) [of "doc_buckets doc"] by (auto simp: typed_doc_def)
    ultimately show "typed_bucket b" using insert_buckets_typed [OF d(3)] by simp
  qed
  moreover have "\<forall>k s. map_of (doc_shards doc) k = Some s \<longrightarrow> typed_shard s"
    using doc by (fastforce simp: typed_doc_def dest: map_of_SomeD)
  ultimately show ?thesis
    using insert_buckets_wf [OF d(3)] d by (simp add: FileRegistry_Start_def Swap_def typed_store_Some typed_mapping_def)
next
  case False
  then show ?thesis using assms(2) by (auto simp: FileRegistry_Start_def split: sum.splits)
qed

section \<open>The store is well typed\<close>

text \<open>
  C22: the shard map is well typed whatever arrives. Loading from etcd or from a file, and any number of
  watch rounds, whatever bytes the network or the file delivers, keep the store well typed: the
  revision, every port, every bucket number and every mapping version in it is a 64-bit integer,
  and every bucket carries the number it is stored under.
\<close>

theorem stores_well_typed:
  assumes "typed_store st" and "orders ko bo" and "\<And>xs. set (order xs) \<subseteq> set xs"
  shows "typed_store (snd (snd (snd (loadAll http c net st)))) \<and>
    typed_store (fst (fst (watchLoop n ko bo http c rv st net))) \<and>
    typed_store (snd (FileRegistry_Start contents order st))"
proof (intro conjI)
  show "typed_store (snd (snd (snd (loadAll http c net st))))"
    using loadAll_typed [OF assms(1)] by (metis prod.collapse)
  show "typed_store (fst (fst (watchLoop n ko bo http c rv st net)))"
    using assms(2,1) by (rule watchLoop_typed)
  show "typed_store (snd (FileRegistry_Start contents order st))"
    using assms(3,1) by (rule FileRegistry_Start_typed)
qed

theorem stores_well_typed_witness:
  "typed_store (fst (fst (watchLoop 3 key_order key_order follow_transport (newEtcdClient [''http://etcd''] [] []) 7 NewStore ())))"
proof -
  have "typed_store NewStore" by (simp add: typed_store_def NewStore_def Load_def)
  then show ?thesis
    using stores_well_typed [OF _ key_orders, of NewStore id follow_transport "newEtcdClient [''http://etcd''] [] []" "()" 3 7] by simp
qed

end
