(* ===== verification/Spec2Isabelle.thy ===== *)
theory Spec2Isabelle
  imports Number_Keys Api_Pages Lifecycle Reports Counting Live Loops Watch_Stream Credentials Typed
begin

text \<open>
  Verification development of the shard router, a Go service that maps a business shard key to
  a PostgreSQL shard through a table of virtual buckets kept in etcd.

  \<^bold>\<open>The program.\<close> A request carries a shard key. The key's text is hashed into a bucket
  (\<open>internal/hashing\<close>); the current snapshot of the shard map (\<open>internal/cache\<close>) assigns the bucket
  to a source shard and, during a migration, to a destination; \<open>internal/router\<close> decides from the
  migration state which shard serves reads and which ones get writes; \<open>internal/pool\<close> hands out a
  connection behind the shard's circuit breaker (\<open>internal/breaker\<close>), with credentials from
  \<open>internal/secrets\<close>; \<open>internal/api\<close> runs the statement, answers, counts (\<open>internal/metrics\<close>) and
  starts a goroutine for a dual write. The map comes from a file or from etcd
  (\<open>internal/registry\<close>): a load of the key-space, a watch that applies events to a copy of the
  snapshot, and a periodic reload. \<open>cmd/shard-router/main.go\<close> puts them together from the
  environment (\<open>internal/config\<close>).

  \<^bold>\<open>Conventions.\<close> A Go string or byte slice is \<open>bytes\<close>, a list of \<open>char\<close>. An \<open>int\<close> of Go is an \<open>int\<close>
  of HOL with \<open>wrap64\<close> or \<open>wrap32\<close> where an operation or a conversion can leave the range; the hash is
  computed on machine words. \<open>(T, error)\<close> is the sum \<open>(error, T) result\<close>; a panic is \<open>None\<close>. A map is
  a partial function, with the order of an iteration an argument where the code iterates. A
  method that changes its receiver returns it updated, in the order of the code's critical
  sections; what other goroutines do in between is an argument or a step of a relation. An
  atomic pointer is the value it holds at the time of the load. Names are those of the code,
  with a prefix or a suffix where HOL or another package has the name already.

  \<^bold>\<open>Standard library.\<close> \<open>Go_Prelude\<close> (integers, results, reachability and simulation locales),
  \<open>Go_Strconv\<close> (\<open>Atoi\<close>, decimal formatting), \<open>Go_Utf8\<close> (rune decoding, \<open>Sscanf\<close> with \<open>%d\<close>),
  \<open>Go_Fmt\<close> (\<open>%v\<close>, with shortest decimal output of a \<open>float64\<close>), \<open>Go_Json\<close>, \<open>Go_Decode\<close> and
  \<open>Go_Encode\<close> (the grammar, decoding into structures by field tables, compact encoding, and the
  round trip), \<open>Go_Text\<close> (\<open>%q\<close>, \<open>Split\<close>, \<open>TrimSpace\<close>, URL queries), \<open>Base64\<close>, \<open>Sha256\<close> with
  \<open>Sha256_Eval\<close> (a version on lists of bits that the kernel evaluates, proved equal).

  \<^bold>\<open>Components.\<close>
  \<^item> \<open>Hashing\<close>, \<open>Golden_Vectors\<close>: \<open>hash.go\<close>. The contract of a bucket hash is a locale; the
    golden vectors of \<open>testdata\<close> are theorems. \<open>Number_Keys\<close>: up to which size a number in the JSON of
    a query and its text are one key, from the spelling \<open>%v\<close> gives a \<open>float64\<close>.
  \<^item> \<open>Model\<close>, \<open>Model_Json\<close>, \<open>Cache\<close>: \<open>types.go\<close> with its JSON tags, \<open>mapping.go\<close>.
  \<^item> \<open>Router\<close>: \<open>router.go\<close>. \<open>resolve_spec\<close> is the read/write table of the README, and \<open>Resolve\<close> is
    proved to implement it; safety, errors, totality and handover are read off from it.
  \<^item> \<open>Breaker\<close>, \<open>Secrets\<close>, \<open>Pool\<close>: \<open>breaker.go\<close>, \<open>provider.go\<close>, \<open>manager.go\<close>. The interleavings of
    \<open>poolFor\<close>, the reaper and \<open>Close\<close> are the step relation \<open>pool_step\<close>, with the invariant that a
    pool in use is the one in the map and that every pool created is accounted for.
  \<^item> \<open>Registry\<close>, \<open>Registry_File\<close>: \<open>keys.go\<close>, \<open>applyKV\<close> and the construction of snapshots in \<open>etcd.go\<close>,
    \<open>file.go\<close>. \<open>represents\<close> says what a snapshot shows of a key-space, and events keep it.
  \<^item> \<open>Etcd_Http\<close>, \<open>Etcd_Wire\<close>: \<open>etcdhttp.go\<close>, and the documents etcd's gateway sends, read back.
  \<^item> \<open>Registry_Sync\<close>: the loops of \<open>etcd.go\<close>, from bytes on the wire to the store, and both loops
    side by side as the step relation \<open>sync_step\<close>.
  \<^item> \<open>Watch_Stream\<close>: the goroutine of \<open>watchPrefix\<close> and the loop over its channel, step by step
    (\<open>watch_move\<close>): under every interleaving they do what \<open>watch_round\<close> does in one piece, and both end.
  \<^item> \<open>Credentials\<close>: the client the two loops share (\<open>registry_turn\<close>) and the traffic it makes: every request
    is one of three, to a configured endpoint, and a token in it was issued for the credentials.
  \<^item> \<open>Loops\<close>: \<open>watchLoop\<close>, \<open>reconcileLoop\<close> and \<open>sleepOrDone\<close> in time, with the cancellation of their
    context, the pauses and the ticker; both loops end with the context, and reloads are on time.
  \<^item> \<open>Typed\<close>: the numbers of the map stay within the Go types, whatever a file or etcd delivers.
  \<^item> \<open>Registry_Interface\<close>: \<open>registry.go\<close> as the locale \<open>shard_registry\<close>, interpreted on both registries.
  \<^item> \<open>Metrics\<close>, \<open>Config\<close>: \<open>metrics.go\<close>, \<open>config.go\<close>, the latter with \<open>ParseDuration\<close>.
  \<^item> \<open>Api\<close>: the handlers of \<open>server.go\<close>; \<open>Api_Query\<close> on \<open>/v1/query\<close>, \<open>Dual_Write\<close> on requests and the
    goroutines they start (\<open>write_step\<close>), \<open>Api_Pages\<close> on the other pages.
  \<^item> \<open>Goroutines\<close>: the handlers, the second writes and the reaper cut at their critical sections
    (\<open>work_step\<close>, \<open>reap_step\<close>, \<open>svc_step\<close>), in any interleaving, with the map changing meanwhile: who
    holds which connection, where it goes, and how many steps are left. On the pools alone a run
    is one of \<open>pool_step\<close>. \<open>Step_Measure\<close> is the locale of step relations that must end.
  \<^item> \<open>Schedules\<close>: \<open>handleQuery\<close> in one piece is one of those runs, and the properties of every run.
    \<open>Reports\<close>: in every run a breaker gets one report for each admission. \<open>Counting\<close>: in every run
    the metrics count each request once, under the shard that one of the maps gave it.
  \<^item> \<open>Live\<close>: the goroutines beside etcd and the loops of the registry (\<open>live_step\<close>): every connection
    goes where some revision of etcd says, and no request is turned away for want of a map.
  \<^item> \<open>Service\<close>, \<open>Lifecycle\<close>: \<open>main.go\<close>, from the environment to the listener, and from there through
    the signal, \<open>Shutdown\<close> and the deferred \<open>Close\<close> to the exit code (\<open>proc_step\<close>).
  \<^item> this theory: properties that need the whole chain, from an event in etcd to the statement that
    runs, and from the mapping file through every request to the exit of the process.

  \<^bold>\<open>Parameters.\<close> The pgx driver and the database (records \<open>driver\<close> and \<open>world\<close>), the network (\<open>transport\<close>),
  the clock readings of a call, the environment, the file system, Unicode tables, the texts of
  foreign errors. Nothing is assumed of them except where a theorem says so; its witness has a
  concrete instance. The etcd gateway's documents in \<open>Etcd_Wire\<close> state its documented JSON mapping.

  \<^bold>\<open>Bounds.\<close> The JSON parser recurses on fuel, twice the length of its input plus one, which is
  proved to be enough. \<open>watchLoop\<close> runs for a number of rounds, and its theorems hold for every
  number; \<open>watch_until\<close> and \<open>reconcile_until\<close> find the number themselves, may run for ever (\<open>None\<close>), and
  are proved to return once their context is canceled. Every other function terminates by itself.
  Runs of requests are bounded by twenty steps for each goroutine.

  \<^bold>\<open>Not modelled.\<close> Logging; the mux beyond clean paths; connections of HTTP below a request
  (keep-alive, headers, the release of a response body): a request arrives as its body, which
  may be read long after it was accepted, and none is accepted after the signal. In \<open>Loops\<close> the client
  of the watch is the one \<open>Start\<close> leaves; that a reload may renew its token is in \<open>Credentials\<close>, where the
  rounds of the loops are in one piece. A write of the token during a read of it has no model. Requests that run
  at the same time are interleaved in \<open>Goroutines\<close> and \<open>Lifecycle\<close> at their critical sections, in
  \<open>Pool\<close> at those of the pool map, and, as whole handlers, in \<open>Dual_Write\<close>; the theorems of
  \<open>Api_Query\<close> and \<open>Api_Pages\<close> are about one request.
\<close>

section \<open>From the file to every request\<close>

lemma route_shards_from: "route_shards rt src d = Some (rd, wrs) \<Longrightarrow> shard \<in> {rd} \<union> set wrs \<Longrightarrow> shard = src \<or> d = Some shard"
  by (cases rt; cases d) auto

lemma resolved_shards:
  assumes "resolve_spec m i = Some res" and "shard \<in> {ReadShard res} \<union> set (WriteShards res)"
  shows "shard \<in> ran (Shards m) \<and> active shard"
proof -
  from assms(1) obtain b src where b: "Buckets m i = Some b" "Shards m (SourceShardID b) = Some src"
    "active (ReadShard res)" "list_all active (WriteShards res)"
    "route_shards (route_of (State b)) src (Shards m (DestShardID b)) = Some (ReadShard res, WriteShards res)"
    by (auto simp: resolve_spec_def split: option.splits if_splits)
  from route_shards_from [OF b(5) assms(2)] b(2) have "shard \<in> ran (Shards m)" by (auto intro: ranI)
  with assms(2) b(3,4) show ?thesis by (auto simp: list_all_iff)
qed

lemma file_run:
  assumes "Config_Load env = Inr c" and "cfgRegistryMode c = RegistryModeFile"
    and "fs (MappingFile c) = Inr data" and "Unmarshal_fileDoc data = Inr doc"
    and "fold_result insert_bucket (order (doc_buckets doc)) Map.empty = Inr bs"
  shows "\<exists>svc. run env order fs http net = (Inr svc, net) \<and>
    svcStore svc = Some \<lparr>Revision = 1, Shards = map_of (doc_shards doc), Buckets = bs\<rparr> \<and>
    srvRouter (svcServer svc) = Router.New (cfgBucketCount c)"
proof -
  let ?m = "\<lparr>Revision = 1, Shards = map_of (doc_shards doc), Buckets = bs\<rparr>"
  have "FileRegistry_Start (Inr data) order NewStore = (None, Some ?m)"
    using assms(4,5) by (simp add: FileRegistry_Start_def Swap_def)
  then have "start_registry order fs http c net = (Inr (Some ?m, None), net)"
    using assms(2,3) by (simp add: start_registry_def start_file_def NewFileRegistry_def)
  then show ?thesis using assms(1) by (simp add: run_def NewServer_def)
qed

lemma complete_map_resolves:
  assumes "Config_Load env = Inr c" and "\<forall>i\<in>{0..<effective_count (cfgBucketCount c)}. healthy_bucket m i"
  shows "\<exists>res. Resolve (Router.New (cfgBucketCount c)) (Some m) k = Inr res"
  using Resolve_total [OF loaded_bucketCount [OF assms(1)] assms(2), of k] by blast

text \<open>
  C24: a complete mapping file serves every key. If in file mode the file decodes, its bucket keys parse,
  and each bucket below the configured count has a registered ACTIVE source, and an ACTIVE
  destination where its state uses one, then the service starts, is healthy, and resolves
  every key that \<open>/v1/route\<close> is asked about, whatever it hashes to.
\<close>

theorem complete_file_serves_every_key:
  assumes "Config_Load env = Inr c" and "cfgRegistryMode c = RegistryModeFile"
    and "fs (MappingFile c) = Inr data" and "Unmarshal_fileDoc data = Inr doc"
    and "fold_result insert_bucket (order (doc_buckets doc)) Map.empty = Inr bs"
    and "\<forall>i\<in>{0..<effective_count (cfgBucketCount c)}.
      healthy_bucket \<lparr>Revision = 1, Shards = map_of (doc_shards doc), Buckets = bs\<rparr> i"
  shows "\<exists>svc. run env order fs http net = (Inr svc, net) \<and>
    rStatus (handleHealth pr (svcStore svc) (svcServer svc)) = 200 \<and>
    (Query_Get q ''shard_key'' \<noteq> [] \<longrightarrow> rStatus (fst (handleRoute pr (svcStore svc) q (svcServer svc))) = 200)"
proof -
  obtain svc where svc: "run env order fs http net = (Inr svc, net)"
      "svcStore svc = Some \<lparr>Revision = 1, Shards = map_of (doc_shards doc), Buckets = bs\<rparr>"
      "srvRouter (svcServer svc) = Router.New (cfgBucketCount c)"
    using file_run [where fs = fs and order = order and http = http and net = net, OF assms(1-5)] by auto
  have "\<exists>res. Resolve (srvRouter (svcServer svc)) (svcStore svc) k = Inr res" for k
    using complete_map_resolves [OF assms(1,6), of k] svc(2,3) by simp
  note routed = this [of "AnyString ''healthcheck-probe-key''"] this [of "AnyString (Query_Get q ''shard_key'')"]
  then show ?thesis
    using svc(1) by (intro exI [of _ svc]) (auto simp: handleHealth_def handleRoute_def writeJSON_def)
qed

lemma local_complete:
  "\<exists>bs. fold_result insert_bucket (id (doc_buckets example_doc)) Map.empty = Inr bs \<and>
    (\<forall>i\<in>{0..<effective_count (cfgBucketCount (load_env local_env))}.
      healthy_bucket \<lparr>Revision = 1, Shards = map_of (doc_shards example_doc), Buckets = bs\<rparr> i)"
proof -
  obtain bs where bs: "fold_result insert_bucket (id (doc_buckets example_doc)) Map.empty = Inr bs"
      "bs 0 = Some ((snd (doc_buckets example_doc ! 0))\<lparr>BucketID := 0\<rparr>)"
    using local_load by (auto simp: FileRegistry_Start_def Unmarshal_example_file Swap_def split: sum.splits)
  have "healthy_bucket \<lparr>Revision = 1, Shards = map_of (doc_shards example_doc), Buckets = bs\<rparr> 0"
    using bs(2) by (simp add: healthy_bucket_def example_doc_def example_shard_def active_def ShardActive_def
        zero_BucketDef_def route_of_def)
  moreover have "i = 0" if "i \<in> {0..<effective_count (cfgBucketCount (load_env local_env))}" for i
    using that by (simp add: local_config)
  ultimately show ?thesis using bs(1) by blast
qed

lemma local_mapping_file: "local_fs (MappingFile (load_env local_env)) = Inr example_file"
  by (simp add: local_config local_fs_def)

theorem complete_file_serves_every_key_witness:
  "\<exists>svc. run local_env id local_fs dead_transport () = (Inr svc, ()) \<and>
    rStatus (handleHealth (\<lambda>_. False) (svcStore svc) (svcServer svc)) = 200"
proof -
  obtain bs where bs: "fold_result insert_bucket (id (doc_buckets example_doc)) Map.empty = Inr bs"
    "\<forall>i\<in>{0..<effective_count (cfgBucketCount (load_env local_env))}.
      healthy_bucket \<lparr>Revision = 1, Shards = map_of (doc_shards example_doc), Buckets = bs\<rparr> i"
    using local_complete by blast
  show ?thesis
    using complete_file_serves_every_key [where order = id and fs = local_fs and http = dead_transport and net = "()" and pr = "\<lambda>_. False",
        OF local_config(1,3) local_mapping_file Unmarshal_example_file bs] by blast
qed

text \<open>
  C13: the process keeps to its file. Started from a complete mapping file, the service never turns a
  request away because of its route, whatever keys come in and however requests, second writes,
  the reaper, a signal and the shutdown interleave up to its exit; and every connection it
  takes is to an ACTIVE shard of the file, at that shard's writer or reader.
\<close>

theorem file_service_keeps_to_file:
  assumes "Config_Load env = Inr c" and "cfgRegistryMode c = RegistryModeFile"
    and "fs (MappingFile c) = Inr data" and "Unmarshal_fileDoc data = Inr doc"
    and "fold_result insert_bucket (order (doc_buckets doc)) Map.empty = Inr bs"
    and "\<forall>i\<in>{0..<effective_count (cfgBucketCount c)}.
      healthy_bucket \<lparr>Revision = 1, Shards = map_of (doc_shards doc), Buckets = bs\<rparr> i"
    and "run env order fs http net = (Inr svc, net')"
    and "reach (\<lambda>x. x = serve svc) (proc_step ws {svcStore svc}) x"
  shows "(\<forall>err. Unrouted err \<notin> set (gStages (pSys x))) \<and>
    (\<forall>shard ep conn. Connected shard ep conn \<in> set (gLog (pSys x)) \<longrightarrow>
      shard \<in> ran (map_of (doc_shards doc)) \<and> active shard \<and> (ep = Writer shard \<or> Reader shard = Some ep))"
proof -
  let ?m = "\<lparr>Revision = 1, Shards = map_of (doc_shards doc), Buckets = bs\<rparr>"
  have svc: "svcStore svc = Some ?m" "srvRouter (svcServer svc) = Router.New (cfgBucketCount c)"
    using file_run [where fs = fs and order = order and http = http and net = net, OF assms(1-5)] assms(7) by auto
  have "Resolve (srvRouter (svcServer svc)) store key \<noteq> Inl err" if "store \<in> {svcStore svc}" for store key err
    using that complete_map_resolves [OF assms(1,6), of key] svc by auto
  with service_routes [OF assms(8), of UNIV] have "none_unrouted UNIV (pSys x)" by blast
  moreover have "reach proc_start (proc_step ws {svcStore svc}) x"
    using assms(8) by (rule reach_from_start) (use serve_starts [OF assms(7)] in simp)
  then have "origin_inv {svcStore svc} (pSys x)"
    using process_runs.inv_reach by (auto simp: proc_inv_def sound_def)
  then have "origin_inv (Some ` {?m}) (pSys x)" by (simp add: svc)
  then have "shard \<in> ran (map_of (doc_shards doc)) \<and> active shard \<and> (ep = Writer shard \<or> Reader shard = Some ep)"
    if con: "Connected shard ep conn \<in> set (gLog (pSys x))" for shard ep conn
  proof -
    from con \<open>origin_inv (Some ` {?m}) (pSys x)\<close> obtain t where
      "routed_task (srvRouter (gServer (pSys x))) (Some ` {?m}) t" "target t = (shard, ep)"
      unfolding origin_inv_def by blast
    from routed_target [OF this] obtain i res where res: "resolve_spec ?m i = Some res"
      "shard \<in> {ReadShard res} \<union> set (WriteShards res)" "ep = Writer shard \<or> shard = ReadShard res \<and> Reader shard = Some ep"
      by blast
    from resolved_shards [OF res(1,2)] res(3) show ?thesis by auto
  qed
  ultimately show ?thesis by (simp add: none_unrouted_def)
qed

theorem file_service_keeps_to_file_witness:
  "\<exists>svc x shard ep conn. run local_env id local_fs dead_transport () = (Inr svc, ()) \<and>
    reach (\<lambda>x. x = serve svc) (proc_step {test_world} {svcStore svc}) x \<and>
    Connected shard ep conn \<in> set (gLog (pSys x)) \<and> shard \<in> ran (map_of (doc_shards example_doc))"
proof -
  obtain svc where svc: "run local_env id local_fs dead_transport () = (Inr svc, ())"
    "svcServer svc = NewServer (Router.New 1) (NewManager (DefaultConfig\<lparr>MaxConns := PoolMaxConns (load_env local_env)\<rparr>) NewRegistry) NewMetrics"
    by (simp add: local_run)
  obtain bs where bs: "fold_result insert_bucket (id (doc_buckets example_doc)) Map.empty = Inr bs"
    "\<forall>i\<in>{0..<effective_count (cfgBucketCount (load_env local_env))}.
      healthy_bucket \<lparr>Revision = 1, Shards = map_of (doc_shards example_doc), Buckets = bs\<rparr> i"
    using local_complete by blast
  let ?ws = "{test_world}" and ?st = "{svcStore svc}"
  let ?init = "pSys (serve svc)"
  let ?s = "?init\<lparr>gStages := gStages ?init @ [Received (write_body ''A'')]\<rparr>"
  obtain res where res: "Resolve (srvRouter (svcServer svc)) (svcStore svc) (qShardKey (write_req ''A'')) = Inr res"
    using complete_map_resolves [OF local_config(1) bs(2)]
      file_run [where fs = local_fs and order = id and http = dead_transport and net = "()",
        OF local_config(1,3) local_mapping_file Unmarshal_example_file bs(1)] svc(1) by auto
  have "all_closed (srvPool (counted res (svcServer svc)))"
    by (simp add: svc(2) all_closed_def NewServer_def NewManager_def breaker_of_def NewRegistry_def Breaker.New_def)
  from test_world_connects [OF this] obtain cls m where "Acquire (Clock test_world) (Driver test_world) (Others test_world)
      (ReadShard res) (Writer (ReadShard res)) (srvPool (counted res (svcServer svc))) = (Inr 7, cls, m)" by blast
  from write_connects [OF this Resolve_primary [OF res], of "write_req ''A''"] obtain out where
    out: "handleQuery test_world (svcStore svc) (write_body ''A'') (svcServer svc) = Some out"
      "Connected (ReadShard res) (Writer (ReadShard res)) 7 \<in> set (oEffects out)"
    using handleQuery_routed [OF fixture_queries(2) res, of test_world] by force
  have "at_stage ?s 0 (Received (write_body ''A''))" by (simp add: at_stage_def serve_def)
  moreover have "fresh test_world ?s"
    by (simp add: fresh_def serve_def held_def pools_of_def svc(2) NewServer_def NewManager_def)
  moreover have "Others test_world = id" by (simp add: test_world_def)
  moreover have "gServer ?s = svcServer svc" by (simp add: serve_def)
  ultimately obtain s' where s': "runs_to ?ws ?st ?s s'" "gLog s' = oEffects out"
    using query_schedule [of ?s 0 "write_body ''A''" test_world ?ws "svcStore svc" ?st out] out(1) by (auto simp: serve_def)
  have "reach (\<lambda>s. s = ?init) (svc_step ?ws ?st) ?init" by (rule reach_start) (rule refl)
  from runs_reach [OF s'(1) accept_reach [OF this]] have "reach (\<lambda>s. s = ?init) (svc_step ?ws ?st) s'" .
  from serving_reach_from [OF this, of "\<lambda>x. x = serve svc"] obtain acc where
    x: "reach (\<lambda>x. x = serve svc) (proc_step ?ws ?st) \<lparr>pPhase = Listening, pSys = s', pAccepted = acc\<rparr>"
    by (auto simp: serve_def)
  have con: "Connected (ReadShard res) (Writer (ReadShard res)) 7 \<in> set (gLog (pSys \<lparr>pPhase = Listening, pSys = s', pAccepted = acc\<rparr>))"
    using out(2) s'(2) by simp
  from file_service_keeps_to_file [where order = id and fs = local_fs and http = dead_transport and net = "()",
      OF local_config(1,3) local_mapping_file Unmarshal_example_file bs svc(1) x] con
  have "ReadShard res \<in> ran (map_of (doc_shards example_doc))" by blast
  with svc(1) x con show ?thesis by blast
qed

section \<open>From an event in etcd to the next statement\<close>


definition cutover_shard :: "bytes \<Rightarrow> bytes" where
  "cutover_shard host = quoted (''{`status`:`ACTIVE`,`writer`:{`host`:`'' @ host @ ''`,`port`:6432,`database`:`pay`}}'')"

definition cutover_kvs :: "(bytes \<times> bytes) list" where
  "cutover_kvs = [(''/sharding/shards/s1'', cutover_shard ''pg1''), (''/sharding/shards/s2'', cutover_shard ''pg2''),
     (''/sharding/buckets/0'', quoted ''{`shard_id`:`s1`,`dest_shard_id`:`s2`,`state`:`VERIFYING`}'')]"

definition cutover_batch :: watchBatch where
  "cutover_batch = \<lparr>BatchRevision = 8, Events = [\<lparr>EvType = ''PUT'', EvKey = ''/sharding/buckets/0'',
     EvValue = quoted ''{`shard_id`:`s1`,`dest_shard_id`:`s2`,`state`:`CUTOVER`}'', EvRevision = 8\<rparr>],
     Canceled = False, CancelReason = []\<rparr>"

definition pg_shard :: "bytes \<Rightarrow> bytes \<Rightarrow> ShardDef" where
  "pg_shard sid host = \<lparr>ShardID = sid, Status = ''ACTIVE'', Writer = \<lparr>Host = host, Port = 6432, Database = ''pay''\<rparr>,
     Reader = None, CredentialRef = [], Region = []\<rparr>"

lemma cutover_values:
  "shard_val ''s1'' (cutover_shard ''pg1'') = Some (pg_shard ''s1'' ''pg1'')"
  "shard_val ''s2'' (cutover_shard ''pg2'') = Some (pg_shard ''s2'' ''pg2'')"
  "bucket_val 0 (quoted ''{`shard_id`:`s1`,`dest_shard_id`:`s2`,`state`:`CUTOVER`}'') =
     Some \<lparr>BucketID = 0, SourceShardID = ''s1'', DestShardID = ''s2'', State = ''CUTOVER'', MappingVersion = 0\<rparr>"
  "is_ok (Unmarshal_BucketDef (quoted ''{`shard_id`:`s1`,`dest_shard_id`:`s2`,`state`:`CUTOVER`}''))"
  "bucketIDFromKey ''/sharding/buckets/0'' = Some 0" "shardIDFromKey ''/sharding/buckets/0'' = None"
  "distinct_buckets cutover_kvs" "distinct_buckets ((''/sharding/buckets/0'', v) # cutover_kvs)"
  "distinct (map fst cutover_kvs)"
  by (code_simp, code_simp, code_simp, code_simp, code_simp, code_simp, code_simp,
      (simp add: distinct_buckets_def cutover_kvs_def, code_simp), code_simp)


end
